(* ===== verification/Prelude.thy ===== *)
theory Prelude
  imports Main "HOL-Library.Word" "HOL-Library.Multiset"
begin

text \<open>
  Shared vocabulary of the development: the type names that stand for what the C++ code passes
  by pointer or handle, the collections that the component proofs draw on, and lemmas on lists
  and maps that several components use.

  The collections: \<open>model_simps\<close> holds unfolding rules of the model's small helpers, and
  \<open>frame_simps\<close> holds equations saying which parts of a state an operation leaves alone.
\<close>

named_theorems model_simps \<open>unfolding rules of small model helpers\<close>
named_theorems frame_simps \<open>parts of a state that an operation does not touch\<close>

section \<open>Names for pointers, handles and ids\<close>

text \<open>
  A \<open>Transfer*\<close> (the address of a list node), a \<open>CURL*\<close> easy handle, a completion handler
  as an identity, a cancellation slot, and \<open>std::uint64_t\<close> transfer ids. \<open>curlcode\<close> and
  \<open>curlmcode\<close> are libcurl's result codes with the numbers its documentation gives them, and
  \<open>long\<close> values are integers (the code casts without arithmetic on them).
\<close>

type_synonym addr = nat
type_synonym handle = nat
type_synonym slot_ref = nat
type_synonym transfer_id = "64 word"
type_synonym curlcode = int
type_synonym curlmcode = int

abbreviation (input) CURLE_OK :: curlcode where "CURLE_OK \<equiv> 0"
abbreviation (input) CURLE_FAILED_INIT :: curlcode where "CURLE_FAILED_INIT \<equiv> 2"
abbreviation (input) CURLE_OUT_OF_MEMORY :: curlcode where "CURLE_OUT_OF_MEMORY \<equiv> 27"
abbreviation (input) CURLE_OPERATION_TIMEDOUT :: curlcode where "CURLE_OPERATION_TIMEDOUT \<equiv> 28"
abbreviation (input) CURLE_ABORTED_BY_CALLBACK :: curlcode where "CURLE_ABORTED_BY_CALLBACK \<equiv> 42"
abbreviation (input) CURLE_TOO_MANY_REDIRECTS :: curlcode where "CURLE_TOO_MANY_REDIRECTS \<equiv> 47"
abbreviation (input) CURLM_OK :: curlmcode where "CURLM_OK \<equiv> 0"
abbreviation (input) CURLM_OUT_OF_MEMORY :: curlmcode where "CURLM_OUT_OF_MEMORY \<equiv> 3"

section \<open>Lists\<close>

lemma dropWhile_eq_drop_takeWhile: "dropWhile P xs = drop (length (takeWhile P xs)) xs"
  by (induction xs) auto

lemma remove1_notin_set [simp]: "distinct xs \<Longrightarrow> x \<notin> set (remove1 x xs)"
  by (induction xs) auto

lemma set_remove1_distinct: "distinct xs \<Longrightarrow> set (remove1 x xs) = set xs - {x}"
  by (induction xs) auto

lemma mset_remove1_mem: "x \<in> set xs \<Longrightarrow> mset xs = add_mset x (mset (remove1 x xs))"
  by simp

lemma fold_filter_map:
  "fold f (List.map_filter g xs) acc =
     fold (\<lambda>x a. case g x of None \<Rightarrow> a | Some y \<Rightarrow> f y a) xs acc"
  by (induction xs arbitrary: acc) (auto simp: map_filter_simps split: option.splits)

lemma takeWhile_shorter: "\<exists>x\<in>set xs. \<not> P x \<Longrightarrow> length (takeWhile P xs) < length xs"
  by (induction xs) auto

lemma take_between_ends:
  assumes "\<exists>x\<in>set s. \<not> P x"
  shows "take (length s - 1 - length (takeWhile P (rev s)) - length (takeWhile P s) + 1)
           (drop (length (takeWhile P s)) s) = rev (dropWhile P (rev (dropWhile P s)))"
proof -
  let ?d = "dropWhile P s"
  have ex: "\<exists>x\<in>set ?d. \<not> P x"
    using assms by (metis dropWhile_eq_Nil_conv hd_dropWhile list.set_sel(1))
  have s: "s = takeWhile P s @ ?d" by simp
  then have l: "length s = length (takeWhile P s) + length ?d"
    by (metis length_append)
  have "takeWhile P (rev s) = takeWhile P (rev ?d @ rev (takeWhile P s))"
    using s by (metis rev_append)
  also have "\<dots> = takeWhile P (rev ?d)"
    using ex by (metis set_rev takeWhile_append1)
  finally have tw: "takeWhile P (rev s) = takeWhile P (rev ?d)" .
  have "length (takeWhile P (rev ?d)) < length ?d"
    using takeWhile_shorter [of "rev ?d" P] ex by simp
  then have "length s - 1 - length (takeWhile P (rev s)) - length (takeWhile P s) + 1
      = length ?d - length (takeWhile P (rev ?d))"
    using l tw by simp
  then show ?thesis
    by (simp add: dropWhile_eq_drop_takeWhile [of P s, symmetric]
        dropWhile_eq_drop_takeWhile [of P "rev ?d"] rev_drop)
qed

lemma takeWhile_upto: "c \<notin> set xs \<Longrightarrow> takeWhile (\<lambda>x. x \<noteq> c) (xs @ c # ys) = xs"
  by (induction xs) auto

lemma dropWhile_upto: "c \<notin> set xs \<Longrightarrow> dropWhile (\<lambda>x. x \<noteq> c) (xs @ c # ys) = c # ys"
  by (induction xs) auto

lemma takeWhile_absent: "c \<notin> set xs \<Longrightarrow> takeWhile (\<lambda>x. x \<noteq> c) xs = xs"
  by (induction xs) auto

lemma nth_split_mset:
  "i < length xs \<Longrightarrow> add_mset (xs ! i) (mset (take i xs @ drop (i + 1) xs)) = mset xs"
  by (metis add_mset_add_single id_take_nth_drop mset_append mset.simps(2) Suc_eq_plus1
      union_mset_add_mset_right)

section \<open>Outcomes\<close>

text \<open>
  A step of the model can end in two ways besides success. \<open>Undefined\<close> is C++ undefined
  behaviour: a dangling or null pointer followed, an empty handler called. \<open>Breach\<close> means that
  code outside the repository (libcurl, ASIO, the allocator, the caller of the API) gave an
  answer its documentation rules out, so that nothing is claimed of what follows. The safety
  theorems show that \<open>Undefined\<close> never happens without a \<open>Breach\<close>.
\<close>

datatype fault = Undefined | Breach

type_synonym 'a outcome = "fault + 'a"

definition and_then :: "'a outcome \<Rightarrow> ('a \<Rightarrow> 'b outcome) \<Rightarrow> 'b outcome" where
  "and_then m f = (case m of Inl e \<Rightarrow> Inl e | Inr x \<Rightarrow> f x)"

definition deref :: "('k \<Rightarrow> 'v option) \<Rightarrow> 'k \<Rightarrow> 'v outcome" where
  "deref m k = (case m k of None \<Rightarrow> Inl Undefined | Some v \<Rightarrow> Inr v)"

definition expect :: "bool \<Rightarrow> 'a outcome \<Rightarrow> 'a outcome" where
  "expect contract m = (if contract then m else Inl Breach)"

lemma and_then_simps [simp]:
  "and_then (Inl e) f = Inl e"
  "and_then (Inr x) f = f x"
  by (simp_all add: and_then_def)

lemma and_then_Inr: "and_then m f = Inr y \<longleftrightarrow> (\<exists>x. m = Inr x \<and> f x = Inr y)"
  by (auto simp: and_then_def split: sum.splits)

lemma deref_simps [simp]:
  "m k = Some v \<Longrightarrow> deref m k = Inr v"
  "m k = None \<Longrightarrow> deref m k = Inl Undefined"
  by (simp_all add: deref_def)

lemma deref_Inr: "deref m k = Inr v \<longleftrightarrow> m k = Some v"
  by (simp add: deref_def split: option.split)

lemma expect_simps [simp]:
  "expect True m = m"
  "expect False m = Inl Breach"
  by (simp_all add: expect_def)

lemma expect_Inr: "expect b m = Inr y \<longleftrightarrow> b \<and> m = Inr y"
  by (simp add: expect_def)

text \<open>\<open>safely P m\<close>: \<open>m\<close> is free of undefined behaviour, and if it succeeds, its result has \<open>P\<close>.\<close>

definition safely :: "('a \<Rightarrow> bool) \<Rightarrow> 'a outcome \<Rightarrow> bool" where
  "safely P m \<longleftrightarrow> m \<noteq> Inl Undefined \<and> (\<forall>x. m = Inr x \<longrightarrow> P x)"

lemma safely_Inr [simp]: "safely P (Inr x) = P x"
  by (simp add: safely_def)

lemma safely_Breach [simp]: "safely P (Inl Breach)"
  by (simp add: safely_def)

lemma safely_Undefined [simp]: "\<not> safely P (Inl Undefined)"
  by (simp add: safely_def)

lemma safely_and_then:
  assumes "safely Q m" "\<And>x. m = Inr x \<Longrightarrow> Q x \<Longrightarrow> safely P (f x)"
  shows "safely P (and_then m f)"
proof (cases m)
  case (Inl e)
  then show ?thesis using assms(1) by (cases e) auto
next
  case (Inr x)
  then show ?thesis using assms by simp
qed

lemma safely_expect: "(b \<Longrightarrow> safely P m) \<Longrightarrow> safely P (expect b m)"
  by (simp add: expect_def)

lemma safely_weaken: "safely P m \<Longrightarrow> (\<And>x. P x \<Longrightarrow> Q x) \<Longrightarrow> safely Q m"
  by (auto simp: safely_def)

text \<open>
  \<open>yields P m\<close>: if \<open>m\<close> succeeds, its result has \<open>P\<close>. For facts of what has happened, where
  freedom from undefined behaviour is known already.
\<close>

definition yields :: "('a \<Rightarrow> bool) \<Rightarrow> 'a outcome \<Rightarrow> bool" where
  "yields P m \<longleftrightarrow> (\<forall>x. m = Inr x \<longrightarrow> P x)"

lemma yields_simps [simp]: "yields P (Inr x) = P x" "yields P (Inl e)"
  by (simp_all add: yields_def)

lemma yieldsD: "yields P m \<Longrightarrow> m = Inr x \<Longrightarrow> P x"
  by (simp add: yields_def)

lemma yields_expect: "(b \<Longrightarrow> yields P m) \<Longrightarrow> yields P (expect b m)"
  by (simp add: yields_def expect_Inr)

lemma yields_and_then: "yields Q m \<Longrightarrow> (\<And>x. Q x \<Longrightarrow> yields P (f x)) \<Longrightarrow> yields P (and_then m f)"
  by (auto simp: yields_def and_then_Inr)

lemma yields_after: "(\<And>x. yields P (f x)) \<Longrightarrow> yields P (and_then m f)"
  by (auto simp: yields_def and_then_Inr)

section \<open>Runs\<close>

inductive runs :: "('s \<Rightarrow> 'l \<Rightarrow> 's \<Rightarrow> bool) \<Rightarrow> 's \<Rightarrow> 'l list \<Rightarrow> 's \<Rightarrow> bool"
  for step :: "'s \<Rightarrow> 'l \<Rightarrow> 's \<Rightarrow> bool" where
  runs_nil: "runs step s [] s"
| runs_cons: "step s l t \<Longrightarrow> runs step t ls u \<Longrightarrow> runs step s (l # ls) u"

inductive_cases runs_nilE: "runs step s [] t"
inductive_cases runs_consE: "runs step s (l # ls) t"

section \<open>Components\<close>

text \<open>
  A component offers operations with an outcome, and \<open>run_all\<close> performs a list of them. The
  contract every component of the client states: its operations keep its invariant and are free
  of undefined behaviour where it holds; then so are all runs.
\<close>

fun run_all :: "('l \<Rightarrow> 's \<Rightarrow> 's outcome) \<Rightarrow> 'l list \<Rightarrow> 's \<Rightarrow> 's outcome" where
  "run_all act [] s = Inr s"
| "run_all act (l # ls) s = and_then (act l s) (run_all act ls)"

lemma run_all_append:
  "run_all act (ls @ ls') s = and_then (run_all act ls s) (run_all act ls')"
  by (induction ls arbitrary: s) (auto simp: and_then_def split: sum.split)

lemma yields_run: "P s \<Longrightarrow> (\<And>l s. P s \<Longrightarrow> yields P (act l s)) \<Longrightarrow> yields P (run_all act ls s)"
  by (induction ls arbitrary: s) (auto intro: yields_and_then)

lemma run_all_runs: "run_all act ls s = Inr t \<longleftrightarrow> runs (\<lambda>s l t. act l s = Inr t) s ls t"
proof (induction ls arbitrary: s)
  case Nil
  then show ?case by (auto intro: runs_nil elim: runs_nilE)
next
  case (Cons l ls)
  then show ?case by (auto simp: and_then_Inr intro: runs_cons elim!: runs_consE)
qed

locale component =
  fixes act :: "'l \<Rightarrow> 's \<Rightarrow> 's outcome"
    and inv :: "'s \<Rightarrow> bool"
  assumes act_inv: "inv s \<Longrightarrow> safely inv (act l s)"
begin

lemma run_safe: "inv s \<Longrightarrow> safely inv (run_all act ls s)"
  by (induction ls arbitrary: s) (auto intro: safely_and_then act_inv)

lemma run_inv: "inv s \<Longrightarrow> run_all act ls s = Inr t \<Longrightarrow> inv t"
  using run_safe [of s ls] by (simp add: safely_def)

lemma run_defined: "inv s \<Longrightarrow> run_all act ls s \<noteq> Inl Undefined"
  using run_safe [of s ls] by (simp add: safely_def)

lemma run_steps: "inv s \<Longrightarrow> run_all act (ls @ ls') s = Inr u \<Longrightarrow>
    \<exists>t. run_all act ls s = Inr t \<and> inv t \<and> run_all act ls' t = Inr u"
  using run_inv by (fastforce simp: run_all_append and_then_Inr)

end

end
