(* ===== verification/Field_Names.thy ===== *)
theory Field_Names
  imports Prelude
begin

text \<open>
  HTTP field names without regard to case: \<open>detail::ascii_lower\<close>, \<open>detail::CiHash\<close> and
  \<open>detail::CiEqual\<close> of \<open>include/cofetch.h\<close>, the hash and equality that \<open>Response::Headers\<close>
  hands to \<open>std::unordered_map\<close>. The locale \<open>hashed_keys\<close> is what that container asks of the
  two, and what it gives back: looking only at the key's bucket loses nothing.
\<close>

section \<open>Case folding, hash and equality\<close>

definition ascii_lower :: "char \<Rightarrow> char" where
  "ascii_lower c =
     (if of_char CHR ''A'' \<le> (of_char c :: nat) \<and> (of_char c :: nat) \<le> of_char CHR ''Z''
      then char_of ((of_char c :: nat) - of_char CHR ''A'' + of_char CHR ''a'')
      else c)"

text \<open>\<open>size_t\<close> is 64 bits wide, so the polynomial hash wraps as the code's does.\<close>

definition CiHash :: "string \<Rightarrow> 64 word" where
  "CiHash s = foldl (\<lambda>h c. h * 31 + of_nat (of_char (ascii_lower c))) 0 s"

function CiEqual_loop :: "string \<Rightarrow> string \<Rightarrow> nat \<Rightarrow> bool" where
  "CiEqual_loop a b i =
     (if i < length a then
        (if ascii_lower (a ! i) \<noteq> ascii_lower (b ! i) then False
         else CiEqual_loop a b (i + 1))
      else True)"
  by pat_completeness auto
termination
  by (relation "measure (\<lambda>(a, b, i). length a - i)") auto

declare CiEqual_loop.simps [simp del]

definition CiEqual :: "string \<Rightarrow> string \<Rightarrow> bool" where
  "CiEqual a b = (if length a \<noteq> length b then False else CiEqual_loop a b 0)"

section \<open>What the loop decides\<close>

lemma CiEqual_loop_iff:
  "CiEqual_loop a b i \<longleftrightarrow>
     (\<forall>j. i \<le> j \<and> j < length a \<longrightarrow> ascii_lower (a ! j) = ascii_lower (b ! j))"
proof (induction a b i rule: CiEqual_loop.induct)
  case (1 a b i)
  show ?case
  proof (cases "i < length a \<and> ascii_lower (a ! i) = ascii_lower (b ! i)")
    case True
    then have "(\<forall>j. i \<le> j \<and> j < length a \<longrightarrow> ascii_lower (a ! j) = ascii_lower (b ! j)) \<longleftrightarrow>
        (\<forall>j. i + 1 \<le> j \<and> j < length a \<longrightarrow> ascii_lower (a ! j) = ascii_lower (b ! j))"
      by (metis Suc_eq_plus1 Suc_leD not_less_eq_eq order_antisym_conv)
    then show ?thesis
      using True "1.IH" by (simp add: CiEqual_loop.simps [of a b i])
  next
    case False
    then show ?thesis by (auto simp: CiEqual_loop.simps [of a b i])
  qed
qed

lemma CiEqual_map: "CiEqual a b \<longleftrightarrow> map ascii_lower a = map ascii_lower b"
  by (auto simp: CiEqual_def CiEqual_loop_iff list_eq_iff_nth_eq)

lemma CiHash_map: "CiHash s = foldl (\<lambda>h c. h * 31 + of_nat (of_char c)) 0 (map ascii_lower s)"
  by (simp add: CiHash_def foldl_map)

lemma ascii_lower_idem [simp]: "ascii_lower (ascii_lower c) = ascii_lower c"
  by (auto simp: ascii_lower_def)

section \<open>The container's contract\<close>

locale hashed_keys =
  fixes key_hash :: "'k \<Rightarrow> 'h"
    and key_eq :: "'k \<Rightarrow> 'k \<Rightarrow> bool"
  assumes key_eq_refl: "key_eq a a"
    and key_eq_sym: "key_eq a b \<Longrightarrow> key_eq b a"
    and key_eq_trans: "key_eq a b \<Longrightarrow> key_eq b c \<Longrightarrow> key_eq a c"
    and key_hash_cong: "key_eq a b \<Longrightarrow> key_hash a = key_hash b"
begin

lemma bucket_search:
  "List.find (\<lambda>e. key_eq (fst e) k) (filter (\<lambda>e. bucket (key_hash (fst e)) = bucket (key_hash k)) es)
     = List.find (\<lambda>e. key_eq (fst e) k) es"
  by (induction es) (auto dest: key_hash_cong)

lemma same_class: "key_eq a b \<Longrightarrow> key_eq a k = key_eq b k"
  using key_eq_sym key_eq_trans by blast

lemma same_name: "key_eq a k \<Longrightarrow> key_eq b k \<Longrightarrow> key_eq b a"
  using key_eq_sym key_eq_trans by blast

end

interpretation ci: hashed_keys CiHash CiEqual
  by unfold_locales (auto simp: CiEqual_map CiHash_map)

end
