(* ===== verification/Response_Model.thy ===== *)
theory Response_Model
  imports Field_Names
begin

text \<open>
  \<open>cofetch::Response\<close> and the error codes that travel with it (\<open>include/cofetch.h\<close>):
  \<open>curl_category\<close>, \<open>make_error_code\<close>, \<open>is_ok\<close>, and the on-demand header parser
  \<open>for_each_field\<close> with its two clients \<open>headers\<close> and \<open>header\<close>. The
  \<open>std::string_view\<close> operations the parser calls are written out over positions, with
  \<open>npos\<close> as \<open>None\<close>; positions stay within the view, so \<open>size_t\<close> arithmetic cannot wrap
  and is arithmetic on \<open>nat\<close>. The loop over \<open>pos\<close> is a recursion with the measure
  \<open>size() - pos\<close>.

  The reference is \<open>final_fields\<close>: cut the last response block out, split it into lines,
  read one field per line. \<open>for_each_field_reference\<close> is the loop's equivalence with it, and
  the locale \<open>field_collector\<close> is what both clients do with the fields.
\<close>

section \<open>Error codes and the response value\<close>

text \<open>
  \<open>error_code\<close> is a number in a category. Only three kinds occur: the empty code, a
  \<open>CURLcode\<close> in the curl category, and ASIO's \<open>operation_aborted\<close> (whose number depends on
  the platform and is never zero).
\<close>

datatype error_code = No_error | Curl_error int | Operation_aborted

fun ec_set :: "error_code \<Rightarrow> bool" where
  "ec_set No_error = False"
| "ec_set (Curl_error n) = (n \<noteq> 0)"
| "ec_set Operation_aborted = True"

definition make_error_code :: "curlcode \<Rightarrow> error_code" where
  "make_error_code code = Curl_error code"

record response =
  curl_code :: curlcode
  http_code :: int
  data :: string
  header_data :: string

definition default_response :: response where
  "default_response = \<lparr>curl_code = CURLE_OK, http_code = 0, data = [], header_data = []\<rparr>"

definition is_ok :: "response \<Rightarrow> bool" where
  "is_ok r \<longleftrightarrow> curl_code r = CURLE_OK \<and> http_code r \<ge> 200 \<and> http_code r < 300"

section \<open>The string view operations the parser uses\<close>

fun index_of :: "char \<Rightarrow> string \<Rightarrow> nat option" where
  "index_of c [] = None"
| "index_of c (x # xs) = (if x = c then Some 0 else map_option Suc (index_of c xs))"

definition sv_find :: "string \<Rightarrow> char \<Rightarrow> nat \<Rightarrow> nat option" where
  "sv_find sv c pos = map_option (\<lambda>i. pos + i) (index_of c (drop pos sv))"

fun sv_rfind :: "string \<Rightarrow> string \<Rightarrow> nat option" where
  "sv_rfind [] pat = (if pat = [] then Some 0 else None)"
| "sv_rfind (x # xs) pat =
     (case sv_rfind xs pat of
        Some i \<Rightarrow> Some (Suc i)
      | None \<Rightarrow> if take (length pat) (x # xs) = pat then Some 0 else None)"

definition sv_substr :: "string \<Rightarrow> nat \<Rightarrow> nat \<Rightarrow> string" where
  "sv_substr sv pos n = take n (drop pos sv)"

fun find_first_not_of :: "string \<Rightarrow> string \<Rightarrow> nat option" where
  "find_first_not_of [] set_chars = None"
| "find_first_not_of (x # xs) set_chars =
     (if x \<notin> set set_chars then Some 0 else map_option Suc (find_first_not_of xs set_chars))"

fun find_last_not_of :: "string \<Rightarrow> string \<Rightarrow> nat option" where
  "find_last_not_of [] set_chars = None"
| "find_last_not_of (x # xs) set_chars =
     (case find_last_not_of xs set_chars of
        Some i \<Rightarrow> Some (Suc i)
      | None \<Rightarrow> if x \<notin> set set_chars then Some 0 else None)"

abbreviation LF :: char where "LF \<equiv> CHR 0x0A"
abbreviation CR :: char where "CR \<equiv> CHR 0x0D"
abbreviation HTAB :: char where "HTAB \<equiv> CHR 0x09"
abbreviation COLON :: char where "COLON \<equiv> CHR '':''"
abbreviation OWS :: string where "OWS \<equiv> [CHR '' '', HTAB]"
abbreviation STATUS_MARK :: string where "STATUS_MARK \<equiv> LF # ''HTTP/''"

section \<open>The parser\<close>

definition trim :: "string \<Rightarrow> string" where
  "trim s =
     (case find_first_not_of s OWS of
        None \<Rightarrow> []
      | Some b \<Rightarrow> (case find_last_not_of s OWS of
            None \<Rightarrow> drop b s
          | Some e \<Rightarrow> sv_substr s b (e - b + 1)))"

function for_each_field_loop ::
    "(string \<Rightarrow> string \<Rightarrow> 'a \<Rightarrow> 'a) \<Rightarrow> string \<Rightarrow> nat \<Rightarrow> 'a \<Rightarrow> 'a" where
  "for_each_field_loop f sv pos acc =
     (if pos < length sv then
        let nl = sv_find sv LF pos;
            line = sv_substr sv pos ((case nl of None \<Rightarrow> length sv | Some n \<Rightarrow> n) - pos);
            pos' = (case nl of None \<Rightarrow> length sv | Some n \<Rightarrow> n + 1);
            line = (if line \<noteq> [] \<and> last line = CR then butlast line else line)
        in (case sv_find line COLON 0 of
              None \<Rightarrow> for_each_field_loop f sv pos' acc
            | Some colon \<Rightarrow>
                for_each_field_loop f sv pos'
                  (f (trim (sv_substr line 0 colon)) (trim (drop (colon + 1) line)) acc))
      else acc)"
  by pat_completeness auto
termination
  by (relation "measure (\<lambda>(f, sv, pos, acc). length sv - pos)")
    (auto simp: sv_find_def split: option.splits)

declare for_each_field_loop.simps [simp del]

definition for_each_field ::
    "response \<Rightarrow> (string \<Rightarrow> string \<Rightarrow> 'a \<Rightarrow> 'a) \<Rightarrow> 'a \<Rightarrow> 'a" where
  "for_each_field r f acc =
     (let sv = header_data r;
          last_status = sv_rfind sv STATUS_MARK;
          pos = (case last_status of None \<Rightarrow> 0 | Some p \<Rightarrow> p + 1)
      in for_each_field_loop f sv pos acc)"

text \<open>
  \<open>Headers\<close> is an \<open>unordered_map\<close> keyed by \<open>CiHash\<close> and \<open>CiEqual\<close>: here its entries, whose
  keys no two are equal for \<open>CiEqual\<close>. \<open>emplace_field\<close> is the callback of \<open>headers()\<close>:
  \<open>try_emplace\<close>, then the comma-combining of a repeated field.
\<close>

type_synonym fields = "(string \<times> string) list"

fun emplace_field :: "string \<Rightarrow> string \<Rightarrow> fields \<Rightarrow> fields" where
  "emplace_field name value [] = [(name, value)]"
| "emplace_field name value ((k, v) # es) =
     (if CiEqual k name then (k, v @ '', '' @ value) # es
      else (k, v) # emplace_field name value es)"

fun find_field :: "fields \<Rightarrow> string \<Rightarrow> string option" where
  "find_field [] name = None"
| "find_field ((k, v) # es) name = (if CiEqual k name then Some v else find_field es name)"

definition headers :: "response \<Rightarrow> fields" where
  "headers r = for_each_field r emplace_field []"

definition header_step :: "string \<Rightarrow> string \<Rightarrow> string \<Rightarrow> string option \<Rightarrow> string option" where
  "header_step name field value found =
     (if \<not> CiEqual field name then found
      else (case found of Some v \<Rightarrow> Some (v @ '', '' @ value) | None \<Rightarrow> Some value))"

definition header :: "response \<Rightarrow> string \<Rightarrow> string option" where
  "header r name = for_each_field r (header_step name) None"


section \<open>The reference: lines of the final block\<close>

fun lines_of :: "string \<Rightarrow> string list" where
  "lines_of [] = []"
| "lines_of (c # s) =
     (if c = LF then [] # lines_of s
      else (case lines_of s of [] \<Rightarrow> [[c]] | l # ls \<Rightarrow> (c # l) # ls))"

definition strip_cr :: "string \<Rightarrow> string" where
  "strip_cr l = (if l \<noteq> [] \<and> last l = CR then butlast l else l)"

definition strip_ows :: "string \<Rightarrow> string" where
  "strip_ows s = rev (dropWhile (\<lambda>c. c \<in> set OWS) (rev (dropWhile (\<lambda>c. c \<in> set OWS) s)))"

definition field_of_line :: "string \<Rightarrow> (string \<times> string) option" where
  "field_of_line l =
     (let l = strip_cr l
      in if COLON \<in> set l
         then Some (strip_ows (takeWhile (\<lambda>x. x \<noteq> COLON) l),
                    strip_ows (tl (dropWhile (\<lambda>x. x \<noteq> COLON) l)))
         else None)"

definition final_block :: "string \<Rightarrow> string" where
  "final_block s = (case sv_rfind s STATUS_MARK of None \<Rightarrow> s | Some p \<Rightarrow> drop (p + 1) s)"

definition final_fields :: "response \<Rightarrow> fields" where
  "final_fields r = List.map_filter field_of_line (lines_of (final_block (header_data r)))"

section \<open>The string operations against their specifications\<close>

lemma index_of_eq:
  "index_of c xs = (if c \<in> set xs then Some (length (takeWhile (\<lambda>x. x \<noteq> c) xs)) else None)"
  by (induction xs) auto

lemma find_first_not_of_eq:
  "find_first_not_of s cs =
     (if set s \<subseteq> set cs then None else Some (length (takeWhile (\<lambda>c. c \<in> set cs) s)))"
  by (induction s) auto

lemma find_last_not_of_eq:
  "find_last_not_of s cs =
     (if set s \<subseteq> set cs then None
      else Some (length s - 1 - length (takeWhile (\<lambda>c. c \<in> set cs) (rev s))))"
proof (induction s)
  case Nil
  then show ?case by simp
next
  case (Cons x s)
  show ?case
  proof (cases "set s \<subseteq> set cs")
    case True
    then show ?thesis using Cons by (auto simp: takeWhile_append)
  next
    case False
    then have "length (takeWhile (\<lambda>c. c \<in> set cs) (rev s)) < length s"
      by (metis length_rev length_takeWhile_le le_neq_implies_less set_rev subsetI
          takeWhile_eq_all_conv takeWhile_eq_take take_all_iff order_refl)
    then show ?thesis using Cons False by (auto simp: takeWhile_append)
  qed
qed

lemma dropWhile_all_in: "set s \<subseteq> A \<Longrightarrow> dropWhile (\<lambda>c. c \<in> A) s = []"
  by (induction s) auto

lemma trim_eq: "trim s = strip_ows s"
proof (cases "set s \<subseteq> set OWS")
  case True
  then show ?thesis
    by (simp only: trim_def strip_ows_def find_first_not_of_eq dropWhile_all_in) simp
next
  case False
  then have "\<exists>x\<in>set s. \<not> x \<in> set OWS" by blast
  from take_between_ends [OF this] False show ?thesis
    by (simp only: trim_def strip_ows_def find_first_not_of_eq find_last_not_of_eq sv_substr_def)
      simp
qed

lemma lines_of_unfold:
  "lines_of s = (if s = [] then []
     else takeWhile (\<lambda>x. x \<noteq> LF) s # lines_of (tl (dropWhile (\<lambda>x. x \<noteq> LF) s)))"
proof (induction s)
  case Nil
  then show ?case by simp
next
  case (Cons c s)
  then show ?case by (cases s) auto
qed

section \<open>The loop does what the reference says\<close>

lemma field_of_line_find:
  "field_of_line l =
     (case sv_find (strip_cr l) COLON 0 of
        None \<Rightarrow> None
      | Some colon \<Rightarrow>
          Some (trim (sv_substr (strip_cr l) 0 colon), trim (drop (colon + 1) (strip_cr l))))"
  by (simp add: field_of_line_def Let_def sv_find_def sv_substr_def index_of_eq trim_eq
      dropWhile_eq_drop_takeWhile takeWhile_eq_take [symmetric] tl_drop drop_Suc)


abbreviation fold_fields :: "(string \<Rightarrow> string \<Rightarrow> 'a \<Rightarrow> 'a) \<Rightarrow> fields \<Rightarrow> 'a \<Rightarrow> 'a" where
  "fold_fields f fs acc \<equiv> fold (\<lambda>(n, v). f n v) fs acc"

abbreviation line_end :: "string \<Rightarrow> nat \<Rightarrow> nat" where
  "line_end sv pos \<equiv> (case sv_find sv LF pos of None \<Rightarrow> length sv | Some n \<Rightarrow> n)"

abbreviation next_pos :: "string \<Rightarrow> nat \<Rightarrow> nat" where
  "next_pos sv pos \<equiv> (case sv_find sv LF pos of None \<Rightarrow> length sv | Some n \<Rightarrow> n + 1)"

lemma line_eq:
  "sv_substr sv pos (line_end sv pos - pos) = takeWhile (\<lambda>x. x \<noteq> LF) (drop pos sv)"
  by (auto simp: sv_find_def sv_substr_def index_of_eq takeWhile_eq_take [symmetric]
      takeWhile_absent)

lemma rest_eq: "drop (next_pos sv pos) sv = tl (dropWhile (\<lambda>x. x \<noteq> LF) (drop pos sv))"
  by (auto simp: sv_find_def index_of_eq dropWhile_eq_drop_takeWhile tl_drop drop_Suc
      takeWhile_absent add.commute)

lemma next_pos_later: "pos < length sv \<Longrightarrow> pos < next_pos sv pos"
  by (auto simp: sv_find_def split: option.splits)

lemma lines_of_step:
  assumes "pos < length sv"
  shows "lines_of (drop pos sv) =
    sv_substr sv pos (line_end sv pos - pos) # lines_of (drop (next_pos sv pos) sv)"
  using assms by (subst lines_of_unfold) (simp add: line_eq rest_eq)

lemma for_each_field_loop_step:
  assumes "pos < length sv"
  shows "for_each_field_loop f sv pos acc =
    for_each_field_loop f sv (next_pos sv pos)
      (case field_of_line (sv_substr sv pos (line_end sv pos - pos)) of
         None \<Rightarrow> acc | Some (n, v) \<Rightarrow> f n v acc)"
  using assms
  by (subst for_each_field_loop.simps)
    (simp add: Let_def strip_cr_def field_of_line_find split: option.split)

lemma for_each_field_loop_eq:
  "for_each_field_loop f sv pos acc =
     fold_fields f (List.map_filter field_of_line (lines_of (drop pos sv))) acc"
proof (induction "length sv - pos" arbitrary: pos acc rule: less_induct)
  case less
  show ?case
  proof (cases "pos < length sv")
    case False
    then show ?thesis
      by (simp add: for_each_field_loop.simps [of f sv pos acc] map_filter_simps)
  next
    case True
    then have "length sv - next_pos sv pos < length sv - pos"
      using next_pos_later [OF True] by linarith
    from less [OF this] True show ?thesis
      by (simp add: for_each_field_loop_step lines_of_step map_filter_simps split: option.split)
  qed
qed

lemma for_each_field_reference: "for_each_field r f acc = fold_fields f (final_fields r) acc"
  by (simp add: for_each_field_def final_fields_def final_block_def for_each_field_loop_eq
      split: option.split)

section \<open>The two clients of the loop\<close>

text \<open>
  Both \<open>headers()\<close> and \<open>header(name)\<close> collect, for a field name, the comma-combined values of
  the fields that match it. \<open>look\<close> is how the collected value is read.
\<close>

definition comma_combine :: "string option \<Rightarrow> string \<Rightarrow> string option" where
  "comma_combine found value = Some (case found of Some v \<Rightarrow> v @ '', '' @ value | None \<Rightarrow> value)"

definition combined_value :: "string \<Rightarrow> fields \<Rightarrow> string option" where
  "combined_value name fs =
     fold (\<lambda>v found. comma_combine found v) [v. (n, v) \<leftarrow> fs, CiEqual n name] None"

locale field_collector =
  fixes add :: "string \<Rightarrow> string \<Rightarrow> 'm \<Rightarrow> 'm"
    and look :: "'m \<Rightarrow> string option"
    and start :: 'm
    and name :: string
  assumes look_start: "look start = None"
    and look_add: "look (add n v m) = (if CiEqual n name then comma_combine (look m) v else look m)"
begin

lemma look_fold:
  "look (fold_fields add fs m) =
     fold (\<lambda>v found. comma_combine found v) [v. (n, v) \<leftarrow> fs, CiEqual n name] (look m)"
  by (induction fs arbitrary: m) (auto simp: look_add)

lemma look_collected: "look (fold_fields add fs start) = combined_value name fs"
  by (simp add: look_fold look_start combined_value_def)

end

lemma find_emplace_field:
  "find_field (emplace_field n v es) name =
     (if CiEqual n name then comma_combine (find_field es name) v else find_field es name)"
proof (induction es)
  case Nil
  then show ?case by (simp add: comma_combine_def)
next
  case (Cons e es)
  obtain k w where e: "e = (k, w)" by force
  show ?case
    using Cons ci.same_class [of k n name] ci.same_name [of n name k]
    by (auto simp: e comma_combine_def)
qed

interpretation hm: field_collector emplace_field "\<lambda>es. find_field es name" "[]" name
  for name
  by unfold_locales (simp_all add: find_emplace_field)

interpretation hl: field_collector "header_step name" "\<lambda>found. found" None name
  for name
  by unfold_locales (simp_all add: header_step_def comma_combine_def split: option.split)

lemma find_headers: "find_field (headers r) name = combined_value name (final_fields r)"
  by (simp add: headers_def for_each_field_reference hm.look_collected)

lemma header_combined: "header r name = combined_value name (final_fields r)"
  by (simp add: header_def for_each_field_reference hl.look_collected)

lemma emplace_field_keys:
  "map fst (emplace_field n v es) =
     (if \<exists>k\<in>set (map fst es). CiEqual k n then map fst es else map fst es @ [n])"
  by (induction n v es rule: emplace_field.induct) auto

definition keys_apart :: "fields \<Rightarrow> bool" where
  "keys_apart es \<longleftrightarrow> distinct (map (map ascii_lower) (map fst es))"

lemma emplace_field_apart: "keys_apart es \<Longrightarrow> keys_apart (emplace_field n v es)"
  unfolding keys_apart_def emplace_field_keys by (auto simp: CiEqual_map)

lemma headers_apart: "keys_apart (headers r)"
proof -
  have "keys_apart es \<Longrightarrow> keys_apart (fold_fields emplace_field fs es)" for fs es
    by (induction fs arbitrary: es) (auto intro: emplace_field_apart)
  then show ?thesis
    by (simp add: headers_def for_each_field_reference keys_apart_def)
qed


section \<open>What goes over the wire, and reading it back\<close>

text \<open>
  The header block of one response as servers send it: a status line, one line per field, a
  blank line, every line ended by CR LF. \<open>status_line\<close> and \<open>wire_field_ok\<close> are what RFC 9110
  and RFC 9112 ask of a status line without a colon and of a field in canonical form.
\<close>

abbreviation CRLF :: string where "CRLF \<equiv> [CR, LF]"

definition wire_field :: "string \<times> string \<Rightarrow> string" where
  "wire_field nv = fst nv @ '': '' @ snd nv @ CRLF"

definition wire_block :: "string \<Rightarrow> fields \<Rightarrow> string" where
  "wire_block status fs = status @ CRLF @ concat (map wire_field fs) @ CRLF"

definition status_line :: "string \<Rightarrow> bool" where
  "status_line s \<longleftrightarrow> take 5 s = ''HTTP/'' \<and> LF \<notin> set s"

definition wire_field_ok :: "string \<times> string \<Rightarrow> bool" where
  "wire_field_ok nv \<longleftrightarrow>
     LF \<notin> set (fst nv) \<and> COLON \<notin> set (fst nv) \<and> take 5 (fst nv) \<noteq> ''HTTP/'' \<and>
     strip_ows (fst nv) = fst nv \<and> LF \<notin> set (snd nv) \<and> strip_ows (snd nv) = snd nv"

lemma sv_rfind_append: "sv_rfind t pat = Some i \<Longrightarrow> sv_rfind (s @ t) pat = Some (length s + i)"
  by (induction s) auto

lemma take_5: "take (Suc (Suc (Suc (Suc (Suc 0))))) xs = take 5 xs"
  by (simp add: eval_nat_numeral)

lemma final_block_last:
  assumes "take 5 b = ''HTTP/''" "sv_rfind b STATUS_MARK = None"
  shows "final_block (hops @ LF # b) = b"
proof -
  have "sv_rfind (LF # b) STATUS_MARK = Some 0" using assms by (simp add: take_5)
  from sv_rfind_append [OF this, of hops] show ?thesis by (simp add: final_block_def)
qed

lemma sv_rfind_line:
  assumes "LF \<notin> set l" "sv_rfind rest STATUS_MARK = None" "take 5 rest \<noteq> ''HTTP/''"
  shows "sv_rfind (l @ LF # rest) STATUS_MARK = None"
  using assms by (induction l) (auto simp: take_5)

lemma lines_of_line: "LF \<notin> set l \<Longrightarrow> lines_of (l @ LF # rest) = l # lines_of rest"
  by (subst lines_of_unfold) (simp add: takeWhile_upto dropWhile_upto)

lemma take_status_colon: "COLON \<notin> set n \<Longrightarrow> take 5 n \<noteq> ''HTTP/'' \<Longrightarrow> take 5 (n @ COLON # s) \<noteq> ''HTTP/''"
  by (cases n; cases "tl n"; cases "tl (tl n)"; cases "tl (tl (tl n))"; cases "tl (tl (tl (tl n)))")
    (auto simp: eval_nat_numeral)

lemma wire_field_start: "wire_field_ok nv \<Longrightarrow> take 5 (wire_field nv @ rest) \<noteq> ''HTTP/''"
  using take_status_colon [of "fst nv"] by (simp add: wire_field_ok_def wire_field_def)

lemma wire_field_line: "wire_field nv @ rest = (fst nv @ '': '' @ snd nv @ [CR]) @ LF # rest"
  by (simp add: wire_field_def)

lemma wire_tail_unmarked:
  "list_all wire_field_ok fs \<Longrightarrow>
     sv_rfind (concat (map wire_field fs) @ CRLF) STATUS_MARK = None \<and>
     take 5 (concat (map wire_field fs) @ CRLF) \<noteq> ''HTTP/''"
proof (induction fs)
  case Nil
  then show ?case by simp
next
  case (Cons nv fs)
  then have ok: "wire_field_ok nv" by simp
  have "sv_rfind ((fst nv @ '': '' @ snd nv @ [CR]) @ LF # concat (map wire_field fs) @ CRLF)
      STATUS_MARK = None"
    by (rule sv_rfind_line) (use Cons ok in \<open>auto simp: wire_field_ok_def\<close>)
  then show ?case
    using wire_field_start [OF ok] by (simp add: wire_field_line del: sv_rfind.simps)
qed

lemma wire_block_line: "wire_block st fs = (st @ [CR]) @ LF # concat (map wire_field fs) @ CRLF"
  by (simp add: wire_block_def)

lemma wire_block_unmarked:
  assumes "status_line st" "list_all wire_field_ok fs"
  shows "sv_rfind (wire_block st fs) STATUS_MARK = None"
  unfolding wire_block_line
  by (rule sv_rfind_line) (use assms wire_tail_unmarked [of fs] in \<open>auto simp: status_line_def\<close>)

lemma strip_ows_blank: "strip_ows (CHR '' '' # s) = strip_ows s"
  by (simp add: strip_ows_def)

lemma field_of_wire_line:
  assumes "wire_field_ok nv"
  shows "field_of_line (fst nv @ '': '' @ snd nv @ [CR]) = Some nv"
  using assms
  by (simp add: field_of_line_def strip_cr_def wire_field_ok_def butlast_append takeWhile_upto
      dropWhile_upto strip_ows_blank Let_def)

lemma fields_of_wire_lines:
  "list_all wire_field_ok fs \<Longrightarrow>
     List.map_filter field_of_line (lines_of (concat (map wire_field fs) @ CRLF)) = fs"
proof (induction fs)
  case Nil
  then show ?case by (simp add: field_of_line_def strip_cr_def map_filter_simps)
next
  case (Cons nv fs)
  have "lines_of (wire_field nv @ concat (map wire_field fs) @ CRLF) =
      (fst nv @ '': '' @ snd nv @ [CR]) # lines_of (concat (map wire_field fs) @ CRLF)"
    unfolding wire_field_line by (rule lines_of_line) (use Cons.prems in \<open>auto simp: wire_field_ok_def\<close>)
  then show ?case
    using Cons field_of_wire_line [of nv] by (simp add: map_filter_simps)
qed

definition status_field :: "string \<Rightarrow> fields" where
  "status_field st = (case field_of_line (st @ [CR]) of None \<Rightarrow> [] | Some nv \<Rightarrow> [nv])"

lemma status_field_none: "COLON \<notin> set st \<Longrightarrow> status_field st = []"
  by (auto simp: status_field_def field_of_line_def strip_cr_def)

lemma final_fields_wire:
  assumes "status_line st" "list_all wire_field_ok fs"
    and "header_data r = hops @ wire_block st fs" "hops = [] \<or> last hops = LF"
  shows "final_fields r = status_field st @ fs"
proof -
  have b: "final_block (header_data r) = wire_block st fs"
  proof (cases "hops = []")
    case True
    with assms wire_block_unmarked [OF assms(1,2)] show ?thesis by (simp add: final_block_def)
  next
    case False
    with assms(4) have eq: "hops @ wire_block st fs = butlast hops @ LF # wire_block st fs"
      by (metis append.assoc append_Cons append_Nil append_butlast_last_id)
    have "take 5 (wire_block st fs) = ''HTTP/''"
      using assms(1) by (auto simp: status_line_def wire_block_def take_eq_Nil
          intro: ccontr dest: arg_cong [of _ _ length])
    then show ?thesis
      unfolding assms(3) eq by (rule final_block_last) (rule wire_block_unmarked [OF assms(1,2)])
  qed
  have "lines_of (wire_block st fs) = (st @ [CR]) # lines_of (concat (map wire_field fs) @ CRLF)"
    unfolding wire_block_line by (rule lines_of_line) (use assms(1) in \<open>simp add: status_line_def\<close>)
  then show ?thesis
    using fields_of_wire_lines [OF assms(2)]
    by (simp add: final_fields_def b map_filter_simps status_field_def split: option.split)
qed

end
