(* ===== verification/Response_Props.thy ===== *)
theory Response_Props
  imports Response_Model
begin

text \<open>
  The properties of field names and of the response parser, each with a witness at a concrete
  response where it has hypotheses.
\<close>

lemmas ci_eval = CiEqual_map ascii_lower_def char_of_def bit_Suc_0_iff

section \<open>Field names\<close>

text \<open>
  \<open>CiEqual\<close> decides equality of field names up to ASCII case: two names are equal for it
  exactly when they agree letter by letter after folding, and then \<open>CiHash\<close> agrees on them, as
  \<open>std::unordered_map\<close> asks of its hash and equality.
\<close>

theorem field_name_equality:
  "(CiEqual a b \<longleftrightarrow> map ascii_lower a = map ascii_lower b) \<and> (CiEqual a b \<longrightarrow> CiHash a = CiHash b)"
  by (auto simp: CiEqual_map CiHash_map)

theorem field_name_equality_witness:
  "CiEqual ''Content-Type'' ''cOnTeNt-type'' \<and> CiHash ''Content-Type'' = CiHash ''cOnTeNt-type''"
proof -
  have "CiEqual ''Content-Type'' ''cOnTeNt-type''" by (simp add: ci_eval)
  then show ?thesis using field_name_equality by blast
qed

text \<open>
  Looking a name up only in the bucket its hash selects finds what a search of all entries
  finds, whatever the number of buckets.
\<close>

theorem bucket_lookup_complete:
  "List.find (\<lambda>e. CiEqual (fst e) k)
       (filter (\<lambda>e. unat (CiHash (fst e)) mod n = unat (CiHash k) mod n) es)
     = List.find (\<lambda>e. CiEqual (fst e) k) es"
  by (rule ci.bucket_search [where bucket = "\<lambda>h. unat h mod n"])

section \<open>The parser\<close>

text \<open>
  C22: The position-based loop of \<open>for_each_field\<close> calls its callback exactly on the fields
  of the last response block, in order, name and value trimmed: it equals a fold over the
  fields read line by line from that block.
\<close>

theorem for_each_field_correct:
  "for_each_field r f acc = fold (\<lambda>(n, v). f n v) (final_fields r) acc"
  by (rule for_each_field_reference)

text \<open>
  C23: \<open>header(name)\<close> is an optimisation of \<open>headers()\<close>: without building the map it returns
  what a lookup in the map would.
\<close>

theorem header_is_headers_lookup: "header r name = find_field (headers r) name"
  by (simp add: header_combined find_headers)

text \<open>
  The map \<open>headers()\<close> builds has no two keys that differ in case only, and holds exactly
  the names that occur in the final block.
\<close>

theorem headers_keys:
  "keys_apart (headers r) \<and>
   (find_field (headers r) name \<noteq> None \<longleftrightarrow> (\<exists>nv \<in> set (final_fields r). CiEqual (fst nv) name))"
proof -
  have "fold (\<lambda>v found. comma_combine found v) vs x = None \<longleftrightarrow> vs = [] \<and> x = None" for vs x
    by (induction vs arbitrary: x) (auto simp: comma_combine_def)
  then have "find_field (headers r) name = None \<longleftrightarrow>
      [v. (n, v) \<leftarrow> final_fields r, CiEqual n name] = []"
    by (simp add: find_headers combined_value_def)
  moreover have "[v. (n, v) \<leftarrow> fs, CiEqual n name] = [] \<longleftrightarrow> (\<forall>nv \<in> set fs. \<not> CiEqual (fst nv) name)"
    for fs :: fields
    by (induction fs) auto
  ultimately show ?thesis using headers_apart by auto
qed

text \<open>
  C24: Round trip. A header block written the way servers send it (status line without a
  colon, canonical fields) is read back as its fields, and whatever blocks of earlier hops or
  interim responses precede it leave no trace.
\<close>

theorem header_block_roundtrip:
  assumes "status_line st" "COLON \<notin> set st" "list_all wire_field_ok fs"
    and "header_data r = hops @ wire_block st fs" "hops = [] \<or> last hops = LF"
  shows "final_fields r = fs \<and> header r name = combined_value name fs"
  using final_fields_wire [OF assms(1,3-5)] status_field_none [OF assms(2)]
  by (simp add: header_combined)

definition sample_hops :: string where
  "sample_hops = ''HTTP/1.1 302 Found'' @ CRLF @ ''Location: /next'' @ CRLF @ CRLF"

definition sample_response :: response where
  "sample_response = \<lparr>curl_code = CURLE_OK, http_code = 200, data = [],
     header_data = sample_hops @ wire_block ''HTTP/2 200''
       [(''Set-Cookie'', ''a=1''), (''ETag'', ''x''), (''set-cookie'', ''b=2'')]\<rparr>"

theorem header_block_roundtrip_witness:
  "header sample_response ''SET-COOKIE'' = Some ''a=1, b=2'' \<and>
   header sample_response ''location'' = None"
proof -
  let ?fs = "[(''Set-Cookie'', ''a=1''), (''ETag'', ''x''), (''set-cookie'', ''b=2'')]"
  have ok: "status_line ''HTTP/2 200''" "COLON \<notin> set ''HTTP/2 200''" "list_all wire_field_ok ?fs"
    by (simp_all add: status_line_def wire_field_ok_def strip_ows_def)
  have h: "header_data sample_response = sample_hops @ wire_block ''HTTP/2 200'' ?fs"
    "sample_hops = [] \<or> last sample_hops = LF"
    by (simp_all add: sample_response_def sample_hops_def)
  have "combined_value ''SET-COOKIE'' ?fs = Some ''a=1, b=2''" "combined_value ''location'' ?fs = None"
    by (simp_all add: combined_value_def comma_combine_def ci_eval)
  then show ?thesis using header_block_roundtrip [OF ok h] by simp
qed

text \<open>
  A status line whose reason phrase contains a colon is not skipped: the part before the
  colon becomes a field name, although the code's comment says status lines are skipped.
\<close>

theorem status_line_with_colon_becomes_field:
  assumes "status_line (a @ COLON # b)" "COLON \<notin> set a" "list_all wire_field_ok fs"
    and "header_data r = wire_block (a @ COLON # b) fs"
  shows "final_fields r = (strip_ows a, strip_ows b) # fs"
proof -
  have "field_of_line ((a @ COLON # b) @ [CR]) = Some (strip_ows a, strip_ows b)"
    using assms(2) by (simp add: field_of_line_def strip_cr_def butlast_append takeWhile_upto
        dropWhile_upto)
  with final_fields_wire [OF assms(1,3), of r "[]"] assms(4) show ?thesis
    by (simp add: status_field_def)
qed

theorem status_line_with_colon_becomes_field_witness:
  "final_fields \<lparr>curl_code = CURLE_OK, http_code = 503, data = [],
      header_data = wire_block ''HTTP/1.1 503 Busy: retry'' [(''ETag'', ''x'')]\<rparr>
    = [(''HTTP/1.1 503 Busy'', ''retry''), (''ETag'', ''x'')]"
proof -
  have 1: "status_line (''HTTP/1.1 503 Busy'' @ COLON # '' retry'')" by (simp add: status_line_def)
  have 2: "COLON \<notin> set ''HTTP/1.1 503 Busy''" by simp
  have 3: "list_all wire_field_ok [(''ETag'', ''x'')]" by (simp add: wire_field_ok_def strip_ows_def)
  show ?thesis
    using status_line_with_colon_becomes_field [OF 1 2 3] by (simp add: strip_ows_def)
qed

text \<open>
  \<open>is_ok()\<close> holds only for a transfer that succeeded with a 2xx status, and a transfer
  that failed always carries a set error code in the curl category.
\<close>

theorem is_ok_excludes_errors:
  "(is_ok r \<longleftrightarrow> curl_code r = CURLE_OK \<and> http_code r div 100 = 2) \<and>
   \<not> is_ok default_response \<and>
   (ec_set (make_error_code code) \<longleftrightarrow> code \<noteq> CURLE_OK)"
proof -
  have "n \<ge> 200 \<and> n < 300 \<longleftrightarrow> n div 100 = 2" for n :: int by presburger
  then show ?thesis by (auto simp: is_ok_def default_response_def make_error_code_def)
qed

end
