(* ===== verification/Global_Setup.thy ===== *)
theory Global_Setup
  imports Prelude
begin

text \<open>
  Clients on several threads, one event loop each, as \<open>bench/bench_cofetch.cpp\<close> runs them: their
  constructors and destructors set up and clean up libcurl for the whole process under
  \<open>global_mutex\<close>. The step relation interleaves the threads between any two of these actions.
\<close>

section \<open>Threads\<close>

text \<open>
  A thread constructs and destroys clients one after the other. It waits for the lock, is inside
  \<open>curl_global_init\<close> or \<open>curl_global_cleanup\<close>, and lets go of the lock at the end of the scope of
  the \<open>lock_guard\<close>; \<open>Living\<close> is everything between constructor and the end of the destructor.
\<close>

datatype stage = Outside | Wants_setup | Setting_up | Set_up | Living | Wants_cleanup | Cleaning_up | Cleaned_up

text \<open>\<open>inits\<close> is libcurl's count of its users.\<close>

record process =
  stages :: "nat \<Rightarrow> stage"
  global_mutex :: "nat option"
  inits :: nat

definition new_process :: process where
  "new_process = \<lparr>stages = (\<lambda>_. Outside), global_mutex = None, inits = 0\<rparr>"

abbreviation go :: "nat \<Rightarrow> stage \<Rightarrow> process \<Rightarrow> process" where
  "go t p s \<equiv> s\<lparr>stages := (stages s)(t := p)\<rparr>"

text \<open>The constructor, and the destructor from where it has freed what is its own.\<close>

definition construct_step :: "nat \<Rightarrow> process \<Rightarrow> process" where
  "construct_step t s = (case stages s t of
     Outside \<Rightarrow> go t Wants_setup s
   | Wants_setup \<Rightarrow> go t Setting_up (s\<lparr>global_mutex := Some t\<rparr>)
   | Setting_up \<Rightarrow> go t Set_up (s\<lparr>inits := inits s + 1\<rparr>)
   | Set_up \<Rightarrow> go t Living (s\<lparr>global_mutex := None\<rparr>)
   | _ \<Rightarrow> s)"

definition destruct_step :: "nat \<Rightarrow> process \<Rightarrow> process" where
  "destruct_step t s = (case stages s t of
     Living \<Rightarrow> go t Wants_cleanup s
   | Wants_cleanup \<Rightarrow> go t Cleaning_up (s\<lparr>global_mutex := Some t\<rparr>)
   | Cleaning_up \<Rightarrow> go t Cleaned_up (s\<lparr>inits := inits s - 1\<rparr>)
   | Cleaned_up \<Rightarrow> go t Outside (s\<lparr>global_mutex := None\<rparr>)
   | _ \<Rightarrow> s)"

definition advance :: "nat \<Rightarrow> process \<Rightarrow> process" where
  "advance t s = (if stages s t \<in> {Outside, Wants_setup, Setting_up, Set_up}
     then construct_step t s else destruct_step t s)"

definition blocked :: "nat \<Rightarrow> process \<Rightarrow> bool" where
  "blocked t s \<longleftrightarrow> stages s t \<in> {Wants_setup, Wants_cleanup} \<and> global_mutex s \<noteq> None"

inductive process_step :: "nat \<Rightarrow> process \<Rightarrow> nat \<Rightarrow> process \<Rightarrow> bool" for n :: nat where
  advances: "t < n \<Longrightarrow> \<not> blocked t s \<Longrightarrow> process_step n s t (advance t s)"

inductive_simps process_step_iff: "process_step n s t s'"

section \<open>Invariant\<close>

definition holds_lock :: "stage \<Rightarrow> bool" where
  "holds_lock p \<longleftrightarrow> p \<in> {Setting_up, Set_up, Cleaning_up, Cleaned_up}"

definition counts :: "stage \<Rightarrow> bool" where
  "counts p \<longleftrightarrow> p \<in> {Set_up, Living, Wants_cleanup, Cleaning_up}"

definition counted_threads :: "nat \<Rightarrow> (nat \<Rightarrow> stage) \<Rightarrow> nat set" where
  "counted_threads n f = {t. t < n \<and> counts (f t)}"

definition process_ok :: "nat \<Rightarrow> process \<Rightarrow> bool" where
  "process_ok n s \<longleftrightarrow> (\<forall>t<n. holds_lock (stages s t) \<longleftrightarrow> global_mutex s = Some t) \<and>
     (\<forall>t. global_mutex s = Some t \<longrightarrow> t < n) \<and> inits s = card (counted_threads n (stages s))"

lemma finite_counted [simp]: "finite (counted_threads n f)"
  by (simp add: counted_threads_def)

lemma counted_go:
  "t < n \<Longrightarrow> counted_threads n (f(t := p)) =
     (if counts p then insert t (counted_threads n f) else counted_threads n f - {t})"
  by (auto simp: counted_threads_def)

lemma in_counted: "t < n \<Longrightarrow> t \<in> counted_threads n f \<longleftrightarrow> counts (f t)"
  by (simp add: counted_threads_def)

lemma advance_ok:
  assumes s: "process_ok n s" and t: "t < n" "\<not> blocked t s"
  shows "process_ok n (advance t s)"
proof -
  have mem: "t \<in> counted_threads n (stages s) \<longleftrightarrow> counts (stages s t)" using t(1) by (rule in_counted)
  have pos: "counts (stages s t) \<Longrightarrow> 0 < card (counted_threads n (stages s))" using mem by (auto simp: card_gt_0_iff)
  from s have inits: "inits s = card (counted_threads n (stages s))" by (simp add: process_ok_def)
  have "inits (advance t s) = card (counted_threads n (stages (advance t s)))"
    using mem pos inits
    by (cases "stages s t") (simp_all add: advance_def construct_step_def destruct_step_def
        counted_go [OF t(1)] counts_def insert_absorb)
  moreover have "holds_lock (stages (advance t s) u) \<longleftrightarrow> global_mutex (advance t s) = Some u" if u: "u < n" for u
  proof (cases "u = t")
    case True
    have "holds_lock (stages s t) \<longleftrightarrow> global_mutex s = Some t" using s t(1) by (simp add: process_ok_def)
    then show ?thesis
      by (cases "stages s t") (simp_all add: True advance_def construct_step_def destruct_step_def holds_lock_def)
  next
    case False
    have lock: "holds_lock (stages s t) \<Longrightarrow> global_mutex s = Some t" using s t(1) by (simp add: process_ok_def)
    have "stages (advance t s) u = stages s u"
      using False by (cases "stages s t") (simp_all add: advance_def construct_step_def destruct_step_def)
    moreover have "global_mutex (advance t s) = Some u \<longleftrightarrow> global_mutex s = Some u"
      using False lock t(2) by (cases "stages s t")
        (auto simp: advance_def construct_step_def destruct_step_def holds_lock_def blocked_def)
    ultimately show ?thesis using s u by (simp add: process_ok_def)
  qed
  moreover have "\<forall>u. global_mutex (advance t s) = Some u \<longrightarrow> u < n"
    using s t by (cases "stages s t") (auto simp: advance_def construct_step_def destruct_step_def process_ok_def)
  ultimately show ?thesis unfolding process_ok_def by blast
qed

lemma new_process_ok: "process_ok n new_process"
  by (simp add: process_ok_def new_process_def holds_lock_def counted_threads_def counts_def)

lemma reachable_process: "runs (process_step n) s ts s' \<Longrightarrow> process_ok n s \<Longrightarrow> process_ok n s'"
  by (induction rule: runs.induct) (auto simp: process_step_iff advance_ok)

text \<open>A schedule names the thread that goes next; it must not be waiting for the lock.\<close>

fun schedulable :: "nat \<Rightarrow> nat list \<Rightarrow> process \<Rightarrow> bool" where
  "schedulable n [] s \<longleftrightarrow> True"
| "schedulable n (t # ts) s \<longleftrightarrow> t < n \<and> \<not> blocked t s \<and> schedulable n ts (advance t s)"

lemma schedule_runs: "schedulable n ts s \<Longrightarrow> runs (process_step n) s ts (fold advance ts s)"
  by (induction ts arbitrary: s) (auto simp: process_step_iff intro: runs.intros)

section \<open>Property\<close>

text \<open>
  C28: However threads with clients of their own interleave, at most one of them is inside
  \<open>curl_global_init\<close> or \<open>curl_global_cleanup\<close>, libcurl's count is the number of clients it has been
  set up for, so that it is set up while any client lives, and the lock never deadlocks: as
  long as some thread has not finished with its client, some such thread can go on.
\<close>

theorem global_setup_guarded:
  assumes "runs (process_step n) new_process ts s"
  shows "(t < n \<and> u < n \<and> stages s t \<in> {Setting_up, Cleaning_up} \<and> stages s u \<in> {Setting_up, Cleaning_up} \<longrightarrow> t = u) \<and>
    inits s = card {t. t < n \<and> stages s t \<in> {Set_up, Living, Wants_cleanup, Cleaning_up}} \<and>
    (t < n \<and> stages s t = Living \<longrightarrow> 0 < inits s) \<and>
    (t < n \<and> stages s t \<noteq> Outside \<longrightarrow> (\<exists>v<n. stages s v \<noteq> Outside \<and> process_step n s v (advance v s)))"
proof -
  have ok: "process_ok n s" by (rule reachable_process [OF assms new_process_ok])
  then have one: "global_mutex s = Some v" if "v < n" "holds_lock (stages s v)" for v
    using that by (simp add: process_ok_def)
  have "t = u" if "t < n" "u < n" "stages s t \<in> {Setting_up, Cleaning_up}" "stages s u \<in> {Setting_up, Cleaning_up}"
    using one [of t] one [of u] that by (auto simp: holds_lock_def)
  moreover have inits: "inits s = card (counted_threads n (stages s))" using ok by (simp add: process_ok_def)
  moreover have "0 < inits s" if "t < n" "stages s t = Living"
    using that in_counted [of t n "stages s"] by (auto simp: inits counts_def card_gt_0_iff)
  moreover have "\<exists>v<n. stages s v \<noteq> Outside \<and> process_step n s v (advance v s)" if t: "t < n" "stages s t \<noteq> Outside"
  proof (cases "blocked t s")
    case True
    then obtain v where v: "global_mutex s = Some v" by (auto simp: blocked_def)
    with ok have "v < n" "holds_lock (stages s v)" by (auto simp: process_ok_def)
    then show ?thesis by (intro exI [of _ v]) (auto simp: process_step_iff holds_lock_def blocked_def)
  qed (use t in \<open>auto simp: process_step_iff\<close>)
  ultimately show ?thesis by (simp add: counted_threads_def counts_def)
qed

text \<open>Two threads: the second waits while the first is setting up.\<close>

definition sample_process :: process where
  "sample_process = fold advance [0, 0, 1, 0, 0, 1] new_process"

theorem global_setup_guarded_witness:
  "stages sample_process 0 = Living \<and> stages sample_process 1 = Setting_up \<and> inits sample_process = 1 \<and>
   card {t. t < 2 \<and> stages sample_process t \<in> {Set_up, Living, Wants_cleanup, Cleaning_up}} = 1"
proof -
  have "schedulable 2 [0, 0, 1, 0, 0, 1] new_process"
    by (simp add: blocked_def advance_def construct_step_def new_process_def)
  from schedule_runs [OF this] have "runs (process_step 2) new_process [0, 0, 1, 0, 0, 1] sample_process"
    by (simp only: sample_process_def)
  from global_setup_guarded [OF this, of 0 0]
  have "inits sample_process = card {t. t < 2 \<and> stages sample_process t \<in> {Set_up, Living, Wants_cleanup, Cleaning_up}}"
    by blast
  moreover have "stages sample_process 0 = Living" "stages sample_process 1 = Setting_up" "inits sample_process = 1"
    by (simp_all add: sample_process_def advance_def construct_step_def new_process_def)
  ultimately show ?thesis by simp
qed

end
