(* ===== verification/Requests.thy ===== *)
theory Requests
  imports Prelude
begin

text \<open>
  \<open>cofetch::Request\<close>, \<open>Client::RequestBuilder\<close> and the entry points that reduce to
  \<open>async_perform\<close> (\<open>include/cofetch.h\<close>). A setter returns the updated value, as
  \<open>return *this\<close> lets a chain continue. A verb of the builder yields the request it hands to
  \<open>async_perform\<close>.

  The escape hatch \<open>curl(fn)\<close> takes a \<open>std::function<void(CURL*)>\<close>: here the
  \<open>curl_easy_setopt\<close> calls that the function makes, or \<open>None\<close> for an empty function.
\<close>

section \<open>What an option call passes\<close>

datatype curl_option =
    CURLOPT_URL | CURLOPT_WRITEDATA | CURLOPT_HEADERDATA | CURLOPT_PRIVATE
  | CURLOPT_TIMEOUT_MS | CURLOPT_FOLLOWLOCATION | CURLOPT_MAXREDIRS | CURLOPT_HTTPHEADER
  | CURLOPT_CUSTOMREQUEST | CURLOPT_POSTFIELDS | CURLOPT_POSTFIELDSIZE | CURLOPT_HTTPGET
  | CURLOPT_POST | CURLOPT_WRITEFUNCTION | CURLOPT_HEADERFUNCTION | CURLOPT_NOSIGNAL
  | CURLOPT_MAXLIFETIME_CONN | CURLOPT_ACCEPT_ENCODING | CURLOPT_PIPEWAIT
  | CURLOPT_BUFFERSIZE | CURLOPT_OPENSOCKETFUNCTION | CURLOPT_OPENSOCKETDATA
  | CURLOPT_CLOSESOCKETFUNCTION | CURLOPT_CLOSESOCKETDATA | CURLOPT_TIMEOUT
  | CURLOPT_OTHER nat

datatype callback = Body_write_cb | Header_cb | Open_socket_cb | Close_socket_cb | Write_fn

text \<open>
  Pointers are values of their own: to a transfer, to a transfer's header buffer or body, to
  the client, to an allocated header list. \<open>Foreign\<close> is whatever else a hook passes. The last
  two are the pointers of the epoll client (\<open>bench/baseline/http_epoll.h\<close>).
\<close>

datatype opt_value =
    Long int | Str string | Null | Slist "string list" | Transfer_ptr addr
  | Header_buffer_ptr addr | Body_ptr addr | Client_ptr | Fn callback | Foreign nat
  | Info_ptr addr | Buffer_ptr addr

type_synonym setopt = "curl_option \<times> opt_value"

section \<open>The request value\<close>

datatype http_method = GET | POST | PUT | PATCH | DEL

instantiation http_method :: enum
begin

definition enum_http_method :: "http_method list" where
  "enum_http_method = [GET, POST, PUT, PATCH, DEL]"

definition enum_all_http_method :: "(http_method \<Rightarrow> bool) \<Rightarrow> bool" where
  "enum_all_http_method P \<longleftrightarrow> P GET \<and> P POST \<and> P PUT \<and> P PATCH \<and> P DEL"

definition enum_ex_http_method :: "(http_method \<Rightarrow> bool) \<Rightarrow> bool" where
  "enum_ex_http_method P \<longleftrightarrow> P GET \<or> P POST \<or> P PUT \<or> P PATCH \<or> P DEL"

instance
proof
  show univ: "(UNIV :: http_method set) = set enum_class.enum"
    unfolding enum_http_method_def using http_method.exhaust by auto
  show "distinct (enum_class.enum :: http_method list)"
    by (simp add: enum_http_method_def)
  show "enum_class.enum_all P \<longleftrightarrow> Ball UNIV P" for P :: "http_method \<Rightarrow> bool"
    unfolding enum_all_http_method_def univ enum_http_method_def by simp
  show "enum_class.enum_ex P \<longleftrightarrow> Bex UNIV P" for P :: "http_method \<Rightarrow> bool"
    unfolding enum_ex_http_method_def univ enum_http_method_def by simp
qed

end

record request =
  r_url :: string
  r_method :: http_method
  r_headers :: "string list"
  r_body :: string
  r_timeout :: int
  r_max_redirects :: int
  r_curl_setup :: "setopt list option"

definition Request :: "string \<Rightarrow> request" where
  "Request url = \<lparr>r_url = url, r_method = GET, r_headers = [], r_body = [],
     r_timeout = 5 * 1000, r_max_redirects = 0, r_curl_setup = None\<rparr>"

definition set_method :: "http_method \<Rightarrow> request \<Rightarrow> request" where
  "set_method m r = r\<lparr>r_method := m\<rparr>"

definition set_headers :: "string list \<Rightarrow> request \<Rightarrow> request" where
  "set_headers h r = r\<lparr>r_headers := h\<rparr>"

definition set_request_body :: "string \<Rightarrow> request \<Rightarrow> request" where
  "set_request_body b r = r\<lparr>r_body := b\<rparr>"

definition set_timeout :: "int \<Rightarrow> request \<Rightarrow> request" where
  "set_timeout t r = r\<lparr>r_timeout := t\<rparr>"

definition follow_redirects :: "int \<Rightarrow> request \<Rightarrow> request" where
  "follow_redirects max_hops r = r\<lparr>r_max_redirects := max_hops\<rparr>"

definition follow_redirects_default :: "request \<Rightarrow> request" where
  "follow_redirects_default = follow_redirects 30"

definition set_curl :: "setopt list option \<Rightarrow> request \<Rightarrow> request" where
  "set_curl fn r = r\<lparr>r_curl_setup := fn\<rparr>"

section \<open>Entry points\<close>

text \<open>\<open>async_get\<close> and \<open>async_post\<close>: the request they pass to \<open>async_perform\<close>.\<close>

definition async_get :: "string \<Rightarrow> request" where
  "async_get url = Request url"

definition async_post :: "string \<Rightarrow> string \<Rightarrow> request" where
  "async_post url b = set_request_body b (set_method POST (Request url))"

text \<open>The builder holds the client and a request; its setters forward to the request's.\<close>

datatype builder = Builder (b_req: request)

definition request_builder :: "string \<Rightarrow> builder" where
  "request_builder url = Builder (Request url)"

fun builder_headers :: "string list \<Rightarrow> builder \<Rightarrow> builder" where
  "builder_headers h (Builder r) = Builder (set_headers h r)"

fun builder_body :: "string \<Rightarrow> builder \<Rightarrow> builder" where
  "builder_body b (Builder r) = Builder (set_request_body b r)"

fun builder_timeout :: "int \<Rightarrow> builder \<Rightarrow> builder" where
  "builder_timeout t (Builder r) = Builder (set_timeout t r)"

fun builder_follow_redirects :: "int \<Rightarrow> builder \<Rightarrow> builder" where
  "builder_follow_redirects n (Builder r) = Builder (follow_redirects n r)"

fun builder_curl :: "setopt list option \<Rightarrow> builder \<Rightarrow> builder" where
  "builder_curl fn (Builder r) = Builder (set_curl fn r)"

fun builder_perform :: "http_method \<Rightarrow> builder \<Rightarrow> request" where
  "builder_perform m (Builder r) = set_method m r"

definition builder_get :: "builder \<Rightarrow> request" where
  "builder_get = builder_perform GET"

definition builder_post :: "builder \<Rightarrow> request" where
  "builder_post = builder_perform POST"

definition builder_put :: "builder \<Rightarrow> request" where
  "builder_put = builder_perform PUT"

definition builder_patch :: "builder \<Rightarrow> request" where
  "builder_patch = builder_perform PATCH"

definition builder_del :: "builder \<Rightarrow> request" where
  "builder_del = builder_perform DEL"

lemmas request_setters = set_method_def set_headers_def set_request_body_def set_timeout_def
  follow_redirects_def follow_redirects_default_def set_curl_def

lemmas request_entry_points = async_get_def async_post_def request_builder_def Request_def
  builder_get_def builder_post_def builder_put_def builder_patch_def builder_del_def

end
