(* ===== verification/Easy_Options.thy ===== *)
theory Easy_Options
  imports Requests
begin

text \<open>
  What the client sets on an easy handle, call by call: \<open>configure_handle\<close>, \<open>set_body\<close> and the
  option part of \<open>start\<close> (\<open>include/cofetch.h\<close>). A handle is seen through the log of
  \<open>curl_easy_setopt\<close> calls made on it since \<open>curl_easy_init\<close> or \<open>curl_easy_reset\<close>; the log
  is what the client did, not how libcurl stores it.

  The locale \<open>easy_handle\<close> states the part of libcurl's documented behaviour the pooling
  relies on: the last value set for an option counts, setting one option leaves the others,
  and \<open>HTTPGET\<close>, \<open>POST\<close>, \<open>POSTFIELDS\<close> choose the kind of request. Reading the log backwards
  (\<open>last_set\<close>, \<open>request_kind\<close>) satisfies it.
\<close>

section \<open>The calls\<close>

text \<open>A \<open>c_str()\<close> is read up to its first NUL.\<close>

definition c_str :: "string \<Rightarrow> string" where
  "c_str s = takeWhile (\<lambda>c. c \<noteq> CHR 0x00) s"

text \<open>\<open>configure_handle\<close>; \<open>version\<close> is \<open>LIBCURL_VERSION_NUM\<close>.\<close>

definition configure_handle :: "nat \<Rightarrow> setopt list" where
  "configure_handle version =
     [(CURLOPT_WRITEFUNCTION, Fn Body_write_cb),
      (CURLOPT_HEADERFUNCTION, Fn Header_cb),
      (CURLOPT_NOSIGNAL, Long 1)] @
     (if version \<ge> 0x075000 then [(CURLOPT_MAXLIFETIME_CONN, Long 30)] else []) @
     [(CURLOPT_ACCEPT_ENCODING, Str []),
      (CURLOPT_PIPEWAIT, Long 1),
      (CURLOPT_BUFFERSIZE, Long (512 * 1024)),
      (CURLOPT_OPENSOCKETFUNCTION, Fn Open_socket_cb),
      (CURLOPT_OPENSOCKETDATA, Client_ptr),
      (CURLOPT_CLOSESOCKETFUNCTION, Fn Close_socket_cb),
      (CURLOPT_CLOSESOCKETDATA, Client_ptr)]"

definition set_body :: "addr \<Rightarrow> string \<Rightarrow> setopt list" where
  "set_body t b =
     [(CURLOPT_POSTFIELDSIZE, Long (int (length b))), (CURLOPT_POSTFIELDS, Body_ptr t)]"

fun method_opts :: "http_method \<Rightarrow> addr \<Rightarrow> string \<Rightarrow> setopt list" where
  "method_opts GET t b =
     [(CURLOPT_CUSTOMREQUEST, Null), (CURLOPT_POSTFIELDS, Null), (CURLOPT_HTTPGET, Long 1)]"
| "method_opts POST t b =
     [(CURLOPT_CUSTOMREQUEST, Null), (CURLOPT_POST, Long 1)] @ set_body t b"
| "method_opts PUT t b =
     [(CURLOPT_CUSTOMREQUEST, Str ''PUT''), (CURLOPT_POST, Long 1)] @ set_body t b"
| "method_opts PATCH t b =
     [(CURLOPT_CUSTOMREQUEST, Str ''PATCH''), (CURLOPT_POST, Long 1)] @ set_body t b"
| "method_opts DEL t b =
     [(CURLOPT_CUSTOMREQUEST, Str ''DELETE''), (CURLOPT_POST, Long 1)] @ set_body t b"

text \<open>
  The header list: \<open>curl_slist_append\<close> is the parameter \<open>slist_append\<close>, and the empty list is the
  null pointer.
\<close>

definition build_slist :: "(string list \<Rightarrow> string \<Rightarrow> string list) \<Rightarrow> request \<Rightarrow> string list" where
  "build_slist slist_append r = foldl (\<lambda>chunk h. slist_append chunk (c_str h)) [] (r_headers r)"

definition start_opts :: "addr \<Rightarrow> request \<Rightarrow> string list \<Rightarrow> setopt list" where
  "start_opts t r chunk =
     [(CURLOPT_URL, Str (c_str (r_url r))),
      (CURLOPT_WRITEDATA, Transfer_ptr t),
      (CURLOPT_HEADERDATA, Header_buffer_ptr t),
      (CURLOPT_PRIVATE, Transfer_ptr t),
      (CURLOPT_TIMEOUT_MS, Long (r_timeout r)),
      (CURLOPT_FOLLOWLOCATION, Long (if r_max_redirects r \<noteq> 0 then 1 else 0)),
      (CURLOPT_MAXREDIRS, Long (r_max_redirects r)),
      (CURLOPT_HTTPHEADER, if chunk = [] then Null else Slist chunk)] @
     method_opts (r_method r) t (r_body r)"

definition hook_opts :: "request \<Rightarrow> setopt list" where
  "hook_opts r = (case r_curl_setup r of None \<Rightarrow> [] | Some calls \<Rightarrow> calls)"

section \<open>Reading a log\<close>

datatype request_kind = Get_request | Post_request

definition last_set :: "setopt list \<Rightarrow> curl_option \<Rightarrow> opt_value option" where
  "last_set log opt = map_of (rev log) opt"

fun kind_after :: "setopt \<Rightarrow> request_kind \<Rightarrow> request_kind" where
  "kind_after (opt, v) k =
     (if opt = CURLOPT_HTTPGET then Get_request
      else if opt = CURLOPT_POST \<or> opt = CURLOPT_POSTFIELDS then Post_request
      else k)"

definition request_kind :: "setopt list \<Rightarrow> request_kind" where
  "request_kind log = fold kind_after log Get_request"

text \<open>The method on the wire: a custom request string replaces the kind's own verb.\<close>

definition wire_verb :: "setopt list \<Rightarrow> string" where
  "wire_verb log =
     (case last_set log CURLOPT_CUSTOMREQUEST of
        Some (Str s) \<Rightarrow> s
      | _ \<Rightarrow> (case request_kind log of Get_request \<Rightarrow> ''GET'' | Post_request \<Rightarrow> ''POST''))"

fun verb_name :: "http_method \<Rightarrow> string" where
  "verb_name GET = ''GET''"
| "verb_name POST = ''POST''"
| "verb_name PUT = ''PUT''"
| "verb_name PATCH = ''PATCH''"
| "verb_name DEL = ''DELETE''"

section \<open>The part of libcurl's contract pooling rests on\<close>

locale easy_handle =
  fixes setopt :: "'c \<Rightarrow> setopt \<Rightarrow> 'c"
    and value_of :: "'c \<Rightarrow> curl_option \<Rightarrow> opt_value option"
    and kind_of :: "'c \<Rightarrow> request_kind"
  assumes value_same: "value_of (setopt c (opt, v)) opt = Some v"
    and value_other: "opt \<noteq> opt' \<Longrightarrow> value_of (setopt c (opt, v)) opt' = value_of c opt'"
    and kind_set: "kind_of (setopt c call) = kind_after call (kind_of c)"
begin

lemma value_setopts:
  "value_of (foldl setopt c calls) opt =
     (case map_of (rev calls) opt of None \<Rightarrow> value_of c opt | Some v \<Rightarrow> Some v)"
proof (induction calls arbitrary: c)
  case Nil
  then show ?case by simp
next
  case (Cons call calls)
  obtain o' v where "call = (o', v)" by force
  with Cons show ?case
    by (cases "o' = opt") (auto simp: value_same value_other map_add_def split: option.split)
qed

lemma kind_setopts: "kind_of (foldl setopt c calls) = fold kind_after calls (kind_of c)"
  by (induction calls arbitrary: c) (simp_all add: kind_set)

text \<open>
  Recycling: calls that set every option some earlier batch touched, and a member of the
  group that chooses the kind, give the same handle whatever the earlier batch was.
\<close>

lemma recycled_value:
  assumes "opt \<in> fst ` set calls \<or> opt \<notin> fst ` set earlier"
  shows "value_of (foldl setopt (foldl setopt c earlier) calls) opt
       = value_of (foldl setopt c calls) opt"
proof (cases "opt \<in> fst ` set calls")
  case True
  then have "map_of (rev calls) opt \<noteq> None"
    by (simp add: map_of_eq_None_iff)
  then show ?thesis by (auto simp: value_setopts)
next
  case False
  with assms have "map_of (rev earlier) opt = None"
    by (simp add: map_of_eq_None_iff)
  then show ?thesis by (simp add: value_setopts split: option.split)
qed

lemma recycled_kind:
  assumes "\<exists>opt \<in> fst ` set calls. opt \<in> {CURLOPT_HTTPGET, CURLOPT_POST, CURLOPT_POSTFIELDS}"
  shows "kind_of (foldl setopt (foldl setopt c earlier) calls) = kind_of (foldl setopt c calls)"
proof -
  have "fold kind_after calls k = fold kind_after calls k'" for k k'
    using assms by (induction calls arbitrary: k k') (auto split: if_splits)
  then show ?thesis by (simp add: kind_setopts)
qed

end

lemma last_set_append:
  "last_set (log @ calls) opt = (case last_set calls opt of None \<Rightarrow> last_set log opt | Some v \<Rightarrow> Some v)"
  by (simp add: last_set_def map_add_def split: option.split)

lemma last_set_Cons:
  "last_set (call # calls) opt =
     (case last_set calls opt of None \<Rightarrow> if fst call = opt then Some (snd call) else None | Some v \<Rightarrow> Some v)"
  by (cases call) (auto simp: last_set_def map_add_def split: option.split)

lemma last_set_Nil [simp]: "last_set [] opt = None"
  by (simp add: last_set_def)

lemma last_set_None: "last_set log opt = None \<longleftrightarrow> opt \<notin> fst ` set log"
  by (simp add: last_set_def map_of_eq_None_iff)

lemma last_set_in: "last_set log opt = Some v \<Longrightarrow> (opt, v) \<in> set log"
  by (auto simp: last_set_def dest: map_of_SomeD)

interpretation log: easy_handle "\<lambda>log call. log @ [call]" last_set request_kind
  by unfold_locales (simp_all add: last_set_append last_set_Cons request_kind_def)

lemma foldl_log: "foldl (\<lambda>log call. log @ [call]) log calls = log @ calls"
  by (induction calls arbitrary: log) simp_all

section \<open>Logs of pooled handles\<close>

text \<open>
  Every option that some \<open>start\<close> sets, whatever the method. A handle that never ran a hook
  has a log of the shape \<open>plain_log\<close>: configured once, then only such options.
\<close>

definition start_options :: "curl_option set" where
  "start_options =
     {CURLOPT_URL, CURLOPT_WRITEDATA, CURLOPT_HEADERDATA, CURLOPT_PRIVATE, CURLOPT_TIMEOUT_MS,
      CURLOPT_FOLLOWLOCATION, CURLOPT_MAXREDIRS, CURLOPT_HTTPHEADER, CURLOPT_CUSTOMREQUEST,
      CURLOPT_POSTFIELDS, CURLOPT_POSTFIELDSIZE, CURLOPT_HTTPGET, CURLOPT_POST}"

definition plain_log :: "nat \<Rightarrow> setopt list \<Rightarrow> bool" where
  "plain_log version log \<longleftrightarrow>
     (\<exists>earlier. log = configure_handle version @ earlier \<and> fst ` set earlier \<subseteq> start_options)"

lemma start_opts_names:
  "fst ` set (start_opts t r chunk) = start_options -
     (if r_method r = GET then {CURLOPT_POST, CURLOPT_POSTFIELDSIZE} else {CURLOPT_HTTPGET})"
  by (cases "r_method r") (auto simp: start_opts_def start_options_def set_body_def)

lemma configure_disjoint: "opt \<in> start_options \<Longrightarrow> opt \<notin> fst ` set (configure_handle version)"
  by (auto simp: start_options_def configure_handle_def)

lemma plain_log_configure [intro]: "plain_log version (configure_handle version)"
  by (auto simp: plain_log_def)

lemma plain_log_start: "plain_log version log \<Longrightarrow> plain_log version (log @ start_opts t r chunk)"
  unfolding plain_log_def using start_opts_names [of t r chunk] by (fastforce simp: image_Un)

lemma plain_log_last_set:
  assumes "plain_log version log" "opt \<notin> start_options"
  shows "last_set log opt = last_set (configure_handle version) opt"
proof -
  from assms obtain earlier where "log = configure_handle version @ earlier"
    "last_set earlier opt = None"
    by (auto simp: plain_log_def last_set_None)
  then show ?thesis by (simp add: last_set_append)
qed

lemma start_opts_pointers:
  "last_set (start_opts t r chunk) CURLOPT_PRIVATE = Some (Transfer_ptr t)"
  "last_set (start_opts t r chunk) CURLOPT_WRITEDATA = Some (Transfer_ptr t)"
  "last_set (start_opts t r chunk) CURLOPT_HEADERDATA = Some (Header_buffer_ptr t)"
  by (cases "r_method r"; simp add: start_opts_def last_set_Cons last_set_append set_body_def)+

lemma configure_callbacks:
  "last_set (configure_handle version) CURLOPT_WRITEFUNCTION = Some (Fn Body_write_cb)"
  "last_set (configure_handle version) CURLOPT_HEADERFUNCTION = Some (Fn Header_cb)"
  by (simp_all add: configure_handle_def last_set_append last_set_Cons)

lemma start_opts_kind:
  "fold kind_after (start_opts t r chunk) k =
     (if r_method r = GET then Get_request else Post_request)"
  by (cases "r_method r") (simp_all add: start_opts_def set_body_def)

lemma request_kind_append: "request_kind (log @ calls) = fold kind_after calls (request_kind log)"
  by (simp add: request_kind_def)

lemma recycled_last_set:
  assumes "plain_log version log" "opt \<noteq> CURLOPT_HTTPGET" "opt \<noteq> CURLOPT_POST"
    and "r_method r = GET \<Longrightarrow> opt \<noteq> CURLOPT_POSTFIELDSIZE"
  shows "last_set (log @ start_opts t r chunk @ hook) opt
       = last_set (configure_handle version @ start_opts t r chunk @ hook) opt"
proof -
  from assms(1) obtain earlier where log: "log = configure_handle version @ earlier"
    and "fst ` set earlier \<subseteq> start_options"
    by (auto simp: plain_log_def)
  with assms(2-4) have "opt \<in> fst ` set (start_opts t r chunk @ hook) \<or> opt \<notin> fst ` set earlier"
    unfolding set_append image_Un start_opts_names by (auto split: if_splits)
  from log.recycled_value [OF this, of "configure_handle version"] show ?thesis
    by (simp add: foldl_log log)
qed

lemma recycled_request_kind:
  "request_kind (log @ start_opts t r chunk @ hook) =
     request_kind (configure_handle version @ start_opts t r chunk @ hook)"
  by (simp add: request_kind_append start_opts_kind)

lemma last_set_custom:
  "last_set (log @ start_opts t r chunk) CURLOPT_CUSTOMREQUEST =
     Some (case r_method r of GET \<Rightarrow> Null | POST \<Rightarrow> Null | m \<Rightarrow> Str (verb_name m))"
  by (cases "r_method r") (simp_all add: start_opts_def last_set_Cons last_set_append set_body_def)

end
