(* ===== verification/Transfers.thy ===== *)
theory Transfers
  imports Response_Model Easy_Options
begin

text \<open>
  The transfer engine of \<open>cofetch::Client\<close> (\<open>include/cofetch.h\<close>): the \<open>Transfer\<close> nodes, the
  lists \<open>transfers_\<close> and \<open>idle_\<close>, and \<open>start\<close>, \<open>fail\<close>, \<open>cancel\<close>, \<open>retire\<close>, the two data
  callbacks and the body of the \<open>check_completions\<close> loop.

  List nodes are objects at addresses (\<open>nodes\<close>), and the two lists hold addresses, so that
  splicing moves an address, erasing leaves a dangling one, and the pointers the code gives to
  libcurl (\<open>WRITEDATA\<close>, \<open>HEADERDATA\<close>, \<open>PRIVATE\<close>) are followed through the option log of the
  handle. Following an address with no node is \<open>Undefined\<close>.

  What other code sees of the client is part of the state: the option log of each handle
  (\<open>opts\<close>), the handles given to the multi (\<open>in_multi\<close>), those not yet cleaned up
  (\<open>open_handles\<close>) and the calls of \<open>curl_easy_cleanup\<close> (\<open>cleaned\<close>), the cancellation slots, the completions posted to the \<open>io_context\<close> and
  those whose handler has been called.
\<close>

section \<open>State\<close>

record completion_handler =
  hid :: nat
  cancel_slot :: "slot_ref option"

record transfer =
  eh :: handle
  slist :: "string list"
  body :: string
  buffer :: string
  header_buffer :: string
  handler :: "completion_handler option"
  self :: addr
  tid :: transfer_id
  scrub_on_done :: bool

type_synonym completion = "completion_handler \<times> error_code \<times> response"

record engine =
  nodes :: "addr \<Rightarrow> transfer option"
  transfers :: "addr list"
  idle :: "addr list"
  max_pooled_handles :: nat
  running :: int
  next_transfer_id :: transfer_id
  libcurl_version :: nat
  opts :: "handle \<Rightarrow> setopt list"
  in_multi :: "handle list"
  open_handles :: "handle list"
  cleaned :: "handle list"
  slots :: "slot_ref \<Rightarrow> transfer_id option"
  posted :: "completion list"
  invoked :: "completion list"

definition kDefaultMaxPooledHandles :: nat where
  "kDefaultMaxPooledHandles = 64"

text \<open>\<open>Transfer(CURL* e)\<close>; \<open>self\<close> is a singular iterator until \<open>start\<close> sets it.\<close>

definition new_transfer :: "handle \<Rightarrow> transfer" where
  "new_transfer e = \<lparr>eh = e, slist = [], body = [], buffer = [], header_buffer = [],
     handler = None, self = 0, tid = 0, scrub_on_done = False\<rparr>"

text \<open>The engine as the constructor leaves it.\<close>

definition new_engine :: "nat \<Rightarrow> nat \<Rightarrow> engine" where
  "new_engine version max_pooled = \<lparr>nodes = (\<lambda>_. None), transfers = [], idle = [],
     max_pooled_handles = max_pooled, running = 0, next_transfer_id = 0,
     libcurl_version = version, opts = (\<lambda>_. []), in_multi = [], open_handles = [], cleaned = [],
     slots = (\<lambda>_. None), posted = [], invoked = []\<rparr>"

text \<open>
  The answers of other code during one \<open>start\<close>: \<open>curl_easy_init\<close> (\<open>None\<close> is the null
  pointer), the address of the node the list allocates, \<open>curl_slist_append\<close>, and the result of
  \<open>curl_multi_add_handle\<close>.
\<close>

record start_answers =
  easy_init :: "handle option"
  node_at :: addr
  slist_append :: "string list \<Rightarrow> string \<Rightarrow> string list"
  add_handle :: curlmcode

section \<open>Operations\<close>

abbreviation put_node :: "addr \<Rightarrow> transfer \<Rightarrow> engine \<Rightarrow> engine" where
  "put_node a t e \<equiv> e\<lparr>nodes := (nodes e)(a := Some t)\<rparr>"

definition error_response :: "curlcode \<Rightarrow> response" where
  "error_response code = \<lparr>curl_code = code, http_code = 0, data = [], header_data = []\<rparr>"

definition fail :: "completion_handler \<Rightarrow> curlcode \<Rightarrow> engine \<Rightarrow> engine" where
  "fail h code e =
     e\<lparr>posted := posted e @ [(h, make_error_code code, error_response code)]\<rparr>"

text \<open>Cleaning up a handle that does not exist, or no longer, is undefined.\<close>

definition curl_easy_cleanup :: "handle \<Rightarrow> engine \<Rightarrow> engine outcome" where
  "curl_easy_cleanup h e = (if h \<in> set (open_handles e)
     then Inr (e\<lparr>open_handles := remove1 h (open_handles e), cleaned := cleaned e @ [h]\<rparr>)
     else Inl Undefined)"

text \<open>
  \<open>retire(t, scrub)\<close>: the node is reached by reference; list positions are taken from its own
  \<open>self\<close> iterator, which has to be one of \<open>transfers_\<close>.
\<close>

definition retired_node :: "transfer \<Rightarrow> transfer" where
  "retired_node t = t\<lparr>slist := [], tid := 0, scrub_on_done := False, buffer := [],
     header_buffer := [], body := []\<rparr>"

definition retire :: "addr \<Rightarrow> bool \<Rightarrow> engine \<Rightarrow> engine outcome" where
  "retire a scrub e = and_then (deref (nodes e) a) (\<lambda>t.
     let t = retired_node t;
         e = put_node a t e;
         e = (if scrub
              then e\<lparr>opts := (opts e)(eh t := configure_handle (libcurl_version e))\<rparr>
              else e)
     in if self t \<notin> set (transfers e) then Inl Undefined
        else if length (idle e) < max_pooled_handles e
        then Inr (e\<lparr>idle := self t # idle e, transfers := remove1 (self t) (transfers e)\<rparr>)
        else and_then (curl_easy_cleanup (eh t) e) (\<lambda>e.
          Inr (e\<lparr>transfers := remove1 (self t) (transfers e), nodes := (nodes e)(self t := None)\<rparr>)))"

text \<open>The first part of \<open>start\<close>: a warm node, or a new one. \<open>None\<close> when there is no handle.\<close>

definition acquire :: "start_answers \<Rightarrow> engine \<Rightarrow> engine option" where
  "acquire ans e =
     (case idle e of
        [] \<Rightarrow> (case easy_init ans of
            None \<Rightarrow> None
          | Some h \<Rightarrow> Some (put_node (node_at ans) (new_transfer h)
              (e\<lparr>opts := (opts e)(h := configure_handle (libcurl_version e)),
                 open_handles := h # open_handles e,
                 transfers := node_at ans # transfers e\<rparr>)))
      | a # rest \<Rightarrow> Some (e\<lparr>idle := rest, transfers := a # transfers e\<rparr>))"

text \<open>From the node at the front of \<open>transfers_\<close> to the assignment of the slot.\<close>

definition prepare ::
    "start_answers \<Rightarrow> request \<Rightarrow> completion_handler \<Rightarrow> addr \<Rightarrow> transfer \<Rightarrow> engine \<Rightarrow> engine" where
  "prepare ans r h a t e =
     (let i = next_transfer_id e + 1;
          chunk = build_slist (slist_append ans) r;
          t = t\<lparr>self := a, handler := Some h, body := r_body r, tid := i, slist := chunk,
                scrub_on_done := (if r_curl_setup r \<noteq> None then True else scrub_on_done t)\<rparr>;
          e = put_node a t (e\<lparr>next_transfer_id := i,
                opts := (opts e)(eh t := opts e (eh t) @ start_opts a r chunk @ hook_opts r)\<rparr>)
      in (case cancel_slot h of
            None \<Rightarrow> e
          | Some s \<Rightarrow> e\<lparr>slots := (slots e)(s := Some i)\<rparr>))"

definition take_handler :: "addr \<Rightarrow> engine \<Rightarrow> (completion_handler \<times> engine) outcome" where
  "take_handler a e = and_then (deref (nodes e) a) (\<lambda>t.
     case handler t of
       None \<Rightarrow> Inl Undefined
     | Some h \<Rightarrow> Inr (h, put_node a (t\<lparr>handler := None\<rparr>) e))"

definition start ::
    "start_answers \<Rightarrow> request \<Rightarrow> completion_handler \<Rightarrow> engine \<Rightarrow> engine outcome" where
  "start ans r h e =
     (case acquire ans e of
        None \<Rightarrow> Inr (fail h CURLE_FAILED_INIT e)
      | Some e \<Rightarrow>
          (case transfers e of
             [] \<Rightarrow> Inl Undefined
           | a # _ \<Rightarrow> and_then (deref (nodes e) a) (\<lambda>t.
               let e = prepare ans r h a t e
               in if add_handle ans = CURLM_OK
                  then Inr (e\<lparr>in_multi := eh t # in_multi e\<rparr>)
                  else and_then (take_handler a e) (\<lambda>(h', e).
                       and_then (retire a True e) (\<lambda>e.
                         Inr (fail h' (if add_handle ans = CURLM_OUT_OF_MEMORY
                                       then CURLE_OUT_OF_MEMORY else CURLE_FAILED_INIT) e))))))"

fun find_transfer ::
    "(addr \<Rightarrow> transfer option) \<Rightarrow> transfer_id \<Rightarrow> addr list \<Rightarrow> addr option outcome" where
  "find_transfer ns i [] = Inr None"
| "find_transfer ns i (a # as) = and_then (deref ns a) (\<lambda>t.
     if tid t \<noteq> i then find_transfer ns i as else Inr (Some a))"

definition cancel :: "transfer_id \<Rightarrow> engine \<Rightarrow> engine outcome" where
  "cancel i e = and_then (find_transfer (nodes e) i (transfers e)) (\<lambda>found.
     case found of
       None \<Rightarrow> Inr e
     | Some a \<Rightarrow> and_then (deref (nodes e) a) (\<lambda>t.
         let e = e\<lparr>in_multi := remove1 (eh t) (in_multi e),
                   running := (if running e > 0 then running e - 1 else running e)\<rparr>
         in and_then (take_handler a e) (\<lambda>(h, e).
            and_then (retire a True e) (\<lambda>e.
              Inr (e\<lparr>posted := posted e @
                       [(h, Operation_aborted, error_response CURLE_ABORTED_BY_CALLBACK)]\<rparr>)))))"

text \<open>
  Emitting on a slot runs the lambda last assigned to it, which cancels by id. The client's
  liveness check is in \<open>Client_Loop\<close>.
\<close>

definition emit :: "slot_ref \<Rightarrow> engine \<Rightarrow> engine outcome" where
  "emit s e = (case slots e s of None \<Rightarrow> Inr e | Some i \<Rightarrow> cancel i e)"

text \<open>
  The data callbacks, reached through the pointers the handle was given. Both return the byte
  count \<open>n * l\<close>; the \<open>reserve\<close> calls change capacity only.
\<close>

definition header_cb :: "addr \<Rightarrow> string \<Rightarrow> engine \<Rightarrow> (nat \<times> engine) outcome" where
  "header_cb a bytes e = and_then (deref (nodes e) a) (\<lambda>t.
     Inr (length bytes, put_node a (t\<lparr>header_buffer := header_buffer t @ bytes\<rparr>) e))"

definition body_write_cb :: "addr \<Rightarrow> string \<Rightarrow> engine \<Rightarrow> (nat \<times> engine) outcome" where
  "body_write_cb a bytes e = and_then (deref (nodes e) a) (\<lambda>t.
     Inr (length bytes, put_node a (t\<lparr>buffer := buffer t @ bytes\<rparr>) e))"

text \<open>
  One message of \<open>curl_multi_info_read\<close>, with what \<open>curl_easy_getinfo\<close> reports for it, and with what
  the two strings of the node hold once \<open>std::move\<close> has taken their contents, which C++ leaves open.
\<close>

record message =
  msg_done :: bool
  easy_handle :: handle
  msg_result :: curlcode
  response_code :: int
  moved_from_buffer :: string
  moved_from_headers :: string

definition private_of :: "handle \<Rightarrow> engine \<Rightarrow> addr outcome" where
  "private_of h e =
     (case last_set (opts e h) CURLOPT_PRIVATE of
        Some (Transfer_ptr a) \<Rightarrow> Inr a
      | _ \<Rightarrow> Inl Undefined)"

text \<open>The body of the \<open>check_completions\<close> loop, up to and including the handler's call.\<close>

definition complete_transfer :: "message \<Rightarrow> engine \<Rightarrow> engine outcome" where
  "complete_transfer m e = and_then (private_of (easy_handle m) e) (\<lambda>a.
     let e = e\<lparr>in_multi := remove1 (easy_handle m) (in_multi e)\<rparr>
     in and_then (deref (nodes e) a) (\<lambda>t.
        let res = \<lparr>curl_code = msg_result m, http_code = response_code m,
                   data = buffer t, header_data = header_buffer t\<rparr>;
            e = put_node a (t\<lparr>buffer := moved_from_buffer m, header_buffer := moved_from_headers m\<rparr>) e
        in and_then (take_handler a e) (\<lambda>(h, e).
           and_then (retire a (scrub_on_done t) e) (\<lambda>e.
             let ec = (if msg_result m = CURLE_OK then No_error else make_error_code (msg_result m))
             in Inr (e\<lparr>invoked := invoked e @ [(h, ec, res)]\<rparr>)))))"

definition completion_step :: "message \<Rightarrow> engine \<Rightarrow> engine outcome" where
  "completion_step m e = (if \<not> msg_done m then Inr e else complete_transfer m e)"

text \<open>The \<open>io_context\<close> runs a posted completion; which one is next is its choice.\<close>

definition run_posted :: "nat \<Rightarrow> engine \<Rightarrow> engine" where
  "run_posted i e =
     (if i < length (posted e)
      then e\<lparr>invoked := invoked e @ [posted e ! i],
             posted := take i (posted e) @ drop (i + 1) (posted e)\<rparr>
      else e)"

text \<open>\<open>pending_requests()\<close>.\<close>

definition pending_requests :: "engine \<Rightarrow> int" where
  "pending_requests e = running e"

end
