(* ===== verification/Transfers_Inv.thy ===== *)
theory Transfers_Inv
  imports Transfers
begin

text \<open>
  The invariant of the transfer engine. \<open>engine_inv_but X\<close> is the invariant of a state in
  which the nodes in \<open>X\<close> are on their way in or out: on \<open>transfers_\<close>, and not (yet, or any
  more) in the multi. Between operations \<open>X\<close> is empty (\<open>engine_inv\<close>). Each part of an
  operation has its own lemma: a node enters, gets ready, is added; or is detached and retired.
\<close>

section \<open>The invariant\<close>

definition eh_at :: "engine \<Rightarrow> addr \<Rightarrow> handle" where
  "eh_at e a = (case nodes e a of None \<Rightarrow> 0 | Some t \<Rightarrow> eh t)"

definition tid_at :: "engine \<Rightarrow> addr \<Rightarrow> transfer_id" where
  "tid_at e a = (case nodes e a of None \<Rightarrow> 0 | Some t \<Rightarrow> tid t)"

text \<open>A node in flight: its handler waits, and the pointers given to libcurl lead back to it.\<close>

definition in_flight :: "engine \<Rightarrow> addr \<Rightarrow> transfer \<Rightarrow> bool" where
  "in_flight e a t \<longleftrightarrow>
     handler t \<noteq> None \<and> self t = a \<and> 0 < tid t \<and> tid t \<le> next_transfer_id e \<and>
     last_set (opts e (eh t)) CURLOPT_PRIVATE = Some (Transfer_ptr a) \<and>
     (last_set (opts e (eh t)) CURLOPT_WRITEFUNCTION = Some (Fn Body_write_cb) \<longrightarrow>
        last_set (opts e (eh t)) CURLOPT_WRITEDATA = Some (Transfer_ptr a)) \<and>
     (last_set (opts e (eh t)) CURLOPT_HEADERFUNCTION = Some (Fn Header_cb) \<longrightarrow>
        last_set (opts e (eh t)) CURLOPT_HEADERDATA = Some (Header_buffer_ptr a)) \<and>
     (scrub_on_done t \<or> plain_log (libcurl_version e) (opts e (eh t)))"

text \<open>A warm node: nothing of the last request is left in it, and no hook touched its handle.\<close>

definition warm :: "engine \<Rightarrow> addr \<Rightarrow> transfer \<Rightarrow> bool" where
  "warm e a t \<longleftrightarrow>
     handler t = None \<and> self t = a \<and> slist t = [] \<and> body t = [] \<and> buffer t = [] \<and>
     header_buffer t = [] \<and> tid t = 0 \<and> \<not> scrub_on_done t \<and>
     plain_log (libcurl_version e) (opts e (eh t))"

definition nodes_ok :: "engine \<Rightarrow> bool" where
  "nodes_ok e \<longleftrightarrow>
     distinct (transfers e @ idle e) \<and>
     dom (nodes e) = set (transfers e) \<union> set (idle e) \<and>
     inj_on (eh_at e) (dom (nodes e)) \<and>
     distinct (open_handles e) \<and> set (open_handles e) = eh_at e ` dom (nodes e) \<and>
     length (idle e) \<le> max_pooled_handles e \<and> 0 \<le> running e"

definition engine_inv_but :: "addr set \<Rightarrow> engine \<Rightarrow> bool" where
  "engine_inv_but X e \<longleftrightarrow>
     nodes_ok e \<and> X \<subseteq> set (transfers e) \<and>
     distinct (in_multi e) \<and> set (in_multi e) = eh_at e ` (set (transfers e) - X) \<and>
     inj_on (tid_at e) (set (transfers e) - X) \<and>
     (\<forall>a t. a \<in> set (transfers e) - X \<longrightarrow> nodes e a = Some t \<longrightarrow> in_flight e a t) \<and>
     (\<forall>a t. a \<in> set (idle e) \<longrightarrow> nodes e a = Some t \<longrightarrow> warm e a t)"

definition engine_inv :: "engine \<Rightarrow> bool" where
  "engine_inv e \<longleftrightarrow> engine_inv_but {} e"

section \<open>Contracts of the code the engine calls\<close>

text \<open>
  The allocator returns memory that is not in use, \<open>curl_easy_init\<close> a handle that is not in
  use, and ids do not run out (2 to the 64 requests).
\<close>

definition start_contract :: "start_answers \<Rightarrow> engine \<Rightarrow> bool" where
  "start_contract ans e \<longleftrightarrow>
     nodes e (node_at ans) = None \<and>
     (case easy_init ans of None \<Rightarrow> True | Some h \<Rightarrow> h \<notin> set (open_handles e)) \<and>
     next_transfer_id e \<noteq> - 1"

text \<open>
  What the caller of \<open>Request::curl\<close> has to keep to: the hook leaves \<open>CURLOPT_PRIVATE\<close> alone,
  cannot name the client's own callbacks (they are private), and replaces a data pointer only
  together with the function that takes it.
\<close>

fun is_callback :: "opt_value \<Rightarrow> bool" where
  "is_callback (Fn f) = True"
| "is_callback _ = False"

definition hook_ok :: "setopt list \<Rightarrow> bool" where
  "hook_ok calls \<longleftrightarrow>
     CURLOPT_PRIVATE \<notin> fst ` set calls \<and>
     (\<forall>call \<in> set calls. \<not> is_callback (snd call)) \<and>
     (CURLOPT_WRITEDATA \<in> fst ` set calls \<longrightarrow> CURLOPT_WRITEFUNCTION \<in> fst ` set calls) \<and>
     (CURLOPT_HEADERDATA \<in> fst ` set calls \<longrightarrow> CURLOPT_HEADERFUNCTION \<in> fst ` set calls)"

text \<open>\<open>curl_multi_info_read\<close> reports handles that are in the multi.\<close>

definition message_contract :: "message \<Rightarrow> engine \<Rightarrow> bool" where
  "message_contract m e \<longleftrightarrow> (msg_done m \<longrightarrow> easy_handle m \<in> set (in_multi e))"

section \<open>Reading the invariant\<close>

lemma eh_at_Some [simp]: "nodes e a = Some t \<Longrightarrow> eh_at e a = eh t"
  by (simp add: eh_at_def)

lemma tid_at_Some [simp]: "nodes e a = Some t \<Longrightarrow> tid_at e a = tid t"
  by (simp add: tid_at_def)

lemma transfers_node:
  "nodes_ok e \<Longrightarrow> a \<in> set (transfers e) \<Longrightarrow> \<exists>t. nodes e a = Some t"
  by (auto simp: nodes_ok_def)

lemma inv_nodes_ok: "engine_inv_but X e \<Longrightarrow> nodes_ok e"
  by (simp add: engine_inv_but_def)

lemma in_flightD:
  "engine_inv_but X e \<Longrightarrow> a \<in> set (transfers e) - X \<Longrightarrow> nodes e a = Some t \<Longrightarrow> in_flight e a t"
  by (simp add: engine_inv_but_def)

lemma warmD: "engine_inv_but X e \<Longrightarrow> a \<in> set (idle e) \<Longrightarrow> nodes e a = Some t \<Longrightarrow> warm e a t"
  by (simp add: engine_inv_but_def)

lemma nodes_okD:
  assumes "nodes_ok e"
  shows nodes_ok_inj: "inj_on (eh_at e) (dom (nodes e))"
    and nodes_ok_handles: "set (open_handles e) = eh_at e ` dom (nodes e)"
    and nodes_ok_dom: "dom (nodes e) = set (transfers e) \<union> set (idle e)"
    and nodes_ok_distinct: "distinct (transfers e @ idle e)" "distinct (open_handles e)"
    and nodes_ok_bounds: "length (idle e) \<le> max_pooled_handles e" "0 \<le> running e"
  using assms unfolding nodes_ok_def by blast+

lemma nodes_ok_cong:
  assumes "nodes_ok e" "transfers e' = transfers e" "idle e' = idle e" "nodes e' = nodes e"
    "open_handles e' = open_handles e" "max_pooled_handles e' = max_pooled_handles e"
    "running e' = running e"
  shows "nodes_ok e'"
proof -
  have "eh_at e' = eh_at e" using assms(4) by (simp add: eh_at_def fun_eq_iff)
  with assms(1) show ?thesis
    unfolding nodes_ok_def assms(2-) by (elim conjE) simp
qed

lemma eh_inj:
  "nodes_ok e \<Longrightarrow> nodes e a = Some t \<Longrightarrow> nodes e b = Some u \<Longrightarrow> eh t = eh u \<Longrightarrow> a = b"
  unfolding nodes_ok_def inj_on_def by (metis domI eh_at_Some)

lemma engine_invI:
  assumes "nodes_ok e" "X \<subseteq> set (transfers e)" "distinct (in_multi e)"
    and "set (in_multi e) = eh_at e ` (set (transfers e) - X)"
    and "inj_on (tid_at e) (set (transfers e) - X)"
    and "\<And>a t. a \<in> set (transfers e) - X \<Longrightarrow> nodes e a = Some t \<Longrightarrow> in_flight e a t"
    and "\<And>a t. a \<in> set (idle e) \<Longrightarrow> nodes e a = Some t \<Longrightarrow> warm e a t"
  shows "engine_inv_but X e"
  using assms by (simp add: engine_inv_but_def)

text \<open>Nodes other than the one at hand keep their place in the invariant.\<close>

lemma in_flight_frame:
  assumes "in_flight e b u" "opts e' (eh u) = opts e (eh u)"
    "next_transfer_id e \<le> next_transfer_id e'" "libcurl_version e' = libcurl_version e"
  shows "in_flight e' b u"
  using assms by (auto simp: in_flight_def)

lemma warm_frame:
  assumes "warm e b u" "opts e' (eh u) = opts e (eh u)" "libcurl_version e' = libcurl_version e"
  shows "warm e' b u"
  using assms by (auto simp: warm_def)

lemma eh_at_cong: "(\<And>b. b \<in> B \<Longrightarrow> nodes e' b = nodes e b) \<Longrightarrow> eh_at e' ` B = eh_at e ` B"
  by (auto simp: eh_at_def image_iff)

lemma tid_at_cong: "(\<And>b. b \<in> B \<Longrightarrow> nodes e' b = nodes e b) \<Longrightarrow> inj_on (tid_at e') B = inj_on (tid_at e) B"
  by (auto simp: tid_at_def inj_on_def)

section \<open>Retiring a node\<close>

definition parked :: "addr \<Rightarrow> transfer \<Rightarrow> setopt list \<Rightarrow> engine \<Rightarrow> engine" where
  "parked a t log e = e\<lparr>nodes := (nodes e)(a := Some (retired_node t)),
     opts := (opts e)(eh t := log), idle := a # idle e, transfers := remove1 a (transfers e)\<rparr>"

definition dropped :: "addr \<Rightarrow> transfer \<Rightarrow> setopt list \<Rightarrow> engine \<Rightarrow> engine" where
  "dropped a t log e = e\<lparr>nodes := (nodes e)(a := None),
     opts := (opts e)(eh t := log), open_handles := remove1 (eh t) (open_handles e),
     cleaned := cleaned e @ [eh t], transfers := remove1 a (transfers e)\<rparr>"

lemma retire_cases:
  assumes "nodes e a = Some t" "self t = a"
  shows "retire a scrub e = (if a \<in> set (transfers e) \<and>
      (length (idle e) < max_pooled_handles e \<or> eh t \<in> set (open_handles e))
    then Inr ((if length (idle e) < max_pooled_handles e then parked else dropped) a t
           (if scrub then configure_handle (libcurl_version e) else opts e (eh t)) e)
    else Inl Undefined)"
  using assms by (simp add: retire_def curl_easy_cleanup_def Let_def retired_node_def parked_def dropped_def)

lemma retire_done:
  assumes "retire a scrub e = Inr e'" "nodes e a = Some t" "self t = a"
  shows "a \<in> set (transfers e)"
    "e' = (if length (idle e) < max_pooled_handles e then parked else dropped) a t
       (if scrub then configure_handle (libcurl_version e) else opts e (eh t)) e"
  using assms(1) by (simp_all add: retire_cases [OF assms(2,3)] split: if_splits)

lemma parked_inv:
  assumes inv: "engine_inv_but {a} e" and t: "nodes e a = Some t"
    and st: "self t = a" "handler t = None" and room: "length (idle e) < max_pooled_handles e"
    and log: "plain_log (libcurl_version e) log"
  shows "engine_inv (parked a t log e)"
  unfolding engine_inv_def
proof (rule engine_invI)
  let ?e = "parked a t log e"
  have ok: "nodes_ok e" using inv by (rule inv_nodes_ok)
  have aT: "a \<in> set (transfers e)" using inv by (simp add: engine_inv_but_def)
  have aI: "a \<notin> set (idle e)" using ok aT by (auto simp: nodes_ok_def)
  have tr: "set (transfers ?e) = set (transfers e) - {a}"
    using ok by (simp add: nodes_ok_def set_remove1_distinct parked_def)
  have neq: "eh u \<noteq> eh t" if "nodes e b = Some u" "b \<noteq> a" for b u
    using eh_inj [OF ok that(1) t] that(2) by auto
  have ehs: "eh_at ?e = eh_at e"
    using t by (auto simp: parked_def eh_at_def retired_node_def fun_eq_iff)
  have doms: "dom (nodes ?e) = dom (nodes e)" using t by (auto simp: parked_def)
  show "nodes_ok ?e"
    using ok room aT aI tr unfolding nodes_ok_def ehs doms by (auto simp: parked_def)
  show "distinct (in_multi ?e)" "set (in_multi ?e) = eh_at ?e ` (set (transfers ?e) - {})"
    using inv unfolding ehs tr by (simp_all add: engine_inv_but_def parked_def)
  have "inj_on (tid_at e) (set (transfers e) - {a})"
    using inv by (simp add: engine_inv_but_def)
  moreover have "inj_on (tid_at ?e) (set (transfers e) - {a}) = inj_on (tid_at e) (set (transfers e) - {a})"
    by (rule tid_at_cong) (simp add: parked_def)
  ultimately show "inj_on (tid_at ?e) (set (transfers ?e) - {})"
    by (simp only: tr Diff_empty)
  show "in_flight ?e b u" if "b \<in> set (transfers ?e) - {}" "nodes ?e b = Some u" for b u
  proof -
    from that(1) have b: "b \<in> set (transfers e) - {a}" by (simp only: tr Diff_empty)
    with that(2) have u: "nodes e b = Some u" by (auto simp: parked_def)
    show ?thesis
      by (rule in_flight_frame [OF in_flightD [OF inv b u]])
        (use neq [OF u] b in \<open>auto simp: parked_def\<close>)
  qed
  show "warm ?e b u" if "b \<in> set (idle ?e)" "nodes ?e b = Some u" for b u
  proof (cases "b = a")
    case True
    with that st log show ?thesis by (auto simp: parked_def warm_def retired_node_def)
  next
    case False
    with that have u: "b \<in> set (idle e)" "nodes e b = Some u" by (auto simp: parked_def)
    show ?thesis
      by (rule warm_frame [OF warmD [OF inv u]])
        (use neq [OF u(2) False] in \<open>auto simp: parked_def\<close>)
  qed
qed simp

lemma dropped_nodes_ok:
  assumes ok: "nodes_ok e" and t: "nodes e a = Some t" and aI: "a \<notin> set (idle e)"
  shows "nodes_ok (dropped a t log e)"
proof -
  let ?e = "dropped a t log e"
  have doms: "dom (nodes ?e) = dom (nodes e) - {a}" by (auto simp: dropped_def)
  have im: "eh_at ?e ` (dom (nodes e) - {a}) = eh_at e ` (dom (nodes e) - {a})"
    by (rule eh_at_cong) (simp add: dropped_def)
  have "inj_on (eh_at ?e) (dom (nodes e) - {a})"
    using ok unfolding nodes_ok_def inj_on_def by (auto simp: dropped_def eh_at_def)
  moreover have "set (open_handles ?e) = eh_at e ` (dom (nodes e) - {a})"
  proof -
    have "set (open_handles ?e) = eh_at e ` dom (nodes e) - eh_at e ` {a}"
      using ok t by (simp add: dropped_def nodes_ok_def set_remove1_distinct)
    also have "\<dots> = eh_at e ` (dom (nodes e) - {a})"
      using ok t unfolding nodes_ok_def
      by (intro inj_on_image_set_diff [symmetric, of _ "dom (nodes e)"]) auto
    finally show ?thesis .
  qed
  moreover have "dom (nodes e) - {a} = set (transfers ?e) \<union> set (idle ?e)"
    using ok aI by (auto simp: nodes_ok_def dropped_def set_remove1_distinct)
  moreover have "distinct (transfers ?e @ idle ?e)" "distinct (open_handles ?e)"
    "length (idle ?e) \<le> max_pooled_handles ?e" "0 \<le> running ?e"
    using ok by (auto simp: nodes_ok_def dropped_def dest: notin_set_remove1)
  ultimately show ?thesis
    unfolding nodes_ok_def doms im by blast
qed

lemma dropped_inv:
  assumes inv: "engine_inv_but {a} e" and t: "nodes e a = Some t"
  shows "engine_inv (dropped a t log e)"
  unfolding engine_inv_def
proof (rule engine_invI)
  let ?e = "dropped a t log e"
  have ok: "nodes_ok e" using inv by (rule inv_nodes_ok)
  have aT: "a \<in> set (transfers e)" using inv by (simp add: engine_inv_but_def)
  have aI: "a \<notin> set (idle e)" using ok aT by (auto simp: nodes_ok_def)
  have tr: "set (transfers ?e) = set (transfers e) - {a}"
    using ok by (simp add: nodes_ok_def set_remove1_distinct dropped_def)
  have neq: "eh u \<noteq> eh t" if "nodes e b = Some u" "b \<noteq> a" for b u
    using eh_inj [OF ok that(1) t] that(2) by auto
  show "nodes_ok ?e" by (rule dropped_nodes_ok [OF ok t aI])
  show "distinct (in_multi ?e)" using inv by (simp add: engine_inv_but_def dropped_def)
  have "eh_at ?e ` (set (transfers e) - {a}) = eh_at e ` (set (transfers e) - {a})"
    by (rule eh_at_cong) (simp add: dropped_def)
  then show "set (in_multi ?e) = eh_at ?e ` (set (transfers ?e) - {})"
    using inv by (simp add: tr engine_inv_but_def) (simp add: dropped_def)
  have "inj_on (tid_at e) (set (transfers e) - {a})"
    using inv by (simp add: engine_inv_but_def)
  moreover have "inj_on (tid_at ?e) (set (transfers e) - {a}) = inj_on (tid_at e) (set (transfers e) - {a})"
    by (rule tid_at_cong) (simp add: dropped_def)
  ultimately show "inj_on (tid_at ?e) (set (transfers ?e) - {})"
    by (simp only: tr Diff_empty)
  show "in_flight ?e b u" if "b \<in> set (transfers ?e) - {}" "nodes ?e b = Some u" for b u
  proof -
    from that(1) have b: "b \<in> set (transfers e) - {a}" by (simp only: tr Diff_empty)
    with that(2) have u: "nodes e b = Some u" by (auto simp: dropped_def)
    show ?thesis
      by (rule in_flight_frame [OF in_flightD [OF inv b u]])
        (use neq [OF u] b in \<open>auto simp: dropped_def\<close>)
  qed
  show "warm ?e b u" if "b \<in> set (idle ?e)" "nodes ?e b = Some u" for b u
  proof -
    from that aI have u: "b \<in> set (idle e)" "nodes e b = Some u" "b \<noteq> a"
      by (auto simp: dropped_def split: if_splits)
    show ?thesis
      by (rule warm_frame [OF warmD [OF inv u(1,2)]])
        (use neq [OF u(2,3)] in \<open>auto simp: dropped_def\<close>)
  qed
qed simp

lemma retire_inv:
  assumes inv: "engine_inv_but {a} e" and t: "nodes e a = Some t"
    and st: "self t = a" "handler t = None"
    and log: "scrub \<or> plain_log (libcurl_version e) (opts e (eh t))"
  shows "safely engine_inv (retire a scrub e)"
proof -
  have "eh t \<in> set (open_handles e)"
    using nodes_ok_handles [OF inv_nodes_ok [OF inv]] t by (force simp: eh_at_def)
  then show ?thesis
    using log inv [unfolded engine_inv_but_def] parked_inv [OF inv t st] dropped_inv [OF inv t]
    by (auto simp: retire_cases [OF t st(1)])
qed

section \<open>Taking a node out, putting a node in\<close>

lemma engine_inv_but_frame [frame_simps]:
  "engine_inv_but X (e\<lparr>posted := p\<rparr>) = engine_inv_but X e"
  "engine_inv_but X (e\<lparr>invoked := q\<rparr>) = engine_inv_but X e"
  "engine_inv_but X (e\<lparr>slots := s\<rparr>) = engine_inv_but X e"
  by (simp_all add: engine_inv_but_def nodes_ok_def in_flight_def warm_def eh_at_def tid_at_def
      inj_on_def)

lemma engine_inv_frame [frame_simps]:
  "engine_inv (e\<lparr>posted := p\<rparr>) = engine_inv e"
  "engine_inv (e\<lparr>invoked := q\<rparr>) = engine_inv e"
  "engine_inv (e\<lparr>slots := s\<rparr>) = engine_inv e"
  by (simp_all add: engine_inv_def frame_simps)

lemma nodes_ok_put:
  assumes "nodes_ok e" "nodes e a = Some t" "eh t' = eh t"
  shows "nodes_ok (put_node a t' e)"
proof -
  have ehs: "eh_at (put_node a t' e) = eh_at e" using assms by (auto simp: eh_at_def fun_eq_iff)
  have doms: "dom (nodes (put_node a t' e)) = dom (nodes e)" using assms by auto
  show ?thesis using assms(1) unfolding nodes_ok_def ehs doms by (elim conjE) simp
qed

lemma put_node_inv:
  assumes inv: "engine_inv_but {a} e" and t: "nodes e a = Some t" and h: "eh t' = eh t"
  shows "engine_inv_but {a} (put_node a t' e)"
proof (rule engine_invI)
  let ?e = "put_node a t' e"
  have ehs: "eh_at ?e = eh_at e" using t h by (auto simp: eh_at_def fun_eq_iff)
  have aI: "a \<notin> set (idle e)" using inv by (auto simp: engine_inv_but_def nodes_ok_def)
  show "nodes_ok ?e" by (rule nodes_ok_put [OF inv_nodes_ok [OF inv] t h])
  show "{a} \<subseteq> set (transfers ?e)" "distinct (in_multi ?e)"
    "set (in_multi ?e) = eh_at ?e ` (set (transfers ?e) - {a})"
    using inv unfolding ehs by (simp_all add: engine_inv_but_def)
  have "inj_on (tid_at ?e) (set (transfers e) - {a}) = inj_on (tid_at e) (set (transfers e) - {a})"
    by (rule tid_at_cong) simp
  then show "inj_on (tid_at ?e) (set (transfers ?e) - {a})"
    using inv by (simp add: engine_inv_but_def)
  show "in_flight ?e b u" if "b \<in> set (transfers ?e) - {a}" "nodes ?e b = Some u" for b u
    using that in_flightD [OF inv, of b u] by (auto simp: in_flight_def)
  show "warm ?e b u" if "b \<in> set (idle ?e)" "nodes ?e b = Some u" for b u
    using that aI warmD [OF inv, of b u] by (auto simp: warm_def split: if_splits)
qed

lemma unlist_inv:
  assumes inv: "engine_inv e" and t: "nodes e a = Some t" "a \<in> set (transfers e)" and r: "0 \<le> n"
  shows "engine_inv_but {a} (e\<lparr>in_multi := remove1 (eh t) (in_multi e), running := n\<rparr>)"
    (is "engine_inv_but {a} ?e")
proof -
  have ehs: "eh_at ?e = eh_at e" "tid_at ?e = tid_at e"
    by (simp_all add: eh_at_def tid_at_def fun_eq_iff)
  have ok: "nodes_ok e" using inv by (simp add: engine_inv_def engine_inv_but_def)
  have "set (in_multi ?e) = eh_at e ` set (transfers e) - eh_at e ` {a}"
    using inv t by (simp add: engine_inv_def engine_inv_but_def set_remove1_distinct)
  also have "\<dots> = eh_at e ` (set (transfers e) - {a})"
    using ok t unfolding nodes_ok_def
    by (intro inj_on_image_set_diff [symmetric, of _ "dom (nodes e)"]) auto
  finally show ?thesis
    using inv ok r t(2) unfolding engine_inv_def engine_inv_but_def nodes_ok_def ehs
    by (auto simp: in_flight_def warm_def inj_on_diff)
qed

lemma unlist_same:
  assumes "engine_inv e" "nodes e a = Some t" "a \<in> set (transfers e)"
  shows "engine_inv_but {a} (e\<lparr>in_multi := remove1 (eh t) (in_multi e)\<rparr>)"
proof -
  have "0 \<le> running e" using assms(1) by (simp add: engine_inv_def engine_inv_but_def nodes_ok_def)
  from unlist_inv [OF assms this] show ?thesis by simp
qed

lemma relist_inv:
  assumes inv: "engine_inv_but {a} e" and t: "nodes e a = Some t" and fl: "in_flight e a t"
    and new: "\<And>b u. b \<in> set (transfers e) - {a} \<Longrightarrow> nodes e b = Some u \<Longrightarrow> tid u \<noteq> tid t"
  shows "engine_inv (e\<lparr>in_multi := eh t # in_multi e\<rparr>)" (is "engine_inv ?e")
  unfolding engine_inv_def
proof (rule engine_invI)
  have ehs: "eh_at ?e = eh_at e" "tid_at ?e = tid_at e"
    by (simp_all add: eh_at_def tid_at_def fun_eq_iff)
  have ok: "nodes_ok e" using inv by (rule inv_nodes_ok)
  have aT: "a \<in> set (transfers e)" using inv by (simp add: engine_inv_but_def)
  have node: "\<exists>u. nodes e b = Some u" if "b \<in> set (transfers e)" for b
    by (rule transfers_node [OF ok that])
  have "eh t \<notin> set (in_multi e)"
  proof
    assume "eh t \<in> set (in_multi e)"
    then obtain b where b: "b \<in> set (transfers e) - {a}" "eh t = eh_at e b"
      using inv by (auto simp: engine_inv_but_def)
    with node obtain u where "nodes e b = Some u" by blast
    with b eh_inj [OF ok t this] show False by simp
  qed
  then show "distinct (in_multi ?e)" using inv by (simp add: engine_inv_but_def)
  have split: "insert a (set (transfers e) - {a}) = set (transfers e)" using aT by blast
  have "set (in_multi ?e) = eh_at e ` insert a (set (transfers e) - {a})"
    using inv unfolding image_insert eh_at_Some [OF t] by (simp add: engine_inv_but_def)
  then show "set (in_multi ?e) = eh_at ?e ` (set (transfers ?e) - {})"
    unfolding ehs split by simp
  show "nodes_ok ?e" using ok unfolding nodes_ok_def ehs by (elim conjE) simp
  have "tid t \<notin> tid_at e ` (set (transfers e) - {a})"
    using new node by (fastforce simp: tid_at_def)
  moreover have "inj_on (tid_at e) (set (transfers e) - {a})"
    using inv by (simp add: engine_inv_but_def)
  ultimately have "inj_on (tid_at e) (insert a (set (transfers e) - {a}))"
    by (simp only: inj_on_insert tid_at_Some [OF t] Diff_idemp simp_thms)
  then show "inj_on (tid_at ?e) (set (transfers ?e) - {})"
    unfolding ehs split by simp
  show "in_flight ?e b u" if "b \<in> set (transfers ?e) - {}" "nodes ?e b = Some u" for b u
    using that fl t in_flightD [OF inv, of b u] by (cases "b = a") (auto simp: in_flight_def)
  show "warm ?e b u" if "b \<in> set (idle ?e)" "nodes ?e b = Some u" for b u
    using that warmD [OF inv, of b u] by (auto simp: warm_def)
qed simp

section \<open>Every operation keeps the invariant\<close>

lemma take_handler_inv:
  assumes "engine_inv_but {a} e" "nodes e a = Some t" "handler t = Some h"
  shows "take_handler a e = Inr (h, put_node a (t\<lparr>handler := None\<rparr>) e)"
    "engine_inv_but {a} (put_node a (t\<lparr>handler := None\<rparr>) e)"
  using assms put_node_inv [OF assms(1,2), of "t\<lparr>handler := None\<rparr>"]
  by (simp_all add: take_handler_def)

lemma in_multi_node:
  assumes "engine_inv e" "h \<in> set (in_multi e)"
  obtains a t where "a \<in> set (transfers e)" "nodes e a = Some t" "eh t = h" "in_flight e a t"
    "private_of h e = Inr a"
proof -
  from assms obtain a where a: "a \<in> set (transfers e)" "h = eh_at e a"
    by (auto simp: engine_inv_def engine_inv_but_def)
  moreover from assms(1) a(1) obtain t where t: "nodes e a = Some t"
    using transfers_node [OF inv_nodes_ok] by (metis engine_inv_def)
  moreover have "in_flight e a t"
    using in_flightD [of "{}" e a t] assms(1) a(1) t by (simp add: engine_inv_def)
  ultimately show ?thesis
    using that [of a t] by (auto simp: in_flight_def private_of_def)
qed

lemma complete_transfer_inv:
  assumes inv: "engine_inv e" and m: "easy_handle m \<in> set (in_multi e)"
  shows "safely engine_inv (complete_transfer m e)"
proof -
  from inv m obtain a t where t: "a \<in> set (transfers e)" "nodes e a = Some t"
    "eh t = easy_handle m" "in_flight e a t" "private_of (easy_handle m) e = Inr a"
    by (rule in_multi_node)
  from t(4) obtain h where h: "handler t = Some h" "self t = a" by (auto simp: in_flight_def)
  let ?e1 = "e\<lparr>in_multi := remove1 (easy_handle m) (in_multi e)\<rparr>"
  let ?t = "t\<lparr>buffer := moved_from_buffer m, header_buffer := moved_from_headers m\<rparr>"
  have i1: "engine_inv_but {a} ?e1" using unlist_same [OF inv t(2,1)] t(3) by simp
  have i2: "engine_inv_but {a} (put_node a ?t ?e1)"
    by (rule put_node_inv [OF i1, of t]) (use t in simp_all)
  note th = take_handler_inv [OF i2, of ?t h]
  have "safely engine_inv (retire a (scrub_on_done t) (put_node a (?t\<lparr>handler := None\<rparr>) (put_node a ?t ?e1)))"
    by (rule retire_inv [of a _ "?t\<lparr>handler := None\<rparr>"])
      (use th t h in \<open>auto simp: in_flight_def\<close>)
  then show ?thesis
    using t th h by (simp add: complete_transfer_def Let_def)
      (auto elim!: safely_and_then simp: frame_simps)
qed

lemma completion_step_inv:
  "engine_inv e \<Longrightarrow> message_contract m e \<Longrightarrow> safely engine_inv (completion_step m e)"
  by (simp add: completion_step_def message_contract_def complete_transfer_inv)

lemma find_transfer_cases:
  assumes "nodes_ok e" "set as \<subseteq> set (transfers e)"
  shows "find_transfer (nodes e) i as = Inr None \<and> i \<notin> tid_at e ` set as \<or>
    (\<exists>a t. find_transfer (nodes e) i as = Inr (Some a) \<and> a \<in> set as \<and> nodes e a = Some t \<and> tid t = i)"
  using assms(2)
proof (induction as)
  case Nil
  then show ?case by simp
next
  case (Cons a as)
  with transfers_node [OF assms(1), of a] obtain t where "nodes e a = Some t" by auto
  with Cons show ?case by auto
qed

lemma cancel_inv:
  assumes inv: "engine_inv e"
  shows "safely engine_inv (cancel i e)"
proof -
  have ok: "nodes_ok e" using inv by (simp add: engine_inv_def engine_inv_but_def)
  from find_transfer_cases [OF ok order_refl, of i] show ?thesis
  proof (elim disjE conjE exE)
    assume "find_transfer (nodes e) i (transfers e) = Inr None"
    with inv show ?thesis by (simp add: cancel_def)
  next
    fix a t
    assume f: "find_transfer (nodes e) i (transfers e) = Inr (Some a)"
      and t: "a \<in> set (transfers e)" "nodes e a = Some t"
    have fl: "in_flight e a t"
      using in_flightD [of "{}" e a t] inv t by (simp add: engine_inv_def)
    then obtain h where h: "handler t = Some h" by (auto simp: in_flight_def)
    let ?n = "if running e > 0 then running e - 1 else running e"
    let ?e1 = "e\<lparr>in_multi := remove1 (eh t) (in_multi e), running := ?n\<rparr>"
    have "0 \<le> ?n" using ok by (simp add: nodes_ok_def)
    then have i1: "engine_inv_but {a} ?e1" by (rule unlist_inv [OF inv t(2,1)])
    note th = take_handler_inv [OF i1, of t h]
    have "safely engine_inv (retire a True (put_node a (t\<lparr>handler := None\<rparr>) ?e1))"
      by (rule retire_inv [of a _ "t\<lparr>handler := None\<rparr>"])
        (use th t h fl in \<open>auto simp: in_flight_def\<close>)
    then show ?thesis
      using f t th h by (simp add: cancel_def Let_def)
        (auto elim!: safely_and_then simp: frame_simps)
  qed
qed

lemma emit_inv: "engine_inv e \<Longrightarrow> safely engine_inv (emit s e)"
  by (simp add: emit_def cancel_inv split: option.split)

lemma run_posted_inv: "engine_inv e \<Longrightarrow> engine_inv (run_posted i e)"
  by (simp add: run_posted_def engine_inv_def frame_simps)

section \<open>Starting a transfer\<close>

text \<open>What \<open>acquire\<close> leaves at the front of \<open>transfers_\<close>: a clean node outside the multi.\<close>

definition entering :: "engine \<Rightarrow> addr \<Rightarrow> transfer \<Rightarrow> engine \<Rightarrow> bool" where
  "entering e a t e' \<longleftrightarrow>
     transfers e' = a # transfers e \<and> nodes e' a = Some t \<and> engine_inv_but {a} e' \<and>
     handler t = None \<and> slist t = [] \<and> body t = [] \<and> buffer t = [] \<and> header_buffer t = [] \<and>
     \<not> scrub_on_done t \<and> plain_log (libcurl_version e') (opts e' (eh t)) \<and>
     next_transfer_id e' = next_transfer_id e \<and> posted e' = posted e \<and> invoked e' = invoked e \<and>
     running e' = running e \<and> libcurl_version e' = libcurl_version e \<and>
     (\<forall>b. b \<noteq> a \<longrightarrow> nodes e' b = nodes e b)"

lemma acquire_warm:
  assumes inv: "engine_inv e" and i: "idle e = a # rest"
  shows "\<exists>t. entering e a t (e\<lparr>idle := rest, transfers := a # transfers e\<rparr>)"
proof -
  let ?e = "e\<lparr>idle := rest, transfers := a # transfers e\<rparr>"
  have inv': "engine_inv_but {} e" using inv by (simp add: engine_inv_def)
  have ok: "nodes_ok e" using inv' by (rule inv_nodes_ok)
  have "a \<in> dom (nodes e)" using nodes_ok_dom [OF ok] i by simp
  then obtain t where t: "nodes e a = Some t" by blast
  have w: "warm e a t" using warmD [OF inv' _ t] i by simp
  have ehs: "eh_at ?e = eh_at e" "tid_at ?e = tid_at e"
    by (simp_all add: eh_at_def tid_at_def fun_eq_iff)
  have aT: "set (a # transfers e) - {a} = set (transfers e)"
    using ok i by (auto simp: nodes_ok_def)
  have "engine_inv_but {a} ?e"
  proof (rule engine_invI)
    show "nodes_ok ?e" using ok i unfolding nodes_ok_def ehs by (elim conjE) auto
    show "distinct (in_multi ?e)" "set (in_multi ?e) = eh_at ?e ` (set (transfers ?e) - {a})"
      "inj_on (tid_at ?e) (set (transfers ?e) - {a})"
      using inv' aT unfolding ehs by (simp_all add: engine_inv_but_def)
    show "in_flight ?e b u" if "b \<in> set (transfers ?e) - {a}" "nodes ?e b = Some u" for b u
      using that in_flightD [OF inv', of b u] by (auto simp: in_flight_def)
    show "warm ?e b u" if "b \<in> set (idle ?e)" "nodes ?e b = Some u" for b u
      using that warmD [OF inv', of b u] i by (auto simp: warm_def)
  qed simp
  then show ?thesis using t w by (intro exI [of _ t]) (simp add: entering_def warm_def)
qed

lemma acquire_new:
  assumes inv: "engine_inv e" and i: "idle e = []"
    and a: "nodes e a = None" and h: "h \<notin> set (open_handles e)"
  shows "entering e a (new_transfer h) (put_node a (new_transfer h)
      (e\<lparr>opts := (opts e)(h := configure_handle (libcurl_version e)),
         open_handles := h # open_handles e, transfers := a # transfers e\<rparr>))"
    (is "entering e a ?t ?e")
proof -
  have inv': "engine_inv_but {} e" using inv by (simp add: engine_inv_def)
  have ok: "nodes_ok e" using inv' by (rule inv_nodes_ok)
  have doms: "dom (nodes ?e) = insert a (dom (nodes e))" by auto
  have aN: "a \<notin> dom (nodes e)" using a by auto
  have eh_a: "eh_at ?e a = h" by (simp add: eh_at_def new_transfer_def)
  have im: "eh_at ?e ` B = eh_at e ` B" if "a \<notin> B" for B
    by (rule eh_at_cong) (use that in auto)
  have aT: "set (a # transfers e) - {a} = set (transfers e)" "a \<notin> set (transfers e)"
    using ok aN by (auto simp: nodes_ok_def)
  have neq: "eh u \<noteq> h" if "nodes e b = Some u" for b u
    using that h nodes_ok_handles [OF ok] by (metis domI eh_at_Some image_eqI)
  have "engine_inv_but {a} ?e"
  proof (rule engine_invI)
    note nodes_ok_inj [OF ok]
    moreover have "inj_on (eh_at ?e) (dom (nodes e)) = inj_on (eh_at e) (dom (nodes e))"
      using aN by (intro inj_on_cong) (auto simp: eh_at_def)
    moreover have "h \<notin> eh_at e ` dom (nodes e)" using h nodes_ok_handles [OF ok] by simp
    ultimately have "inj_on (eh_at ?e) (dom (nodes ?e))"
      unfolding doms inj_on_insert eh_a using im [OF aN] aN by simp
    moreover have "set (open_handles ?e) = eh_at ?e ` dom (nodes ?e)"
      unfolding doms image_insert eh_a im [OF aN] by (simp add: nodes_ok_handles [OF ok])
    moreover have "distinct (transfers ?e @ idle ?e)" "distinct (open_handles ?e)"
      "dom (nodes ?e) = set (transfers ?e) \<union> set (idle ?e)"
      using nodes_ok_distinct [OF ok] nodes_ok_dom [OF ok] aT h i unfolding doms by auto
    moreover have "length (idle ?e) \<le> max_pooled_handles ?e" "0 \<le> running ?e"
      using ok by (simp_all add: nodes_ok_def)
    ultimately show "nodes_ok ?e" unfolding nodes_ok_def by blast
    show "distinct (in_multi ?e)" using inv' by (simp add: engine_inv_but_def)
    show "set (in_multi ?e) = eh_at ?e ` (set (transfers ?e) - {a})"
      using inv' im [OF aT(2)] aT(1) by (simp add: engine_inv_but_def)
    have "inj_on (tid_at ?e) (set (transfers e)) = inj_on (tid_at e) (set (transfers e))"
      by (rule tid_at_cong) (use aT in auto)
    then show "inj_on (tid_at ?e) (set (transfers ?e) - {a})"
      using inv' aT(1) by (simp add: engine_inv_but_def)
    show "in_flight ?e b u" if "b \<in> set (transfers ?e) - {a}" "nodes ?e b = Some u" for b u
    proof -
      from that have b: "b \<in> set (transfers e) - {}" "nodes e b = Some u" by auto
      show ?thesis
        by (rule in_flight_frame [OF in_flightD [OF inv' b]]) (use neq [OF b(2)] in auto)
    qed
    show "warm ?e b u" if "b \<in> set (idle ?e)" "nodes ?e b = Some u" for b u
      using that i by simp
  qed simp
  then show ?thesis by (simp add: entering_def new_transfer_def plain_log_configure)
qed

lemma acquire_inv:
  assumes "engine_inv e" "start_contract ans e" "acquire ans e = Some e'"
  shows "\<exists>a t. entering e a t e'"
proof (cases "idle e")
  case Nil
  with assms(3) obtain h where h: "easy_init ans = Some h" by (auto simp: acquire_def split: option.splits)
  with assms(2) have "nodes e (node_at ans) = None" "h \<notin> set (open_handles e)"
    by (simp_all add: start_contract_def)
  from acquire_new [OF assms(1) Nil this] show ?thesis
    using assms(3) Nil h by (auto simp: acquire_def)
next
  case (Cons a rest)
  then show ?thesis
    using acquire_warm [OF assms(1) Cons] assms(3) by (auto simp: acquire_def)
qed

lemma word_less_succ:
  fixes i :: "'a::len word"
  assumes "i \<noteq> - 1"
  shows "i < i + 1"
proof -
  have "i + 1 \<noteq> 0" using assms by (metis add.inverse_inverse eq_neg_iff_add_eq_0)
  then have "(unat i + 1) mod 2 ^ LENGTH('a) \<noteq> 0"
    by (simp add: word_unat_eq_iff unat_word_ariths)
  moreover have "unat i + 1 \<le> 2 ^ LENGTH('a)" by (rule Suc_leI [unfolded Suc_eq_plus1]) (rule unsigned_less)
  ultimately have "unat i + 1 < 2 ^ LENGTH('a)" using le_neq_implies_less by fastforce
  then show ?thesis by (simp add: word_less_nat_alt unat_word_ariths)
qed

definition prepared_node ::
    "start_answers \<Rightarrow> request \<Rightarrow> completion_handler \<Rightarrow> addr \<Rightarrow> transfer \<Rightarrow> engine \<Rightarrow> transfer" where
  "prepared_node ans r h a t e = t\<lparr>self := a, handler := Some h, body := r_body r,
     tid := next_transfer_id e + 1, slist := build_slist (slist_append ans) r,
     scrub_on_done := (if r_curl_setup r \<noteq> None then True else scrub_on_done t)\<rparr>"

definition prepared_log ::
    "start_answers \<Rightarrow> request \<Rightarrow> addr \<Rightarrow> transfer \<Rightarrow> engine \<Rightarrow> setopt list" where
  "prepared_log ans r a t e =
     opts e (eh t) @ start_opts a r (build_slist (slist_append ans) r) @ hook_opts r"

lemma prepare_fields [simp]:
  "transfers (prepare ans r h a t e) = transfers e"
  "idle (prepare ans r h a t e) = idle e"
  "nodes (prepare ans r h a t e) = (nodes e)(a := Some (prepared_node ans r h a t e))"
  "opts (prepare ans r h a t e) = (opts e)(eh t := prepared_log ans r a t e)"
  "in_multi (prepare ans r h a t e) = in_multi e"
  "open_handles (prepare ans r h a t e) = open_handles e"
  "max_pooled_handles (prepare ans r h a t e) = max_pooled_handles e"
  "running (prepare ans r h a t e) = running e"
  "posted (prepare ans r h a t e) = posted e"
  "invoked (prepare ans r h a t e) = invoked e"
  "next_transfer_id (prepare ans r h a t e) = next_transfer_id e + 1"
  "libcurl_version (prepare ans r h a t e) = libcurl_version e"
  by (simp_all add: prepare_def Let_def prepared_node_def prepared_log_def split: option.split)

lemma prepared_node_fields [simp]:
  "eh (prepared_node ans r h a t e) = eh t"
  "self (prepared_node ans r h a t e) = a"
  "handler (prepared_node ans r h a t e) = Some h"
  "tid (prepared_node ans r h a t e) = next_transfer_id e + 1"
  by (simp_all add: prepared_node_def)

lemma prepared_in_flight:
  assumes plain: "plain_log (libcurl_version e) (opts e (eh t))"
    and hook: "hook_ok (hook_opts r)" and i: "next_transfer_id e \<noteq> - 1"
    and e': "opts e' (eh t) = prepared_log ans r a t e" "next_transfer_id e' = next_transfer_id e + 1"
      "libcurl_version e' = libcurl_version e"
  shows "in_flight e' a (prepared_node ans r h a t e)"
proof -
  let ?so = "start_opts a r (build_slist (slist_append ans) r)"
  let ?log = "opts e (eh t) @ ?so @ hook_opts r"
  have pos: "0 < next_transfer_id e + 1"
    using word_less_succ [OF i] by (metis word_gt_0 word_not_simps(1))
  have no_hook: "last_set (hook_opts r) opt = None" if "opt \<notin> fst ` set (hook_opts r)" for opt
    using that by (simp add: last_set_None)
  have priv: "last_set ?log CURLOPT_PRIVATE = Some (Transfer_ptr a)"
    using hook no_hook by (simp add: last_set_append start_opts_pointers hook_ok_def)
  have own: "f \<notin> fst ` set (hook_opts r)" if "last_set ?log f = Some (Fn g)" for f g
  proof
    assume "f \<in> fst ` set (hook_opts r)"
    then obtain v where v: "last_set (hook_opts r) f = Some v"
      using last_set_None [of "hook_opts r" f] by blast
    with that have "v = Fn g" by (simp add: last_set_append)
    with last_set_in [OF v] hook have "\<not> is_callback (snd (f, Fn g))"
      unfolding hook_ok_def by blast
    then show False by simp
  qed
  have data: "last_set ?log d = last_set ?so d" if "f \<notin> fst ` set (hook_opts r)"
      "d \<in> fst ` set (hook_opts r) \<longrightarrow> f \<in> fst ` set (hook_opts r)" "last_set ?so d \<noteq> None" for f d
    using that no_hook [of d] by (auto simp: last_set_append)
  have w: "last_set ?log CURLOPT_WRITEDATA = Some (Transfer_ptr a)"
    if "last_set ?log CURLOPT_WRITEFUNCTION = Some (Fn Body_write_cb)"
    using data [OF own [OF that], of CURLOPT_WRITEDATA] hook
    by (simp add: start_opts_pointers hook_ok_def)
  have hd: "last_set ?log CURLOPT_HEADERDATA = Some (Header_buffer_ptr a)"
    if "last_set ?log CURLOPT_HEADERFUNCTION = Some (Fn Header_cb)"
    using data [OF own [OF that], of CURLOPT_HEADERDATA] hook
    by (simp add: start_opts_pointers hook_ok_def)
  have "plain_log (libcurl_version e) ?log" if "r_curl_setup r = None"
    using that plain_log_start [OF plain] by (simp add: hook_opts_def)
  then show ?thesis
    using priv w hd pos by (auto simp: in_flight_def e' prepared_log_def prepared_node_def)
qed

lemma prepare_inv:
  assumes inv: "engine_inv_but {a} e" and t: "nodes e a = Some t"
    and i: "next_transfer_id e \<noteq> - 1"
  shows "engine_inv_but {a} (prepare ans r h a t e)" (is "engine_inv_but {a} ?e")
proof -
  let ?n = "prepared_node ans r h a t e"
  have i1: "engine_inv_but {a} (put_node a ?n e)"
    by (rule put_node_inv [OF inv t]) simp
  have ok: "nodes_ok e" using inv by (rule inv_nodes_ok)
  have aI: "a \<notin> set (idle e)" using inv by (auto simp: engine_inv_but_def nodes_ok_def)
  have neq: "eh u \<noteq> eh t" if "nodes e b = Some u" "b \<noteq> a" for b u
    using eh_inj [OF ok that(1) t] that(2) by auto
  have ehs: "eh_at ?e = eh_at (put_node a ?n e)" "tid_at ?e = tid_at (put_node a ?n e)"
    by (simp_all add: eh_at_def tid_at_def fun_eq_iff)
  show ?thesis
  proof (rule engine_invI)
    show "nodes_ok ?e"
      by (rule nodes_ok_cong [OF inv_nodes_ok [OF i1]]) simp_all
    show "{a} \<subseteq> set (transfers ?e)" "distinct (in_multi ?e)"
      "set (in_multi ?e) = eh_at ?e ` (set (transfers ?e) - {a})"
      "inj_on (tid_at ?e) (set (transfers ?e) - {a})"
      using i1 unfolding ehs by (simp_all add: engine_inv_but_def)
    show "in_flight ?e b u" if "b \<in> set (transfers ?e) - {a}" "nodes ?e b = Some u" for b u
    proof -
      from that have b: "b \<in> set (transfers e) - {a}" "nodes e b = Some u" by auto
      have "next_transfer_id e \<le> next_transfer_id ?e"
        using word_less_succ [OF i] by simp
      then show ?thesis
        by (intro in_flight_frame [OF in_flightD [OF inv b]]) (use neq [OF b(2)] b(1) in auto)
    qed
    show "warm ?e b u" if "b \<in> set (idle ?e)" "nodes ?e b = Some u" for b u
    proof -
      from that aI have b: "b \<in> set (idle e)" "nodes e b = Some u" "b \<noteq> a"
        by (auto split: if_splits)
      show ?thesis
        by (rule warm_frame [OF warmD [OF inv b(1,2)]]) (use neq [OF b(2,3)] in auto)
    qed
  qed
qed

lemma start_inv:
  assumes inv: "engine_inv e" and c: "start_contract ans e" and hook: "hook_ok (hook_opts r)"
  shows "safely engine_inv (start ans r h e)"
proof (cases "acquire ans e")
  case None
  with inv show ?thesis by (simp add: start_def fail_def frame_simps)
next
  case (Some e1)
  from acquire_inv [OF inv c Some] obtain a t where en: "entering e a t e1" by blast
  then have tr: "transfers e1 = a # transfers e" and t: "nodes e1 a = Some t"
    and i1: "engine_inv_but {a} e1" and plain: "plain_log (libcurl_version e1) (opts e1 (eh t))"
    and i: "next_transfer_id e1 \<noteq> - 1"
    using c unfolding entering_def start_contract_def by auto
  let ?e2 = "prepare ans r h a t e1"
  let ?n = "prepared_node ans r h a t e1"
  have i2: "engine_inv_but {a} ?e2" by (rule prepare_inv [OF i1 t i])
  have fl: "in_flight ?e2 a ?n" by (rule prepared_in_flight [OF plain hook i]) simp_all
  show ?thesis
  proof (cases "add_handle ans = CURLM_OK")
    case True
    have "engine_inv (?e2\<lparr>in_multi := eh ?n # in_multi ?e2\<rparr>)"
    proof (rule relist_inv [OF i2 _ fl])
      fix b u assume b: "b \<in> set (transfers ?e2) - {a}" "nodes ?e2 b = Some u"
      then have "in_flight e1 b u" using in_flightD [OF i1, of b u] by simp
      then show "tid u \<noteq> tid ?n"
        using word_less_succ [OF i] by (auto simp: in_flight_def)
    qed simp
    then show ?thesis using Some tr t True by (simp add: start_def Let_def)
  next
    case False
    note th = take_handler_inv [OF i2, of ?n h]
    have "safely engine_inv (retire a True (put_node a (?n\<lparr>handler := None\<rparr>) ?e2))"
      by (rule retire_inv [of a _ "?n\<lparr>handler := None\<rparr>"]) (use th in auto)
    then show ?thesis
      using Some tr t False th by (simp add: start_def Let_def fail_def)
        (auto elim!: safely_and_then simp: frame_simps)
  qed
qed

lemma new_engine_inv: "engine_inv (new_engine version max_pooled)"
  by (simp add: engine_inv_def engine_inv_but_def nodes_ok_def new_engine_def)

section \<open>The data callbacks\<close>

lemma put_buffers_inv:
  assumes inv: "engine_inv e" and t: "nodes e a = Some t" "a \<in> set (transfers e)"
  shows "engine_inv (put_node a (t\<lparr>buffer := b, header_buffer := hb\<rparr>) e)" (is "engine_inv ?e")
  unfolding engine_inv_def
proof (rule engine_invI)
  let ?t = "t\<lparr>buffer := b, header_buffer := hb\<rparr>"
  have inv': "engine_inv_but {} e" using inv by (simp add: engine_inv_def)
  have ehs: "eh_at ?e = eh_at e" "tid_at ?e = tid_at e"
    using t by (simp_all add: eh_at_def tid_at_def fun_eq_iff)
  have aI: "a \<notin> set (idle e)"
    using nodes_ok_distinct [OF inv_nodes_ok [OF inv']] t(2) by auto
  show "nodes_ok ?e" by (rule nodes_ok_put [OF inv_nodes_ok [OF inv'] t(1)]) simp
  show "distinct (in_multi ?e)" "set (in_multi ?e) = eh_at ?e ` (set (transfers ?e) - {})"
    "inj_on (tid_at ?e) (set (transfers ?e) - {})"
    using inv' unfolding ehs by (simp_all add: engine_inv_but_def)
  show "in_flight ?e c u" if "c \<in> set (transfers ?e) - {}" "nodes ?e c = Some u" for c u
    using that t in_flightD [OF inv', of c] by (cases "c = a") (auto simp: in_flight_def)
  show "warm ?e c u" if "c \<in> set (idle ?e)" "nodes ?e c = Some u" for c u
    using that aI warmD [OF inv', of c u] by (auto simp: warm_def split: if_splits)
qed simp

lemma header_cb_inv:
  assumes "engine_inv e" "a \<in> set (transfers e)"
  shows "safely (\<lambda>(n, e'). engine_inv e' \<and> n = length bytes) (header_cb a bytes e)"
proof -
  from assms obtain t where t: "nodes e a = Some t"
    using transfers_node inv_nodes_ok unfolding engine_inv_def by blast
  from put_buffers_inv [OF assms(1) t assms(2), of "header_buffer t @ bytes" "buffer t"] t show ?thesis
    by (simp add: header_cb_def)
qed

lemma body_write_cb_inv:
  assumes "engine_inv e" "a \<in> set (transfers e)"
  shows "safely (\<lambda>(n, e'). engine_inv e' \<and> n = length bytes) (body_write_cb a bytes e)"
proof -
  from assms obtain t where t: "nodes e a = Some t"
    using transfers_node inv_nodes_ok unfolding engine_inv_def by blast
  from put_buffers_inv [OF assms(1) t assms(2), of "header_buffer t" "buffer t @ bytes"] t show ?thesis
    by (simp add: body_write_cb_def)
qed

end
