(* ===== verification/Ledger.thy ===== *)
theory Ledger
  imports Prelude
begin

text \<open>
  An interface several components share: things are issued to a component, which holds them
  until it settles them. A completion handler is issued by a request and settled by its call;
  a descriptor is issued when the client opens it and settled when it closes it. \<open>held\<close> and
  \<open>settled\<close> count with multiplicity, so that settling twice, or dropping, shows.
\<close>

section \<open>The ledger\<close>

locale ledger =
  fixes step :: "'s \<Rightarrow> 'l \<Rightarrow> 's \<Rightarrow> bool"
    and inv :: "'s \<Rightarrow> bool"
    and held :: "'s \<Rightarrow> 'a multiset"
    and settled :: "'s \<Rightarrow> 'a multiset"
    and issue :: "'l \<Rightarrow> 'a multiset"
  assumes inv_step: "inv s \<Longrightarrow> step s l t \<Longrightarrow> inv t"
    and balance_step: "inv s \<Longrightarrow> step s l t \<Longrightarrow> held t + settled t = held s + settled s + issue l"
    and settled_step: "inv s \<Longrightarrow> step s l t \<Longrightarrow> settled s \<subseteq># settled t"
begin

lemma inv_runs: "runs step s ls t \<Longrightarrow> inv s \<Longrightarrow> inv t"
  by (induction rule: runs.induct) (auto intro: inv_step)

lemma balance_runs:
  "runs step s ls t \<Longrightarrow> inv s \<Longrightarrow>
     held t + settled t = held s + settled s + sum_list (map issue ls)"
proof (induction rule: runs.induct)
  case (runs_nil s)
  then show ?case by simp
next
  case (runs_cons s l t ls u)
  then have "held u + settled u = held t + settled t + sum_list (map issue ls)"
    using inv_step by blast
  also have "held t + settled t = held s + settled s + issue l"
    using runs_cons by (blast intro: balance_step)
  finally show ?case by (simp add: ac_simps)
qed

lemma settled_runs: "runs step s ls t \<Longrightarrow> inv s \<Longrightarrow> settled s \<subseteq># settled t"
  by (induction rule: runs.induct) (auto intro: inv_step dest: settled_step subset_mset.order_trans)

lemma settled_at_most_issued:
  assumes "runs step s ls t" "inv s" "held s = {#}" "settled s = {#}"
  shows "settled t \<subseteq># sum_list (map issue ls)"
  using balance_runs [OF assms(1,2)] assms(3,4)
  by (metis add.left_neutral mset_subset_eq_add_right)

lemma all_settled_when_idle:
  assumes "runs step s ls t" "inv s" "held s = {#}" "settled s = {#}" "held t = {#}"
  shows "settled t = sum_list (map issue ls)"
  using balance_runs [OF assms(1,2)] assms(3-5) by simp

end

section \<open>Optional entries\<close>

fun opt_mset :: "'a option \<Rightarrow> 'a multiset" where
  "opt_mset None = {#}"
| "opt_mset (Some x) = {#x#}"

lemma sum_list_remove1:
  fixes f :: "'a \<Rightarrow> 'b multiset"
  shows "x \<in> set xs \<Longrightarrow> sum_list (map f xs) = f x + sum_list (map f (remove1 x xs))"
  by (rule sum_list_map_remove1)

end
