(* ===== verification/Transfers_System.thy ===== *)
theory Transfers_System
  imports Transfers_Inv Ledger
begin

text \<open>
  The transfer engine as a system: its operations as labelled steps under the contracts of the
  code around it, and the handler ledger. Every completion handler handed to \<open>start\<close> is, at
  each moment, in exactly one place: in an in-flight node, in a posted completion, or among
  those that have been called.
\<close>

section \<open>Where the handlers are\<close>

definition handler_of :: "engine \<Rightarrow> addr \<Rightarrow> completion_handler option" where
  "handler_of e a = (case nodes e a of None \<Rightarrow> None | Some t \<Rightarrow> handler t)"

definition waiting :: "engine \<Rightarrow> completion_handler multiset" where
  "waiting e = sum_list (map (\<lambda>a. opt_mset (handler_of e a)) (transfers e))"

definition held_handlers :: "engine \<Rightarrow> completion_handler multiset" where
  "held_handlers e = waiting e + image_mset fst (mset (posted e))"

definition called_handlers :: "engine \<Rightarrow> completion_handler multiset" where
  "called_handlers e = image_mset fst (mset (invoked e))"

lemma handler_of_Some [simp]: "nodes e a = Some t \<Longrightarrow> handler_of e a = handler t"
  by (simp add: handler_of_def)

definition waiting_but :: "addr \<Rightarrow> engine \<Rightarrow> completion_handler multiset" where
  "waiting_but a e = sum_list (map (\<lambda>b. opt_mset (handler_of e b)) (remove1 a (transfers e)))"

lemma waiting_split:
  "a \<in> set (transfers e) \<Longrightarrow> waiting e = opt_mset (handler_of e a) + waiting_but a e"
  unfolding waiting_def waiting_but_def by (rule sum_list_remove1)

lemma waiting_but_cong:
  assumes "distinct (transfers e)" "transfers e' = transfers e"
    "\<And>b. b \<noteq> a \<Longrightarrow> nodes e' b = nodes e b"
  shows "waiting_but a e' = waiting_but a e"
  using assms by (auto simp: waiting_but_def handler_of_def intro!: arg_cong [where f = sum_list])

lemma waiting_cong:
  "transfers e' = transfers e \<Longrightarrow> nodes e' = nodes e \<Longrightarrow> waiting e' = waiting e"
  by (simp add: waiting_def handler_of_def)

lemma waiting_put:
  assumes "distinct (transfers e)" "a \<in> set (transfers e)" "nodes e a = Some t"
  shows "waiting (put_node a t' e) + opt_mset (handler t) = waiting e + opt_mset (handler t')"
  using assms waiting_split [of a e] waiting_split [of a "put_node a t' e"]
    waiting_but_cong [of e "put_node a t' e" a]
  by (simp add: ac_simps)

lemma take_handler_facts:
  assumes "take_handler a e = Inr (h, e')" "distinct (transfers e)" "a \<in> set (transfers e)"
  shows "waiting e = add_mset h (waiting e')" "posted e' = posted e" "invoked e' = invoked e"
    "transfers e' = transfers e" "\<exists>t. nodes e a = Some t \<and> nodes e' a = Some (t\<lparr>handler := None\<rparr>)"
    "idle e' = idle e" "max_pooled_handles e' = max_pooled_handles e"
proof -
  from assms(1) obtain t where t: "nodes e a = Some t" "handler t = Some h"
    and e': "e' = put_node a (t\<lparr>handler := None\<rparr>) e"
    by (auto simp: take_handler_def and_then_Inr deref_Inr split: option.splits)
  from waiting_put [OF assms(2,3) t(1), of "t\<lparr>handler := None\<rparr>"] t e'
  show "waiting e = add_mset h (waiting e')" by simp
qed (use assms(1) in \<open>auto simp: take_handler_def and_then_Inr deref_Inr split: option.splits\<close>)

lemma retire_facts:
  assumes "retire a scrub e = Inr e'" "nodes e a = Some t" "self t = a" "handler t = None"
    and "distinct (transfers e)" "a \<in> set (transfers e)"
  shows "waiting e' = waiting e" "posted e' = posted e" "invoked e' = invoked e"
    "transfers e' = remove1 a (transfers e)"
proof -
  have "waiting e = waiting_but a e" using waiting_split [of a e] assms by simp
  also have "waiting_but a e = waiting e'"
    using assms(1,5) retire_cases [OF assms(2,3), of scrub]
    by (auto simp: waiting_but_def waiting_def handler_of_def parked_def dropped_def
        intro!: arg_cong [where f = sum_list] split: if_splits)
  finally show "waiting e' = waiting e" by simp
qed (use assms(1) retire_cases [OF assms(2,3), of scrub] in
    \<open>auto simp: parked_def dropped_def split: if_splits\<close>)

text \<open>Taking the handler out and retiring the node, as three operations do.\<close>

lemma take_retire_facts:
  assumes "take_handler a e = Inr (h, e1)" "retire a scrub e1 = Inr e2"
    and "nodes e a = Some t" "self t = a" "distinct (transfers e)" "a \<in> set (transfers e)"
  shows "waiting e = add_mset h (waiting e2)" "posted e2 = posted e" "invoked e2 = invoked e"
    "handler t = Some h" "transfers e2 = remove1 a (transfers e)"
proof -
  note th = take_handler_facts [OF assms(1,5,6)]
  from th(5) assms(3) have n: "nodes e1 a = Some (t\<lparr>handler := None\<rparr>)" by auto
  note rt = retire_facts [OF assms(2) n]
  show "waiting e = add_mset h (waiting e2)" "posted e2 = posted e" "invoked e2 = invoked e"
    "transfers e2 = remove1 a (transfers e)"
    using th rt assms(4-6) by simp_all
  show "handler t = Some h"
    using assms(1,3) by (auto simp: take_handler_def and_then_Inr deref_Inr split: option.splits)
qed

section \<open>What each operation does to the ledger\<close>

definition accounted :: "engine \<Rightarrow> completion_handler multiset" where
  "accounted e = held_handlers e + called_handlers e"

lemmas accounted_defs = accounted_def held_handlers_def called_handlers_def

lemma engine_inv_distinct: "engine_inv e \<Longrightarrow> distinct (transfers e)"
  using nodes_ok_distinct [OF inv_nodes_ok] by (auto simp: engine_inv_def)

lemma engine_inv_node:
  assumes "engine_inv e" "a \<in> set (transfers e)"
  obtains t where "nodes e a = Some t" "in_flight e a t"
proof -
  from assms obtain t where "nodes e a = Some t"
    using transfers_node inv_nodes_ok unfolding engine_inv_def by blast
  moreover from this have "in_flight e a t"
    using assms in_flightD [of "{}" e a t] by (simp add: engine_inv_def)
  ultimately show ?thesis using that by blast
qed

lemma complete_transfer_effect:
  assumes inv: "engine_inv e" and m: "easy_handle m \<in> set (in_multi e)"
    and r: "complete_transfer m e = Inr e'"
  obtains a t h where "a \<in> set (transfers e)" "nodes e a = Some t" "eh t = easy_handle m"
    "handler t = Some h" "posted e' = posted e" "waiting e = add_mset h (waiting e')"
    "invoked e' = invoked e @ [(h, if msg_result m = CURLE_OK then No_error
        else make_error_code (msg_result m),
        \<lparr>curl_code = msg_result m, http_code = response_code m,
         data = buffer t, header_data = header_buffer t\<rparr>)]"
    "transfers e' = remove1 a (transfers e)"
proof -
  from inv m obtain a t where t: "a \<in> set (transfers e)" "nodes e a = Some t"
    "eh t = easy_handle m" "in_flight e a t" "private_of (easy_handle m) e = Inr a"
    by (rule in_multi_node)
  let ?t = "t\<lparr>buffer := moved_from_buffer m, header_buffer := moved_from_headers m\<rparr>"
  let ?e1 = "put_node a ?t (e\<lparr>in_multi := remove1 (easy_handle m) (in_multi e)\<rparr>)"
  from r t obtain h e2 e3 where s: "take_handler a ?e1 = Inr (h, e2)"
      "retire a (scrub_on_done t) e2 = Inr e3"
    and e': "e' = e3\<lparr>invoked := invoked e3 @ [(h, if msg_result m = CURLE_OK then No_error
        else make_error_code (msg_result m),
        \<lparr>curl_code = msg_result m, http_code = response_code m,
         data = buffer t, header_data = header_buffer t\<rparr>)]\<rparr>"
    by (auto simp: complete_transfer_def Let_def and_then_Inr)
  have d: "distinct (transfers e)" using inv by (rule engine_inv_distinct)
  have "waiting ?e1 = waiting e"
    using waiting_put [of "e\<lparr>in_multi := remove1 (easy_handle m) (in_multi e)\<rparr>" a t ?t] d t
      waiting_cong [of "e\<lparr>in_multi := remove1 (easy_handle m) (in_multi e)\<rparr>" e]
    by simp
  moreover note take_retire_facts [OF s, of ?t]
  ultimately have "waiting e = add_mset h (waiting e3)" "posted e3 = posted e"
    "invoked e3 = invoked e" "handler t = Some h" "transfers e3 = remove1 a (transfers e)"
    using t d by (simp_all add: in_flight_def)
  then show ?thesis
    using that [OF t(1,2,3), of h] e' waiting_cong [of e' e3] by simp
qed

lemma cancel_effect:
  assumes inv: "engine_inv e" and r: "cancel i e = Inr e'"
  obtains "e' = e" "i \<notin> tid_at e ` set (transfers e)"
  | a t h where "a \<in> set (transfers e)" "nodes e a = Some t" "tid t = i" "handler t = Some h"
      "waiting e = add_mset h (waiting e')" "invoked e' = invoked e"
      "posted e' = posted e @ [(h, Operation_aborted, error_response CURLE_ABORTED_BY_CALLBACK)]"
      "transfers e' = remove1 a (transfers e)"
proof -
  have ok: "nodes_ok e" using inv by (simp add: engine_inv_def engine_inv_but_def)
  from find_transfer_cases [OF ok order_refl, of i] show ?thesis
  proof (elim disjE conjE exE)
    assume "find_transfer (nodes e) i (transfers e) = Inr None" "i \<notin> tid_at e ` set (transfers e)"
    with r that(1) show ?thesis by (simp add: cancel_def)
  next
    fix a t
    assume f: "find_transfer (nodes e) i (transfers e) = Inr (Some a)"
      and t: "a \<in> set (transfers e)" "nodes e a = Some t" "tid t = i"
    let ?e1 = "e\<lparr>in_multi := remove1 (eh t) (in_multi e),
      running := (if running e > 0 then running e - 1 else running e)\<rparr>"
    from r f t obtain h e2 e3 where s: "take_handler a ?e1 = Inr (h, e2)"
        "retire a True e2 = Inr e3"
      and e': "e' = e3\<lparr>posted := posted e3 @
          [(h, Operation_aborted, error_response CURLE_ABORTED_BY_CALLBACK)]\<rparr>"
      by (auto simp: cancel_def Let_def and_then_Inr)
    have "self t = a" using in_flightD [of "{}" e a t] inv t by (simp add: engine_inv_def in_flight_def)
    with take_retire_facts [OF s, of t] t engine_inv_distinct [OF inv] waiting_cong [of ?e1 e]
    have "waiting e = add_mset h (waiting e3)" "posted e3 = posted e" "invoked e3 = invoked e"
      "handler t = Some h" "transfers e3 = remove1 a (transfers e)"
      by simp_all
    with e' waiting_cong [of e' e3] show ?thesis using that(2) [OF t, of h] by simp
  qed
qed

lemma waiting_entering:
  assumes "entering e a t e1"
  shows "waiting e1 = waiting e" "waiting_but a e1 = waiting e"
proof -
  have d: "distinct (transfers e1)"
    using assms nodes_ok_distinct [OF inv_nodes_ok] by (fastforce simp: entering_def)
  then have "\<forall>b\<in>set (transfers e). nodes e1 b = nodes e b"
    using assms unfolding entering_def by (metis distinct.simps(2))
  then have "waiting_but a e1 = waiting e"
    using assms by (auto simp: entering_def waiting_but_def waiting_def handler_of_def
        intro!: arg_cong [where f = sum_list])
  with waiting_split [of a e1] assms show "waiting e1 = waiting e" "waiting_but a e1 = waiting e"
    by (simp_all add: entering_def)
qed

lemma start_effect:
  assumes inv: "engine_inv e" and c: "start_contract ans e" and r: "start ans r h e = Inr e'"
  obtains (added) "waiting e' = add_mset h (waiting e)" "posted e' = posted e" "invoked e' = invoked e"
      "running e' = running e"
  | (failed) code where "code \<noteq> CURLE_OK" "waiting e' = waiting e" "invoked e' = invoked e"
      "posted e' = posted e @ [(h, make_error_code code, error_response code)]"
proof (cases "acquire ans e")
  case None
  with r have "e' = fail h CURLE_FAILED_INIT e" by (simp add: start_def)
  with failed [of CURLE_FAILED_INIT] waiting_cong [of e' e] show ?thesis by (simp add: fail_def)
next
  case (Some e1)
  from acquire_inv [OF inv c Some] obtain a t where en: "entering e a t e1" by blast
  then have tr: "transfers e1 = a # transfers e" and t: "nodes e1 a = Some t"
    and i1: "engine_inv_but {a} e1" and ht: "handler t = None"
    and same: "posted e1 = posted e" "invoked e1 = invoked e" "running e1 = running e"
    unfolding entering_def by auto
  let ?e2 = "prepare ans r h a t e1"
  let ?n = "prepared_node ans r h a t e1"
  have d: "distinct (transfers e1)" using nodes_ok_distinct [OF inv_nodes_ok [OF i1]] by simp
  have w2: "waiting ?e2 = add_mset h (waiting e)"
    using waiting_put [OF d _ t, of ?n] waiting_cong [of ?e2 "put_node a ?n e1"] tr ht
      waiting_entering [OF en] by simp
  show ?thesis
  proof (cases "add_handle ans = CURLM_OK")
    case True
    with r Some tr t have "e' = ?e2\<lparr>in_multi := eh t # in_multi ?e2\<rparr>"
      by (simp add: start_def Let_def)
    with added w2 same waiting_cong [of e' ?e2] show ?thesis by simp
  next
    case False
    with r Some tr t obtain h' e3 e4 where s: "take_handler a ?e2 = Inr (h', e3)"
        "retire a True e3 = Inr e4"
      and e': "e' = fail h' (if add_handle ans = CURLM_OUT_OF_MEMORY
                 then CURLE_OUT_OF_MEMORY else CURLE_FAILED_INIT) e4"
      by (auto simp: start_def Let_def and_then_Inr)
    from take_retire_facts [OF s, of ?n] d tr
    have "waiting ?e2 = add_mset h' (waiting e4)" "posted e4 = posted e1" "invoked e4 = invoked e1"
      "h' = h" by simp_all
    with w2 e' same waiting_cong [of e' e4] show ?thesis
      using failed [of "if add_handle ans = CURLM_OUT_OF_MEMORY
          then CURLE_OUT_OF_MEMORY else CURLE_FAILED_INIT"] by (simp add: fail_def)
  qed
qed

section \<open>The engine as a system\<close>

text \<open>
  libcurl hands received bytes to the function set on the handle, with the data pointer set on
  it; a function a hook installed is not the client's business.
\<close>

definition receive_body :: "handle \<Rightarrow> string \<Rightarrow> engine \<Rightarrow> engine outcome" where
  "receive_body h bytes e =
     (if last_set (opts e h) CURLOPT_WRITEFUNCTION = Some (Fn Body_write_cb)
      then (case last_set (opts e h) CURLOPT_WRITEDATA of
              Some (Transfer_ptr a) \<Rightarrow> and_then (body_write_cb a bytes e) (\<lambda>(n, e). Inr e)
            | _ \<Rightarrow> Inl Undefined)
      else Inr e)"

definition receive_header :: "handle \<Rightarrow> string \<Rightarrow> engine \<Rightarrow> engine outcome" where
  "receive_header h bytes e =
     (if last_set (opts e h) CURLOPT_HEADERFUNCTION = Some (Fn Header_cb)
      then (case last_set (opts e h) CURLOPT_HEADERDATA of
              Some (Header_buffer_ptr a) \<Rightarrow> and_then (header_cb a bytes e) (\<lambda>(n, e). Inr e)
            | _ \<Rightarrow> Inl Undefined)
      else Inr e)"

text \<open>
  \<open>Count n\<close> is libcurl writing its number of running transfers through the pointer that
  \<open>curl_multi_socket_action\<close> is given.
\<close>

datatype engine_op =
    Start start_answers request completion_handler
  | Emit slot_ref
  | Deliver message
  | Run_posted nat
  | Body_bytes handle string
  | Header_bytes handle string
  | Count int

fun engine_do :: "engine_op \<Rightarrow> engine \<Rightarrow> engine outcome" where
  "engine_do (Start ans r h) e =
     expect (start_contract ans e \<and> hook_ok (hook_opts r)) (start ans r h e)"
| "engine_do (Emit s) e = emit s e"
| "engine_do (Deliver m) e = expect (message_contract m e) (completion_step m e)"
| "engine_do (Run_posted i) e = Inr (run_posted i e)"
| "engine_do (Body_bytes h bytes) e = expect (h \<in> set (in_multi e)) (receive_body h bytes e)"
| "engine_do (Header_bytes h bytes) e = expect (h \<in> set (in_multi e)) (receive_header h bytes e)"
| "engine_do (Count n) e = expect (0 \<le> n) (Inr (e\<lparr>running := n\<rparr>))"

definition engine_step :: "engine \<Rightarrow> engine_op \<Rightarrow> engine \<Rightarrow> bool" where
  "engine_step e op e' \<longleftrightarrow> engine_do op e = Inr e'"

fun issued_by :: "engine_op \<Rightarrow> completion_handler multiset" where
  "issued_by (Start ans r h) = {#h#}"
| "issued_by _ = {#}"

definition issued_handlers :: "engine_op list \<Rightarrow> completion_handler multiset" where
  "issued_handlers ops = sum_list (map issued_by ops)"

lemma receive_body_cases:
  assumes "engine_inv e" "h \<in> set (in_multi e)"
  obtains "receive_body h bytes e = Inr e"
      "last_set (opts e h) CURLOPT_WRITEFUNCTION \<noteq> Some (Fn Body_write_cb)"
  | a t where "a \<in> set (transfers e)" "nodes e a = Some t" "eh t = h"
      "last_set (opts e h) CURLOPT_WRITEFUNCTION = Some (Fn Body_write_cb)"
      "receive_body h bytes e = Inr (put_node a (t\<lparr>buffer := buffer t @ bytes\<rparr>) e)"
proof -
  obtain a t where "a \<in> set (transfers e)" "nodes e a = Some t" "eh t = h" "in_flight e a t"
    using assms by (rule in_multi_node)
  then show ?thesis
    using that(1) that(2) [of a t]
    by (cases "last_set (opts e h) CURLOPT_WRITEFUNCTION = Some (Fn Body_write_cb)")
      (simp_all add: receive_body_def body_write_cb_def in_flight_def)
qed

lemma receive_header_cases:
  assumes "engine_inv e" "h \<in> set (in_multi e)"
  obtains "receive_header h bytes e = Inr e"
  | a t where "a \<in> set (transfers e)" "nodes e a = Some t" "eh t = h"
      "receive_header h bytes e = Inr (put_node a (t\<lparr>header_buffer := header_buffer t @ bytes\<rparr>) e)"
proof -
  obtain a t where "a \<in> set (transfers e)" "nodes e a = Some t" "eh t = h" "in_flight e a t"
    using assms by (rule in_multi_node)
  then show ?thesis
    using that(1) that(2) [of a t]
    by (cases "last_set (opts e h) CURLOPT_HEADERFUNCTION = Some (Fn Header_cb)")
      (simp_all add: receive_header_def header_cb_def in_flight_def)
qed

lemma count_inv: "engine_inv e \<Longrightarrow> 0 \<le> n \<Longrightarrow> engine_inv (e\<lparr>running := n\<rparr>)"
  unfolding engine_inv_def engine_inv_but_def nodes_ok_def
  by (simp add: in_flight_def warm_def eh_at_def tid_at_def inj_on_def)

lemma engine_do_inv: "engine_inv e \<Longrightarrow> safely engine_inv (engine_do op e)"
proof (cases op)
  case (Body_bytes h bytes)
  assume inv: "engine_inv e"
  have "safely engine_inv (receive_body h bytes e)" if h: "h \<in> set (in_multi e)"
    using inv h
  proof (cases rule: receive_body_cases [of _ _ bytes])
    case (2 a t)
    then show ?thesis
      using put_buffers_inv [OF inv, of a t "header_buffer t" "buffer t @ bytes"] by simp
  qed (use inv in simp)
  then show ?thesis by (simp add: Body_bytes safely_expect)
next
  case (Header_bytes h bytes)
  assume inv: "engine_inv e"
  have "safely engine_inv (receive_header h bytes e)" if h: "h \<in> set (in_multi e)"
    using inv h
  proof (cases rule: receive_header_cases [of _ _ bytes])
    case (2 a t)
    then show ?thesis
      using put_buffers_inv [OF inv, of a t "header_buffer t @ bytes" "buffer t"] by simp
  qed (use inv in simp)
  then show ?thesis by (simp add: Header_bytes safely_expect)
qed (auto intro!: safely_expect intro: start_inv emit_inv completion_step_inv run_posted_inv count_inv)

lemma emit_effect:
  assumes "engine_inv e" "emit s e = Inr e'"
  shows "invoked e' = invoked e" "held_handlers e' = held_handlers e"
proof -
  have "invoked e' = invoked e \<and> held_handlers e' = held_handlers e"
  proof (cases "slots e s")
    case None
    with assms(2) show ?thesis by (simp add: emit_def)
  next
    case (Some i)
    with assms(2) have "cancel i e = Inr e'" by (simp add: emit_def)
    with assms(1) show ?thesis by (cases rule: cancel_effect) (simp_all add: held_handlers_def)
  qed
  then show "invoked e' = invoked e" "held_handlers e' = held_handlers e" by simp_all
qed

lemma run_posted_effect:
  "held_handlers (run_posted i e) + called_handlers (run_posted i e) =
     held_handlers e + called_handlers e"
  "called_handlers e \<subseteq># called_handlers (run_posted i e)"
proof -
  show "called_handlers e \<subseteq># called_handlers (run_posted i e)"
    by (simp add: called_handlers_def run_posted_def)
  show "held_handlers (run_posted i e) + called_handlers (run_posted i e) =
     held_handlers e + called_handlers e"
  proof (cases "i < length (posted e)")
    case True
    let ?e = "run_posted i e"
    have "waiting ?e = waiting e" by (rule waiting_cong) (simp_all add: run_posted_def)
    moreover have "image_mset fst (mset (posted e)) =
        add_mset (fst (posted e ! i)) (image_mset fst (mset (posted ?e)))"
      using True nth_split_mset [OF True]
      by (simp add: run_posted_def) (metis image_mset_add_mset image_mset_union)
    ultimately show ?thesis
      using True by (simp add: held_handlers_def called_handlers_def) (simp add: run_posted_def)
  qed (simp add: run_posted_def)
qed

lemma bytes_ledger:
  assumes "engine_inv e" "a \<in> set (transfers e)" "nodes e a = Some t"
  shows "waiting (put_node a (t\<lparr>buffer := b, header_buffer := hb\<rparr>) e) = waiting e"
  using waiting_put [of e a t "t\<lparr>buffer := b, header_buffer := hb\<rparr>"] engine_inv_distinct assms
  by simp

lemma completion_effect:
  assumes "engine_inv e" "message_contract m e" "completion_step m e = Inr e'"
  shows "held_handlers e' + called_handlers e' = held_handlers e + called_handlers e"
    "called_handlers e \<subseteq># called_handlers e'"
proof -
  have "held_handlers e' + called_handlers e' = held_handlers e + called_handlers e \<and>
      called_handlers e \<subseteq># called_handlers e'"
  proof (cases "msg_done m")
    case True
    with assms have "easy_handle m \<in> set (in_multi e)" "complete_transfer m e = Inr e'"
      by (simp_all add: message_contract_def completion_step_def)
    with assms(1) show ?thesis
      by (cases rule: complete_transfer_effect) (simp_all add: held_handlers_def called_handlers_def)
  qed (use assms(3) in \<open>simp add: completion_step_def\<close>)
  then show "held_handlers e' + called_handlers e' = held_handlers e + called_handlers e"
    "called_handlers e \<subseteq># called_handlers e'" by simp_all
qed

lemma start_ledger:
  assumes "engine_inv e" "start_contract ans e" "start ans r h e = Inr e'"
  shows "held_handlers e' = add_mset h (held_handlers e)" "invoked e' = invoked e"
proof -
  have "held_handlers e' = add_mset h (held_handlers e) \<and> invoked e' = invoked e"
    using assms by (cases rule: start_effect) (simp_all add: held_handlers_def)
  then show "held_handlers e' = add_mset h (held_handlers e)" "invoked e' = invoked e" by simp_all
qed

lemma bytes_effect:
  assumes "engine_inv e" "h \<in> set (in_multi e)"
    "receive_body h bytes e = Inr e' \<or> receive_header h bytes e = Inr e'"
  shows "held_handlers e' = held_handlers e" "invoked e' = invoked e"
proof -
  have "held_handlers e' = held_handlers e \<and> invoked e' = invoked e"
    using assms(3)
  proof
    assume r: "receive_body h bytes e = Inr e'"
    from assms(1,2) show ?thesis
    proof (cases rule: receive_body_cases [of _ _ bytes])
      case (2 a t)
      then show ?thesis
        using r bytes_ledger [OF assms(1) 2(1,2), of "header_buffer t" "buffer t @ bytes"]
        by (auto simp: held_handlers_def)
    qed (use r in simp)
  next
    assume r: "receive_header h bytes e = Inr e'"
    from assms(1,2) show ?thesis
    proof (cases rule: receive_header_cases [of _ _ bytes])
      case (2 a t)
      then show ?thesis
        using r bytes_ledger [OF assms(1) 2(1,2), of "header_buffer t @ bytes" "buffer t"]
        by (auto simp: held_handlers_def)
    qed (use r in simp)
  qed
  then show "held_handlers e' = held_handlers e" "invoked e' = invoked e" by simp_all
qed

lemma engine_do_ledger:
  assumes inv: "engine_inv e" and d: "engine_do op e = Inr e'"
  shows "held_handlers e' + called_handlers e' = held_handlers e + called_handlers e + issued_by op
    \<and> called_handlers e \<subseteq># called_handlers e'"
proof (cases op)
  case (Start ans r h)
  with d start_ledger [OF inv, of ans r h e'] show ?thesis
    by (simp add: expect_Inr called_handlers_def)
next
  case (Emit s)
  with d emit_effect [OF inv, of s e'] show ?thesis by (simp add: called_handlers_def)
next
  case (Deliver m)
  with d completion_effect [OF inv, of m e'] show ?thesis by (simp add: expect_Inr)
next
  case (Run_posted i)
  with d run_posted_effect [where i = i and e = e] show ?thesis by auto
next
  case (Body_bytes h bytes)
  with d bytes_effect [OF inv, of h bytes e'] show ?thesis
    by (simp add: expect_Inr called_handlers_def)
next
  case (Header_bytes h bytes)
  with d bytes_effect [OF inv, of h bytes e'] show ?thesis
    by (simp add: expect_Inr called_handlers_def)
next
  case (Count n)
  with d waiting_cong [of e' e] show ?thesis
    by (auto simp: expect_Inr held_handlers_def called_handlers_def)
qed

interpretation el: ledger engine_step engine_inv held_handlers called_handlers issued_by
proof unfold_locales
  show "engine_inv e'" if "engine_inv e" "engine_step e op e'" for e op e'
    using that engine_do_inv [of e op] by (auto simp: engine_step_def safely_def)
qed (use engine_do_ledger in \<open>auto simp: engine_step_def\<close>)

lemma new_engine_ledger [simp]:
  "held_handlers (new_engine version max_pooled) = {#}"
  "called_handlers (new_engine version max_pooled) = {#}"
  by (simp_all add: held_handlers_def called_handlers_def waiting_def new_engine_def)

lemma reachable_engine_inv:
  "runs engine_step (new_engine version max_pooled) ops e \<Longrightarrow> engine_inv e"
  using el.inv_runs new_engine_inv by blast

section \<open>Bytes of one transfer\<close>

fun bytes_only :: "engine_op \<Rightarrow> bool" where
  "bytes_only (Body_bytes h bytes) = True"
| "bytes_only (Header_bytes h bytes) = True"
| "bytes_only _ = False"

fun body_of :: "handle \<Rightarrow> engine_op \<Rightarrow> string" where
  "body_of h (Body_bytes h' bytes) = (if h' = h then bytes else [])"
| "body_of h _ = []"

fun header_of :: "handle \<Rightarrow> engine_op \<Rightarrow> string" where
  "header_of h (Header_bytes h' bytes) = (if h' = h then bytes else [])"
| "header_of h _ = []"

text \<open>A handle whose data callbacks are the client's own, leading to node \<open>a\<close>.\<close>

definition own_callbacks :: "engine \<Rightarrow> addr \<Rightarrow> transfer \<Rightarrow> bool" where
  "own_callbacks e a t \<longleftrightarrow>
     a \<in> set (transfers e) \<and> nodes e a = Some t \<and>
     last_set (opts e (eh t)) CURLOPT_WRITEFUNCTION = Some (Fn Body_write_cb) \<and>
     last_set (opts e (eh t)) CURLOPT_HEADERFUNCTION = Some (Fn Header_cb)"

lemma bytes_step:
  assumes inv: "engine_inv e" and own: "own_callbacks e a t" and op: "bytes_only op"
    and s: "engine_step e op e'"
  shows "own_callbacks e' a (t\<lparr>buffer := buffer t @ body_of (eh t) op,
      header_buffer := header_buffer t @ header_of (eh t) op\<rparr>) \<and> in_multi e' = in_multi e"
proof -
  have ok: "nodes_ok e" using inv inv_nodes_ok by (auto simp: engine_inv_def)
  have a: "a \<in> set (transfers e)" "nodes e a = Some t" using own by (simp_all add: own_callbacks_def)
  have fl: "in_flight e a t" using engine_inv_node [OF inv a(1)] a(2) by auto
  have dl: "last_set (opts e (eh t)) CURLOPT_WRITEDATA = Some (Transfer_ptr a)"
    "last_set (opts e (eh t)) CURLOPT_HEADERDATA = Some (Header_buffer_ptr a)"
    using fl own by (simp_all add: in_flight_def own_callbacks_def)
  have other: "own_callbacks (put_node b u e) a t" if "b \<noteq> a" for b u
    using own that by (simp add: own_callbacks_def)
  show ?thesis
  proof (cases op)
    case (Body_bytes h bytes)
    then have h: "h \<in> set (in_multi e)" "receive_body h bytes e = Inr e'"
      using s by (simp_all add: engine_step_def expect_Inr)
    show ?thesis
    proof (cases "h = eh t")
      case True
      then have "e' = put_node a (t\<lparr>buffer := buffer t @ bytes\<rparr>) e"
        using h(2) dl own a(2) by (simp add: receive_body_def body_write_cb_def own_callbacks_def)
      then show ?thesis using own True Body_bytes by (simp add: own_callbacks_def)
    next
      case False
      from inv h(1) show ?thesis
      proof (cases rule: receive_body_cases [of _ _ bytes])
        case (2 b u)
        with False a have "b \<noteq> a" by auto
        from other [OF this] 2 h(2) False Body_bytes show ?thesis by auto
      qed (use False h own Body_bytes in simp)
    qed
  next
    case (Header_bytes h bytes)
    then have h: "h \<in> set (in_multi e)" "receive_header h bytes e = Inr e'"
      using s by (simp_all add: engine_step_def expect_Inr)
    show ?thesis
    proof (cases "h = eh t")
      case True
      then have "e' = put_node a (t\<lparr>header_buffer := header_buffer t @ bytes\<rparr>) e"
        using h(2) dl own a(2) by (simp add: receive_header_def header_cb_def own_callbacks_def)
      then show ?thesis using own True Header_bytes by (simp add: own_callbacks_def)
    next
      case False
      from inv h(1) show ?thesis
      proof (cases rule: receive_header_cases [of _ _ bytes])
        case (2 b u)
        with False a have "b \<noteq> a" by auto
        from other [OF this] 2 h(2) False Header_bytes show ?thesis by auto
      qed (use False h own Header_bytes in simp)
    qed
  qed (use op in simp_all)
qed

lemma bytes_run:
  "runs engine_step e ops e' \<Longrightarrow> engine_inv e \<Longrightarrow> own_callbacks e a t \<Longrightarrow> list_all bytes_only ops \<Longrightarrow>
     own_callbacks e' a (t\<lparr>buffer := buffer t @ concat (map (body_of (eh t)) ops),
       header_buffer := header_buffer t @ concat (map (header_of (eh t)) ops)\<rparr>) \<and>
     in_multi e' = in_multi e"
proof (induction arbitrary: t rule: runs.induct)
  case (runs_nil e)
  then show ?case by simp
next
  case (runs_cons e op e1 ops e2)
  from bytes_step [OF runs_cons.prems(1,2) _ runs_cons.hyps(1)] runs_cons.prems(3)
  have s: "own_callbacks e1 a (t\<lparr>buffer := buffer t @ body_of (eh t) op,
      header_buffer := header_buffer t @ header_of (eh t) op\<rparr>)" "in_multi e1 = in_multi e"
    by simp_all
  have "engine_inv e1" using el.inv_step runs_cons by blast
  from runs_cons.IH [OF this s(1)] runs_cons.prems(3) s(2) show ?case by simp
qed

end
