(* ===== verification/Transfers_Facts.thy ===== *)
theory Transfers_Facts
  imports Transfers_System
begin

text \<open>
  Facts about reachable engine states: executable runs (\<open>engine_run\<close>), what no operation
  changes, the cancellation slots, and what \<open>start\<close> sets up. The properties of the engine in
  the root theory are read off these.
\<close>

section \<open>Executable runs\<close>

interpretation eng: component engine_do engine_inv
  by unfold_locales (rule engine_do_inv)

abbreviation engine_run :: "engine_op list \<Rightarrow> engine \<Rightarrow> engine outcome" where
  "engine_run \<equiv> run_all engine_do"

lemma engine_run_runs: "engine_run ops e = Inr e' \<longleftrightarrow> runs engine_step e ops e'"
  by (simp add: run_all_runs engine_step_def [abs_def])

lemma engine_run_inv:
  "engine_run ops (new_engine version max_pooled) = Inr e \<Longrightarrow> engine_inv e"
  by (rule eng.run_inv [OF new_engine_inv])

section \<open>The pool cap and the library version are fixed\<close>

definition fixed_part :: "engine \<Rightarrow> nat \<times> nat" where
  "fixed_part e = (max_pooled_handles e, libcurl_version e)"

lemma fixed_part_update [simp]:
  "fixed_part (e\<lparr>nodes := x1\<rparr>) = fixed_part e"
  "fixed_part (e\<lparr>transfers := x2\<rparr>) = fixed_part e"
  "fixed_part (e\<lparr>idle := x3\<rparr>) = fixed_part e"
  "fixed_part (e\<lparr>running := x4\<rparr>) = fixed_part e"
  "fixed_part (e\<lparr>next_transfer_id := x5\<rparr>) = fixed_part e"
  "fixed_part (e\<lparr>opts := x6\<rparr>) = fixed_part e"
  "fixed_part (e\<lparr>in_multi := x7\<rparr>) = fixed_part e"
  "fixed_part (e\<lparr>open_handles := x8\<rparr>) = fixed_part e"
  "fixed_part (e\<lparr>cleaned := x12\<rparr>) = fixed_part e"
  "fixed_part (e\<lparr>slots := x9\<rparr>) = fixed_part e"
  "fixed_part (e\<lparr>posted := x10\<rparr>) = fixed_part e"
  "fixed_part (e\<lparr>invoked := x11\<rparr>) = fixed_part e"
  by (simp_all add: fixed_part_def)

lemma retire_fixed: "retire a scrub e = Inr e' \<Longrightarrow> fixed_part e' = fixed_part e"
  by (auto simp: retire_def curl_easy_cleanup_def and_then_Inr Let_def split: if_splits)

lemma take_handler_fixed: "take_handler a e = Inr (h, e') \<Longrightarrow> fixed_part e' = fixed_part e"
  by (auto simp: take_handler_def and_then_Inr split: option.splits)

lemma prepare_fixed [simp]: "fixed_part (prepare ans r h a t e) = fixed_part e"
  by (simp add: fixed_part_def)

lemma acquire_fixed: "acquire ans e = Some e' \<Longrightarrow> fixed_part e' = fixed_part e"
  by (auto simp: acquire_def split: list.splits option.splits)

lemma start_fixed: "start ans r h e = Inr e' \<Longrightarrow> fixed_part e' = fixed_part e"
  by (auto simp: start_def and_then_Inr Let_def fail_def
      dest!: retire_fixed take_handler_fixed acquire_fixed
      split: option.splits list.splits if_splits)

lemma cancel_fixed: "cancel i e = Inr e' \<Longrightarrow> fixed_part e' = fixed_part e"
  by (auto simp: cancel_def and_then_Inr Let_def
      dest!: retire_fixed take_handler_fixed split: option.splits if_splits)

lemma complete_transfer_fixed: "complete_transfer m e = Inr e' \<Longrightarrow> fixed_part e' = fixed_part e"
  by (auto simp: complete_transfer_def and_then_Inr Let_def dest!: retire_fixed take_handler_fixed)

lemma receive_fixed:
  "receive_body h bytes e = Inr e' \<Longrightarrow> fixed_part e' = fixed_part e"
  "receive_header h bytes e = Inr e' \<Longrightarrow> fixed_part e' = fixed_part e"
  by (auto simp: receive_body_def receive_header_def body_write_cb_def header_cb_def and_then_Inr
      split: if_splits option.splits opt_value.splits)

lemma engine_do_fixed: "engine_do op e = Inr e' \<Longrightarrow> fixed_part e' = fixed_part e"
  by (cases op)
    (auto simp: expect_Inr emit_def completion_step_def run_posted_def
      dest: start_fixed cancel_fixed complete_transfer_fixed receive_fixed
      split: option.splits if_splits)

lemma engine_run_fixed: "engine_run ops e = Inr e' \<Longrightarrow> fixed_part e' = fixed_part e"
  by (induction ops arbitrary: e) (auto simp: and_then_Inr dest: engine_do_fixed)

lemma reachable_max_pooled:
  "engine_run ops (new_engine version max_pooled) = Inr e \<Longrightarrow>
     max_pooled_handles e = max_pooled \<and> libcurl_version e = version"
  by (drule engine_run_fixed) (simp add: fixed_part_def new_engine_def)

section \<open>Slots name their own transfer only\<close>

definition slots_ok :: "engine \<Rightarrow> bool" where
  "slots_ok e \<longleftrightarrow> (\<forall>s i. slots e s = Some i \<longrightarrow> i \<le> next_transfer_id e \<and>
     (\<forall>a t. a \<in> set (transfers e) \<longrightarrow> nodes e a = Some t \<longrightarrow> tid t = i \<longrightarrow>
        (\<exists>h. handler t = Some h \<and> cancel_slot h = Some s)))"

text \<open>Operations that only remove transfers, or touch their data, keep it.\<close>

definition fewer_transfers :: "engine \<Rightarrow> engine \<Rightarrow> bool" where
  "fewer_transfers e e' \<longleftrightarrow>
     slots e' = slots e \<and> next_transfer_id e' = next_transfer_id e \<and>
     set (transfers e') \<subseteq> set (transfers e) \<and>
     (\<forall>a t'. a \<in> set (transfers e') \<longrightarrow> nodes e' a = Some t' \<longrightarrow>
        (\<exists>t. nodes e a = Some t \<and> tid t = tid t' \<and> handler t = handler t'))"

lemma fewer_slots_ok: "slots_ok e \<Longrightarrow> fewer_transfers e e' \<Longrightarrow> slots_ok e'"
  unfolding slots_ok_def fewer_transfers_def by (metis subsetD)

lemma take_retire_fewer:
  assumes "take_handler a e = Inr (h, e1)" "retire a scrub e1 = Inr e2"
    and "nodes e a = Some t" "self t = a" "distinct (transfers e)"
  shows "fewer_transfers e e2"
proof -
  from assms(1,3) have e1: "e1 = put_node a (t\<lparr>handler := None\<rparr>) e"
    by (auto simp: take_handler_def split: option.splits)
  have "e2 = (if length (idle e1) < max_pooled_handles e1 then parked else dropped)
      a (t\<lparr>handler := None\<rparr>)
      (if scrub then configure_handle (libcurl_version e1) else opts e1 (eh t)) e1"
    using retire_done(2) [OF assms(2), of "t\<lparr>handler := None\<rparr>"] assms(4) by (simp add: e1)
  with assms(2,5) show ?thesis
    by (auto simp: e1 fewer_transfers_def parked_def dropped_def split: if_splits)
qed

lemma fewer_cong:
  assumes "fewer_transfers e e'" "slots e2 = slots e'" "next_transfer_id e2 = next_transfer_id e'"
    "transfers e2 = transfers e'" "nodes e2 = nodes e'"
  shows "fewer_transfers e e2"
  using assms by (simp add: fewer_transfers_def)

lemma fewer_cong_left:
  assumes "fewer_transfers e1 e'" "slots e1 = slots e" "next_transfer_id e1 = next_transfer_id e"
    "transfers e1 = transfers e"
    "\<And>a t. nodes e1 a = Some t \<Longrightarrow> \<exists>u. nodes e a = Some u \<and> tid u = tid t \<and> handler u = handler t"
  shows "fewer_transfers e e'"
  using assms unfolding fewer_transfers_def by metis

lemma complete_transfer_fewer:
  assumes inv: "engine_inv e" and m: "easy_handle m \<in> set (in_multi e)"
    and r: "complete_transfer m e = Inr e'"
  shows "fewer_transfers e e'"
proof -
  from inv m obtain a t where t: "a \<in> set (transfers e)" "nodes e a = Some t"
    "eh t = easy_handle m" "in_flight e a t" "private_of (easy_handle m) e = Inr a"
    by (rule in_multi_node)
  let ?t = "t\<lparr>buffer := moved_from_buffer m, header_buffer := moved_from_headers m\<rparr>"
  let ?e1 = "put_node a ?t (e\<lparr>in_multi := remove1 (easy_handle m) (in_multi e)\<rparr>)"
  from r t obtain h e2 e3 q where s: "take_handler a ?e1 = Inr (h, e2)"
      "retire a (scrub_on_done t) e2 = Inr e3" and e': "e' = e3\<lparr>invoked := q\<rparr>"
    by (auto simp: complete_transfer_def Let_def and_then_Inr)
  have "fewer_transfers ?e1 e3"
    by (rule take_retire_fewer [OF s, of ?t])
      (use t engine_inv_distinct [OF inv] in \<open>auto simp: in_flight_def\<close>)
  then have "fewer_transfers ?e1 e'" by (rule fewer_cong) (simp_all add: e')
  then show ?thesis
    by (rule fewer_cong_left) (use t in \<open>auto split: if_splits\<close>)
qed

lemma cancel_fewer:
  assumes inv: "engine_inv e" and r: "cancel i e = Inr e'"
  shows "fewer_transfers e e'"
proof -
  have ok: "nodes_ok e" using inv by (simp add: engine_inv_def engine_inv_but_def)
  from find_transfer_cases [OF ok order_refl, of i] show ?thesis
  proof (elim disjE conjE exE)
    assume "find_transfer (nodes e) i (transfers e) = Inr None"
    with r show ?thesis by (simp add: cancel_def fewer_transfers_def)
  next
    fix a t
    assume f: "find_transfer (nodes e) i (transfers e) = Inr (Some a)"
      and t: "a \<in> set (transfers e)" "nodes e a = Some t" "tid t = i"
    let ?e1 = "e\<lparr>in_multi := remove1 (eh t) (in_multi e),
      running := (if running e > 0 then running e - 1 else running e)\<rparr>"
    from r f t obtain h e2 e3 q where s: "take_handler a ?e1 = Inr (h, e2)"
        "retire a True e2 = Inr e3" and e': "e' = e3\<lparr>posted := q\<rparr>"
      by (auto simp: cancel_def Let_def and_then_Inr)
    have "self t = a" using in_flightD [of "{}" e a t] inv t by (simp add: engine_inv_def in_flight_def)
    with take_retire_fewer [OF s, of t] t engine_inv_distinct [OF inv]
    have "fewer_transfers ?e1 e3" by simp
    then have "fewer_transfers ?e1 e'" by (rule fewer_cong) (simp_all add: e')
    then show ?thesis by (rule fewer_cong_left) simp_all
  qed
qed

lemma receive_fewer:
  assumes inv: "engine_inv e" and h: "h \<in> set (in_multi e)"
    and r: "receive_body h bytes e = Inr e' \<or> receive_header h bytes e = Inr e'"
  shows "fewer_transfers e e'"
  using r
proof
  assume r: "receive_body h bytes e = Inr e'"
  from inv h show ?thesis
    by (cases rule: receive_body_cases [of _ _ bytes])
      (use r in \<open>auto simp: fewer_transfers_def\<close>)
next
  assume r: "receive_header h bytes e = Inr e'"
  from inv h show ?thesis
    by (cases rule: receive_header_cases [of _ _ bytes])
      (use r in \<open>auto simp: fewer_transfers_def\<close>)
qed

section \<open>What \<open>start\<close> sets up\<close>

definition starting :: "start_answers \<Rightarrow> request \<Rightarrow> completion_handler \<Rightarrow> engine \<Rightarrow> addr \<Rightarrow>
    transfer \<Rightarrow> engine \<Rightarrow> bool" where
  "starting ans r h e a t e1 \<longleftrightarrow>
     acquire ans e = Some e1 \<and> entering e a t e1 \<and> next_transfer_id e1 \<noteq> - 1"

lemma start_cases:
  assumes inv: "engine_inv e" and c: "start_contract ans e" and r: "start ans r h e = Inr e'"
  obtains (no_handle) "idle e = []" "easy_init ans = None" "e' = fail h CURLE_FAILED_INIT e"
  | (added) a t e1 where "starting ans r h e a t e1" "add_handle ans = CURLM_OK"
      "e' = (prepare ans r h a t e1)\<lparr>in_multi := eh t # in_multi e1\<rparr>"
  | (refused) a t e1 h' e2 e3 where "starting ans r h e a t e1" "add_handle ans \<noteq> CURLM_OK"
      "take_handler a (prepare ans r h a t e1) = Inr (h', e2)" "retire a True e2 = Inr e3"
      "e' = fail h' (if add_handle ans = CURLM_OUT_OF_MEMORY then CURLE_OUT_OF_MEMORY
                     else CURLE_FAILED_INIT) e3"
proof (cases "acquire ans e")
  case None
  then have "idle e = []" "easy_init ans = None"
    by (simp_all add: acquire_def split: list.splits option.splits)
  with r None no_handle show ?thesis by (simp add: start_def)
next
  case (Some e1)
  from acquire_inv [OF inv c Some] obtain a t where en: "entering e a t e1" by blast
  then have tr: "transfers e1 = a # transfers e" "nodes e1 a = Some t"
    by (simp_all add: entering_def)
  have st: "starting ans r h e a t e1"
    using Some en c unfolding starting_def start_contract_def by (metis entering_def)
  show ?thesis
  proof (cases "add_handle ans = CURLM_OK")
    case True
    with r Some tr added [OF st True] show ?thesis by (simp add: start_def Let_def)
  next
    case False
    with r Some tr obtain h' e2 e3 where
      "take_handler a (prepare ans r h a t e1) = Inr (h', e2)" "retire a True e2 = Inr e3"
      "e' = fail h' (if add_handle ans = CURLM_OUT_OF_MEMORY then CURLE_OUT_OF_MEMORY
                     else CURLE_FAILED_INIT) e3"
      by (auto simp: start_def Let_def and_then_Inr)
    with refused [OF st False] show ?thesis by blast
  qed
qed

lemma start_returns:
  assumes "engine_inv e" "start_contract ans e" "hook_ok (hook_opts r)"
  shows "\<exists>e'. start ans r h e = Inr e'"
proof -
  have "retire a scrub s \<noteq> Inl Breach" "take_handler a s \<noteq> Inl Breach" for a scrub s
    by (auto simp: retire_def curl_easy_cleanup_def take_handler_def and_then_def deref_def Let_def
        split: option.splits sum.splits)
  then have "start ans r h e \<noteq> Inl Breach"
    by (auto simp: start_def and_then_def deref_def Let_def
        split: option.splits list.splits sum.splits prod.splits)
  with start_inv [OF assms, of h] show ?thesis
    by (cases "start ans r h e"; cases "projl (start ans r h e)") auto
qed

lemma refused_start:
  assumes "starting ans r h e a t e1"
    and "take_handler a (prepare ans r h a t e1) = Inr (h', e2)" "retire a True e2 = Inr e3"
  shows "h' = h" "posted e3 = posted e" "transfers e3 = transfers e" "in_multi e3 = in_multi e"
proof -
  let ?p = "prepare ans r h a t e1"
  have en: "entering e a t e1" and ac: "acquire ans e = Some e1"
    using assms(1) by (simp_all add: starting_def)
  have d: "distinct (transfers ?p)"
    using nodes_ok_distinct [OF inv_nodes_ok] en by (fastforce simp: entering_def)
  note tr = take_retire_facts [OF assms(2,3), of "prepared_node ans r h a t e1"]
  show "h' = h" "posted e3 = posted e" "transfers e3 = transfers e"
    using tr d en by (simp_all add: entering_def)
  have "in_multi e1 = in_multi e"
    using ac by (auto simp: acquire_def split: list.splits option.splits)
  with assms(2,3) show "in_multi e3 = in_multi e"
    by (auto simp: take_handler_def retire_def curl_easy_cleanup_def and_then_Inr Let_def split: option.splits if_splits)
qed

lemma acquire_slots: "acquire ans e = Some e' \<Longrightarrow> slots e' = slots e"
  by (auto simp: acquire_def split: list.splits option.splits)

lemma prepare_slots:
  "slots (prepare ans r h a t e) =
     (case cancel_slot h of None \<Rightarrow> slots e | Some s \<Rightarrow> (slots e)(s := Some (next_transfer_id e + 1)))"
  by (simp add: prepare_def Let_def split: option.split)

lemma prepare_slots_ok:
  assumes ok: "slots_ok e" and inv: "engine_inv e" and st: "starting ans r h e a t e1"
  shows "slots_ok (prepare ans r h a t e1)" (is "slots_ok ?e")
  unfolding slots_ok_def
proof (intro allI impI conjI)
  let ?i = "next_transfer_id e + 1"
  have en: "entering e a t e1" and i: "next_transfer_id e \<noteq> - 1" and sl: "slots e1 = slots e"
    using st acquire_slots by (auto simp: starting_def entering_def)
  then have e1: "next_transfer_id e1 = next_transfer_id e" "transfers e1 = a # transfers e"
    "\<And>b. b \<noteq> a \<Longrightarrow> nodes e1 b = nodes e b" by (simp_all add: entering_def)
  have less: "next_transfer_id e < ?i" using word_less_succ [OF i] .
  fix s j assume s: "slots ?e s = Some j"
  then have old: "cancel_slot h = Some s \<and> j = ?i \<or> slots e s = Some j"
    by (auto simp: prepare_slots sl e1 split: option.splits if_splits)
  with ok less show "j \<le> next_transfer_id ?e"
    by (auto simp: slots_ok_def e1 dest: order.strict_trans1 order.strict_implies_order)
  fix b u assume b: "b \<in> set (transfers ?e)" "nodes ?e b = Some u" "tid u = j"
  show "\<exists>h. handler u = Some h \<and> cancel_slot h = Some s"
  proof (cases "b = a")
    case True
    with b have "j = ?i" "handler u = Some h" by (auto simp: e1)
    moreover have "slots e s \<noteq> Some ?i" using ok less by (auto simp: slots_ok_def leD)
    ultimately show ?thesis using old by auto
  next
    case False
    with b have u: "b \<in> set (transfers e)" "nodes e b = Some u" by (auto simp: e1)
    then have "tid u \<le> next_transfer_id e"
      using engine_inv_node [OF inv u(1)] by (auto simp: in_flight_def)
    with less b(3) have "j \<noteq> ?i" by auto
    with old ok u b(3) show ?thesis by (auto simp: slots_ok_def)
  qed
qed

lemma start_slots_ok:
  assumes ok: "slots_ok e" and inv: "engine_inv e" and c: "start_contract ans e"
    and r: "start ans r h e = Inr e'"
  shows "slots_ok e'"
  using inv c r
proof (cases rule: start_cases)
  case no_handle
  with ok show ?thesis by (simp add: slots_ok_def fail_def)
next
  case (added a t e1)
  with prepare_slots_ok [OF ok inv added(1)] show ?thesis by (simp add: slots_ok_def)
next
  case (refused a t e1 h' e2 e3)
  have "distinct (transfers e1)"
    using refused(1) nodes_ok_distinct [OF inv_nodes_ok] by (fastforce simp: starting_def entering_def)
  then have "fewer_transfers (prepare ans r h a t e1) e3"
    by (intro take_retire_fewer [OF refused(3,4), of "prepared_node ans r h a t e1"]) simp_all
  with prepare_slots_ok [OF ok inv refused(1)] have "slots_ok e3" by (rule fewer_slots_ok)
  with refused show ?thesis by (simp add: slots_ok_def fail_def)
qed

lemma slots_ok_frame [frame_simps]:
  "slots_ok (e\<lparr>posted := p\<rparr>) = slots_ok e"
  "slots_ok (e\<lparr>invoked := q\<rparr>) = slots_ok e"
  "slots_ok (e\<lparr>running := n\<rparr>) = slots_ok e"
  by (simp_all add: slots_ok_def)

lemma engine_do_slots_ok:
  assumes "slots_ok e" "engine_inv e" "engine_do op e = Inr e'"
  shows "slots_ok e'"
proof -
  have other: "fewer_transfers e e' \<Longrightarrow> slots_ok e'" using assms(1) by (rule fewer_slots_ok)
  show ?thesis
    using assms
    by (cases op)
      (auto simp: expect_Inr emit_def completion_step_def message_contract_def run_posted_def
        frame_simps intro: other start_slots_ok complete_transfer_fewer cancel_fewer
        receive_fewer split: option.splits if_splits)
qed

lemma engine_run_slots_ok:
  "engine_run ops e = Inr e' \<Longrightarrow> slots_ok e \<Longrightarrow> engine_inv e \<Longrightarrow> slots_ok e'"
proof (induction ops arbitrary: e)
  case (Cons op ops)
  then obtain e1 where e1: "engine_do op e = Inr e1" "engine_run ops e1 = Inr e'"
    by (auto simp: and_then_Inr)
  with Cons engine_do_inv [of e op] show ?case
    by (auto intro: engine_do_slots_ok simp: safely_def)
qed simp

lemma reachable_slots_ok:
  "engine_run ops (new_engine version max_pooled) = Inr e \<Longrightarrow> slots_ok e"
  using engine_run_slots_ok [OF _ _ new_engine_inv] by (fastforce simp: slots_ok_def new_engine_def)

end
