(* ===== verification/Sockets.thy ===== *)
theory Sockets
  imports Prelude "HOL-Library.AList"
begin

text \<open>
  The sockets of \<open>cofetch::Client\<close> (\<open>include/cofetch.h\<close>): \<open>SocketState\<close>, the table \<open>sockets_\<close>,
  and \<open>open_socket_cb\<close>, \<open>close_socket_cb\<close>, \<open>borrow\<close>, \<open>socket_cb\<close>, \<open>arm\<close> and \<open>on_event\<close>.

  A \<open>SocketState\<close> is an object at an id, alive while the table or a running \<open>on_event\<close> holds its
  \<open>shared_ptr\<close>; the completions of \<open>async_wait\<close> hold \<open>weak_ptr\<close>s, which find the object or
  nothing. The pointer \<open>curl_multi_assign\<close> gives to libcurl is raw: following it to an object that
  is gone is \<open>Undefined\<close>. Waits are pending in the reactor or completed and queued on the
  \<open>io_context\<close>. The POSIX branch of the conditional code is modelled.
\<close>

unbundle bit_operations_syntax

section \<open>State\<close>

type_synonym fd = int
type_synonym sid = nat

abbreviation (input) CURL_SOCKET_BAD :: fd where "CURL_SOCKET_BAD \<equiv> - 1"
abbreviation (input) CURL_POLL_IN :: int where "CURL_POLL_IN \<equiv> 1"
abbreviation (input) CURL_POLL_OUT :: int where "CURL_POLL_OUT \<equiv> 2"
abbreviation (input) CURL_POLL_REMOVE :: int where "CURL_POLL_REMOVE \<equiv> 4"
abbreviation (input) CURL_CSELECT_IN :: int where "CURL_CSELECT_IN \<equiv> 1"
abbreviation (input) CURL_CSELECT_OUT :: int where "CURL_CSELECT_OUT \<equiv> 2"
abbreviation (input) CURL_CSELECT_ERR :: int where "CURL_CSELECT_ERR \<equiv> 4"

datatype socket_purpose = IPCXN | Other_purpose
datatype address_family = AF_INET | AF_INET6 | Other_family
datatype wait_result = Wait_ok | Wait_aborted | Wait_error

text \<open>\<open>native\<close> is the descriptor the ASIO socket holds, \<open>None\<close> when it is closed.\<close>

record socket_state =
  native :: "fd option"
  ss_fd :: fd
  borrowed :: bool
  watch :: int
  read_armed :: bool
  write_armed :: bool

text \<open>
  \<open>table\<close> is \<open>sockets_\<close>; \<open>in_use\<close> is the state a running \<open>on_event\<close> holds. The rest is seen by
  other code: \<open>user_ptr\<close> is what libcurl remembers for a descriptor, \<open>interest\<close> what it last asked
  for, \<open>opened\<close> and \<open>closed\<close> the descriptors the client has created and closed, \<open>closed_for_curl\<close>
  those closed on libcurl's behalf, and \<open>actions\<close> the readiness reported to libcurl.
\<close>

record sockets =
  objects :: "sid \<Rightarrow> socket_state option"
  table :: "(fd \<times> sid) list"
  in_use :: "sid option"
  pending_waits :: "(sid \<times> int) list"
  queued_waits :: "(sid \<times> int \<times> wait_result) list"
  user_ptr :: "fd \<Rightarrow> sid option"
  interest :: "fd \<Rightarrow> int option"
  opened :: "fd list"
  closed :: "fd list"
  closed_for_curl :: "fd list"
  actions :: "(fd \<times> int) list"

definition new_socket_state :: "bool \<Rightarrow> socket_state" where
  "new_socket_state b = \<lparr>native = None, ss_fd = CURL_SOCKET_BAD, borrowed = b, watch = 0,
     read_armed = False, write_armed = False\<rparr>"

definition new_sockets :: sockets where
  "new_sockets = \<lparr>objects = (\<lambda>_. None), table = [], in_use = None, pending_waits = [],
     queued_waits = [], user_ptr = (\<lambda>_. None), interest = (\<lambda>_. None), opened = [], closed = [],
     closed_for_curl = [], actions = []\<rparr>"

abbreviation put_object :: "sid \<Rightarrow> socket_state \<Rightarrow> sockets \<Rightarrow> sockets" where
  "put_object x st s \<equiv> s\<lparr>objects := (objects s)(x := Some st)\<rparr>"

section \<open>What ASIO does\<close>

text \<open>
  Closing an ASIO socket closes its descriptor and completes its pending waits with
  \<open>operation_aborted\<close>; closing a closed one does nothing.
\<close>

definition socket_close :: "sid \<Rightarrow> sockets \<Rightarrow> sockets outcome" where
  "socket_close x s = and_then (deref (objects s) x) (\<lambda>st.
     case native st of
       None \<Rightarrow> Inr s
     | Some d \<Rightarrow> Inr (s\<lparr>objects := (objects s)(x := Some (st\<lparr>native := None\<rparr>)),
         closed := closed s @ [d],
         pending_waits := filter (\<lambda>w. fst w \<noteq> x) (pending_waits s),
         queued_waits := queued_waits s @
           map (\<lambda>w. (fst w, snd w, Wait_aborted)) (filter (\<lambda>w. fst w = x) (pending_waits s))\<rparr>))"

text \<open>
  A \<open>shared_ptr\<close> to the object goes away. The last one destroys it, which closes the socket.
\<close>

definition release :: "sid \<Rightarrow> sockets \<Rightarrow> sockets outcome" where
  "release x s =
     (if in_use s = Some x \<or> x \<in> snd ` set (table s) then Inr s
      else and_then (socket_close x s) (\<lambda>s. Inr (s\<lparr>objects := (objects s)(x := None)\<rparr>)))"

definition erase_entry :: "fd \<Rightarrow> sockets \<Rightarrow> sockets outcome" where
  "erase_entry fd s =
     (case map_of (table s) fd of
        None \<Rightarrow> Inr s
      | Some x \<Rightarrow> release x (s\<lparr>table := AList.delete fd (table s)\<rparr>))"

text \<open>\<open>sockets_[fd] = std::move(state)\<close>: an older state under the key is released.\<close>

definition store_entry :: "fd \<Rightarrow> sid \<Rightarrow> sockets \<Rightarrow> sockets outcome" where
  "store_entry fd x s =
     (case map_of (table s) fd of
        None \<Rightarrow> Inr (s\<lparr>table := AList.update fd x (table s)\<rparr>)
      | Some y \<Rightarrow> release y (s\<lparr>table := AList.update fd x (table s)\<rparr>))"

section \<open>The callbacks\<close>

text \<open>
  The answers of other code: the descriptor \<open>socket.open\<close> creates (\<open>None\<close> for an error), the
  result of \<open>fcntl(F_DUPFD_CLOEXEC)\<close>, whether the reactor accepts the duplicate, and the
  identity of the object \<open>make_shared\<close> allocates.
\<close>

definition open_socket_cb ::
    "socket_purpose \<Rightarrow> address_family \<Rightarrow> fd option \<Rightarrow> sid \<Rightarrow> sockets \<Rightarrow> (fd \<times> sockets) outcome" where
  "open_socket_cb purpose family open_ans x s =
     (if purpose \<noteq> IPCXN then Inr (CURL_SOCKET_BAD, s)
      else if family \<noteq> AF_INET6 \<and> family \<noteq> AF_INET then Inr (CURL_SOCKET_BAD, s)
      else case open_ans of
          None \<Rightarrow> Inr (CURL_SOCKET_BAD, s)
        | Some fd \<Rightarrow>
            and_then (store_entry fd x
                (put_object x ((new_socket_state False)\<lparr>native := Some fd, ss_fd := fd\<rparr>)
                  (s\<lparr>opened := opened s @ [fd]\<rparr>)))
              (\<lambda>s. Inr (fd, s)))"

definition close_native :: "fd \<Rightarrow> sockets \<Rightarrow> sockets" where
  "close_native fd s = s\<lparr>closed_for_curl := closed_for_curl s @ [fd]\<rparr>"

definition close_socket_cb :: "fd \<Rightarrow> sockets \<Rightarrow> sockets outcome" where
  "close_socket_cb fd s =
     (case map_of (table s) fd of
        None \<Rightarrow> Inr (close_native fd s)
      | Some x \<Rightarrow> and_then (deref (objects s) x) (\<lambda>st.
          and_then (socket_close x (put_object x (st\<lparr>watch := 0\<rparr>) s)) (\<lambda>s.
            erase_entry fd (if borrowed st then close_native fd s else s))))"

definition borrow :: "fd \<Rightarrow> int \<Rightarrow> bool \<Rightarrow> sid \<Rightarrow> sockets \<Rightarrow> (sid option \<times> sockets) outcome" where
  "borrow fd dup_fd assign_ok x s =
     (if dup_fd < 0 then Inr (None, s)
      else let s = s\<lparr>opened := opened s @ [dup_fd]\<rparr>
        in if \<not> assign_ok then Inr (None, s\<lparr>closed := closed s @ [dup_fd]\<rparr>)
           else and_then (store_entry fd x
               (put_object x ((new_socket_state True)\<lparr>native := Some dup_fd, ss_fd := fd\<rparr>) s))
             (\<lambda>s. Inr (Some x, s)))"

definition wants :: "int \<Rightarrow> int \<Rightarrow> bool" where
  "wants w dir \<longleftrightarrow> w AND dir \<noteq> 0"

definition arm_read :: "sid \<Rightarrow> sockets \<Rightarrow> sockets outcome" where
  "arm_read x s = and_then (deref (objects s) x) (\<lambda>st.
     if wants (watch st) CURL_POLL_IN \<and> \<not> read_armed st
     then Inr (put_object x (st\<lparr>read_armed := True\<rparr>)
            (s\<lparr>pending_waits := pending_waits s @ [(x, CURL_CSELECT_IN)]\<rparr>))
     else Inr s)"

definition arm_write :: "sid \<Rightarrow> sockets \<Rightarrow> sockets outcome" where
  "arm_write x s = and_then (deref (objects s) x) (\<lambda>st.
     if wants (watch st) CURL_POLL_OUT \<and> \<not> write_armed st
     then Inr (put_object x (st\<lparr>write_armed := True\<rparr>)
            (s\<lparr>pending_waits := pending_waits s @ [(x, CURL_CSELECT_OUT)]\<rparr>))
     else Inr s)"

definition arm :: "sid \<Rightarrow> sockets \<Rightarrow> sockets outcome" where
  "arm x s = and_then (deref (objects s) x) (\<lambda>st.
     if native st = None then Inr s
     else and_then (arm_read x s) (arm_write x))"

text \<open>The answers of one \<open>socket_cb\<close>, for the case that it borrows.\<close>

record borrow_answers =
  dup_fd :: int
  assign_ok :: bool
  state_at :: sid

definition watched_state :: "fd \<Rightarrow> borrow_answers \<Rightarrow> sockets \<Rightarrow> (sid option \<times> sockets) outcome" where
  "watched_state fd ans s =
     (case map_of (table s) fd of
        Some x \<Rightarrow> Inr (Some x, s)
      | None \<Rightarrow> borrow fd (dup_fd ans) (assign_ok ans) (state_at ans) s)"

definition apply_interest :: "sid \<Rightarrow> fd \<Rightarrow> int \<Rightarrow> sockets \<Rightarrow> sockets outcome" where
  "apply_interest x fd what s = and_then (deref (objects s) x) (\<lambda>st.
     if what = CURL_POLL_REMOVE
     then let s = put_object x (st\<lparr>watch := 0\<rparr>) s
       in if borrowed st then and_then (socket_close x s) (erase_entry fd) else Inr s
     else arm x (put_object x (st\<lparr>watch := what\<rparr>) s))"

definition socket_cb :: "fd \<Rightarrow> int \<Rightarrow> sid option \<Rightarrow> borrow_answers \<Rightarrow> sockets \<Rightarrow> sockets outcome" where
  "socket_cb fd what socketp ans s =
     (case socketp of
        Some x \<Rightarrow> apply_interest x fd what s
      | None \<Rightarrow>
          if what = CURL_POLL_REMOVE then Inr s
          else and_then (watched_state fd ans s) (\<lambda>(found, s).
            case found of
              None \<Rightarrow> Inr s
            | Some x \<Rightarrow> apply_interest x fd what (s\<lparr>user_ptr := (user_ptr s)(fd := Some x)\<rparr>)))"

section \<open>Calls libcurl makes\<close>

datatype socket_call =
    Open_socket socket_purpose address_family "fd option" sid
  | Close_socket fd
  | Notify fd int borrow_answers

text \<open>
  The descriptors the client holds, and the contracts: the system gives out descriptors that are
  not in use, \<open>make_shared\<close> an object no \<open>weak_ptr\<close> still refers to, and libcurl withdraws its
  interest in a descriptor before it has it closed, and does not name the client's duplicates.
\<close>

definition native_of :: "sockets \<Rightarrow> sid \<Rightarrow> fd list" where
  "native_of s x = (case objects s x of None \<Rightarrow> []
     | Some st \<Rightarrow> (case native st of None \<Rightarrow> [] | Some d \<Rightarrow> [d]))"

definition held_fds :: "sockets \<Rightarrow> fd list" where
  "held_fds s = concat (map (native_of s \<circ> snd) (table s))"

definition outstanding :: "sockets \<Rightarrow> (sid \<times> int) list" where
  "outstanding s = pending_waits s @ map (\<lambda>(x, flag, r). (x, flag)) (queued_waits s)"

definition fresh_fd :: "fd \<Rightarrow> sockets \<Rightarrow> bool" where
  "fresh_fd d s \<longleftrightarrow> 0 \<le> d \<and> d \<notin> set (held_fds s) \<and> d \<notin> fst ` set (table s)"

definition fresh_state :: "sid \<Rightarrow> sockets \<Rightarrow> bool" where
  "fresh_state x s \<longleftrightarrow> objects s x = None \<and> x \<notin> fst ` set (outstanding s)"

fun call_contract :: "socket_call \<Rightarrow> sockets \<Rightarrow> bool" where
  "call_contract (Open_socket purpose family open_ans x) s \<longleftrightarrow>
     fresh_state x s \<and> (case open_ans of None \<Rightarrow> True | Some fd \<Rightarrow> fresh_fd fd s)"
| "call_contract (Close_socket fd) s \<longleftrightarrow> user_ptr s fd = None"
| "call_contract (Notify fd what ans) s \<longleftrightarrow>
     0 \<le> what \<and> what \<le> CURL_POLL_REMOVE \<and> fresh_state (state_at ans) s \<and>
     (0 \<le> dup_fd ans \<longrightarrow> fresh_fd (dup_fd ans) s \<and> dup_fd ans \<noteq> fd) \<and>
     (map_of (table s) fd = None \<longrightarrow> fd \<notin> set (held_fds s))"

text \<open>
  libcurl passes the pointer it remembers, forgets it once it has withdrawn its interest, and
  its interest is what it last said.
\<close>

definition notify :: "fd \<Rightarrow> int \<Rightarrow> borrow_answers \<Rightarrow> sockets \<Rightarrow> sockets outcome" where
  "notify fd what ans s = and_then (socket_cb fd what (user_ptr s fd) ans s) (\<lambda>s.
     if what = CURL_POLL_REMOVE
     then Inr (s\<lparr>user_ptr := (user_ptr s)(fd := None), interest := (interest s)(fd := None)\<rparr>)
     else Inr (s\<lparr>interest := (interest s)(fd := Some what)\<rparr>))"

fun do_call :: "socket_call \<Rightarrow> sockets \<Rightarrow> sockets outcome" where
  "do_call (Open_socket purpose family open_ans x) s =
     expect (call_contract (Open_socket purpose family open_ans x) s)
       (and_then (open_socket_cb purpose family open_ans x s) (\<lambda>(fd, s). Inr s))"
| "do_call (Close_socket fd) s =
     expect (call_contract (Close_socket fd) s) (close_socket_cb fd s)"
| "do_call (Notify fd what ans) s =
     expect (call_contract (Notify fd what ans) s) (notify fd what ans s)"

abbreviation do_calls :: "socket_call list \<Rightarrow> sockets \<Rightarrow> sockets outcome" where
  "do_calls \<equiv> run_all do_call"

section \<open>Events\<close>

text \<open>
  \<open>on_event\<close> up to the call of \<open>curl_multi_socket_action\<close>, and from its return on. The result of
  the first part is \<open>None\<close> on the early return.
\<close>

definition clear_armed :: "int \<Rightarrow> socket_state \<Rightarrow> socket_state" where
  "clear_armed flag st =
     (if flag = CURL_CSELECT_IN then st\<lparr>read_armed := False\<rparr> else st\<lparr>write_armed := False\<rparr>)"

definition begin_event :: "sid \<Rightarrow> int \<Rightarrow> wait_result \<Rightarrow> sockets \<Rightarrow> (bool \<times> sockets) outcome" where
  "begin_event x flag ec s = and_then (deref (objects s) x) (\<lambda>st.
     let s = put_object x (clear_armed flag st) (s\<lparr>in_use := Some x\<rparr>)
     in if ec = Wait_aborted then Inr (False, s)
        else Inr (True, s\<lparr>actions := actions s @
               [(ss_fd st, if ec \<noteq> Wait_ok then CURL_CSELECT_ERR else flag)]\<rparr>))"

definition rearm :: "sid \<Rightarrow> sockets \<Rightarrow> sockets outcome" where
  "rearm x s = and_then (deref (objects s) x) (\<lambda>st. if watch st \<noteq> 0 then arm x s else Inr s)"

definition drop_event :: "sid \<Rightarrow> sockets \<Rightarrow> sockets outcome" where
  "drop_event x s = release x (s\<lparr>in_use := None\<rparr>)"

definition on_event ::
    "sid \<Rightarrow> int \<Rightarrow> wait_result \<Rightarrow> socket_call list \<Rightarrow> sockets \<Rightarrow> sockets outcome" where
  "on_event x flag ec calls s = and_then (begin_event x flag ec s) (\<lambda>(go, s).
     if go then and_then (do_calls calls s) (\<lambda>s. and_then (rearm x s) (drop_event x))
     else drop_event x s)"

text \<open>A queued completion runs: its \<open>weak_ptr\<close> is locked first.\<close>

definition fire_wait :: "nat \<Rightarrow> socket_call list \<Rightarrow> sockets \<Rightarrow> sockets outcome" where
  "fire_wait i calls s =
     (if i < length (queued_waits s)
      then (case queued_waits s ! i of (x, flag, ec) \<Rightarrow>
        let s = s\<lparr>queued_waits := take i (queued_waits s) @ drop (i + 1) (queued_waits s)\<rparr>
        in if objects s x = None then Inr s else on_event x flag ec calls s)
      else Inr s)"

text \<open>The reactor completes a pending wait, with success or an error of its own.\<close>

definition wait_done :: "nat \<Rightarrow> bool \<Rightarrow> sockets \<Rightarrow> sockets" where
  "wait_done i ok s =
     (if i < length (pending_waits s)
      then (case pending_waits s ! i of (x, flag) \<Rightarrow>
        s\<lparr>pending_waits := take i (pending_waits s) @ drop (i + 1) (pending_waits s),
          queued_waits := queued_waits s @ [(x, flag, if ok then Wait_ok else Wait_error)]\<rparr>)
      else s)"

datatype socket_op =
    Call socket_call
  | Wait_done nat bool
  | Fire nat "socket_call list"

fun socket_do :: "socket_op \<Rightarrow> sockets \<Rightarrow> sockets outcome" where
  "socket_do (Call c) s = do_call c s"
| "socket_do (Wait_done i ok) s = Inr (wait_done i ok s)"
| "socket_do (Fire i calls) s = fire_wait i calls s"

abbreviation socket_run :: "socket_op list \<Rightarrow> sockets \<Rightarrow> sockets outcome" where
  "socket_run \<equiv> run_all socket_do"

section \<open>Teardown\<close>

text \<open>
  The first loop of \<open>~Client\<close>, over \<open>sockets_\<close>, and the destruction of the member at its end.
\<close>

fun sever :: "(fd \<times> sid) list \<Rightarrow> sockets \<Rightarrow> sockets outcome" where
  "sever [] s = Inr s"
| "sever ((fd, x) # es) s = and_then (deref (objects s) x) (\<lambda>st.
     and_then (socket_close x (put_object x (st\<lparr>watch := 0\<rparr>) s)) (sever es))"

fun drop_table :: "(fd \<times> sid) list \<Rightarrow> sockets \<Rightarrow> sockets outcome" where
  "drop_table [] s = Inr s"
| "drop_table ((fd, x) # es) s = and_then (erase_entry fd s) (drop_table es)"

definition socket_teardown :: "socket_call list \<Rightarrow> sockets \<Rightarrow> sockets outcome" where
  "socket_teardown calls s = and_then (sever (table s) s) (\<lambda>s.
     and_then (do_calls calls s) (\<lambda>s. drop_table (table s) s))"

end
