(* ===== verification/Sockets_Inv.thy ===== *)
theory Sockets_Inv
  imports Sockets
begin

text \<open>
  The invariants of the socket table. \<open>sock_safe\<close> is what memory safety and the descriptor
  ledger need, and holds also while the client is torn down. \<open>sock_live\<close> is what makes the event
  loop make progress: every socket in the table is open, and every direction libcurl watches has a
  wait outstanding. It is stated for all states but one, the one \<open>on_event\<close> is working on.
\<close>

section \<open>Invariants\<close>

definition entry_ok :: "sockets \<Rightarrow> fd \<Rightarrow> sid \<Rightarrow> socket_state \<Rightarrow> bool" where
  "entry_ok s fd x st \<longleftrightarrow> ss_fd st = fd \<and>
     (if borrowed st then user_ptr s fd = Some x else native st = None \<or> native st = Some fd)"

definition table_ok :: "sockets \<Rightarrow> bool" where
  "table_ok s \<longleftrightarrow>
     distinct (map fst (table s)) \<and> distinct (map snd (table s)) \<and>
     (\<forall>fd x. (fd, x) \<in> set (table s) \<longrightarrow> (\<exists>st. objects s x = Some st \<and> entry_ok s fd x st)) \<and>
     (\<forall>fd x. user_ptr s fd = Some x \<longrightarrow> (fd, x) \<in> set (table s))"

definition objects_ok :: "sockets \<Rightarrow> bool" where
  "objects_ok s \<longleftrightarrow>
     (\<forall>x st. objects s x = Some st \<longrightarrow> x \<notin> snd ` set (table s) \<longrightarrow>
        in_use s = Some x \<and> native st = None \<and> watch st = 0) \<and>
     (\<forall>x. in_use s = Some x \<longrightarrow> objects s x \<noteq> None)"

definition object_waits :: "sockets \<Rightarrow> sid \<Rightarrow> socket_state \<Rightarrow> bool" where
  "object_waits s x st \<longleftrightarrow>
     count (mset (outstanding s)) (x, CURL_CSELECT_IN) = of_bool (read_armed st) \<and>
     count (mset (outstanding s)) (x, CURL_CSELECT_OUT) = of_bool (write_armed st) \<and>
     (native st = None \<longrightarrow> x \<notin> fst ` set (pending_waits s)) \<and>
     (\<forall>flag. (x, flag, Wait_aborted) \<in> set (queued_waits s) \<longrightarrow> native st = None)"

definition waits_ok :: "sockets \<Rightarrow> bool" where
  "waits_ok s \<longleftrightarrow> (\<forall>x st. objects s x = Some st \<longrightarrow> object_waits s x st) \<and>
     (\<forall>w \<in> set (outstanding s). snd w = CURL_CSELECT_IN \<or> snd w = CURL_CSELECT_OUT)"

definition fds_ok :: "sockets \<Rightarrow> bool" where
  "fds_ok s \<longleftrightarrow> distinct (held_fds s) \<and> mset (opened s) = mset (held_fds s) + mset (closed s)"

definition sock_safe :: "sockets \<Rightarrow> bool" where
  "sock_safe s \<longleftrightarrow> table_ok s \<and> objects_ok s \<and> waits_ok s \<and> fds_ok s"

definition armed_ok :: "socket_state \<Rightarrow> bool" where
  "armed_ok st \<longleftrightarrow> (wants (watch st) CURL_POLL_IN \<longrightarrow> read_armed st) \<and>
     (wants (watch st) CURL_POLL_OUT \<longrightarrow> write_armed st)"

definition sock_live :: "sid set \<Rightarrow> sockets \<Rightarrow> bool" where
  "sock_live X s \<longleftrightarrow> (\<forall>fd x st. (fd, x) \<in> set (table s) \<longrightarrow> objects s x = Some st \<longrightarrow>
     native st \<noteq> None \<and> (x \<notin> X \<longrightarrow> armed_ok st) \<and>
     (case user_ptr s fd of None \<Rightarrow> watch st = 0 | Some _ \<Rightarrow> interest s fd = Some (watch st)))"

lemmas sock_safe_defs = sock_safe_def table_ok_def objects_ok_def waits_ok_def fds_ok_def

section \<open>Reading them\<close>

lemma table_object:
  assumes "table_ok s" "(fd, x) \<in> set (table s)"
  obtains st where "objects s x = Some st" "entry_ok s fd x st"
  using assms unfolding table_ok_def by blast

lemma map_of_table: "table_ok s \<Longrightarrow> map_of (table s) fd = Some x \<longleftrightarrow> (fd, x) \<in> set (table s)"
  by (simp add: table_ok_def)

lemma table_inj: "table_ok s \<Longrightarrow> (fd, x) \<in> set (table s) \<Longrightarrow> (fd', x) \<in> set (table s) \<Longrightarrow> fd' = fd"
  by (auto simp: table_ok_def distinct_map dest: inj_onD [where x = "(fd, x)" and y = "(fd', x)"])

lemma table_fun: "table_ok s \<Longrightarrow> (fd, x) \<in> set (table s) \<Longrightarrow> (fd, y) \<in> set (table s) \<Longrightarrow> y = x"
  by (auto simp: table_ok_def dest: eq_key_imp_eq_value)

lemma table_ok_put:
  assumes t: "table_ok s" "(fd, x) \<in> set (table s)" "objects s x = Some st"
    and s': "table s' = table s" "user_ptr s' = user_ptr s" "objects s' = (objects s)(x := Some st')"
    and st': "ss_fd st' = ss_fd st" "borrowed st' = borrowed st" "native st' = native st \<or> native st' = None"
  shows "table_ok s'"
proof -
  have "\<exists>u. objects s' y = Some u \<and> entry_ok s' k y u" if e: "(k, y) \<in> set (table s)" for k y
  proof -
    from table_object [OF t(1) e] obtain u where u: "objects s y = Some u" "entry_ok s k y u" .
    show ?thesis
    proof (cases "y = x")
      case True
      with u t(3) st' have "entry_ok s' k y st'" by (auto simp: entry_ok_def s' split: if_splits)
      with True s' show ?thesis by simp
    next
      case False
      with u show ?thesis by (simp add: s' entry_ok_def)
    qed
  qed
  with t(1) show ?thesis by (simp add: table_ok_def s')
qed

lemma delete_absent: "fd \<notin> fst ` set al \<Longrightarrow> AList.delete fd al = al"
  by (induction al) auto

lemma delete_set: "set (AList.delete fd al) = {e \<in> set al. fst e \<noteq> fd}"
  by (auto simp: AList.delete_eq)

lemma delete_table:
  assumes t: "table_ok s" "(fd, x) \<in> set (table s)"
  shows "set (AList.delete fd (table s)) = set (table s) - {(fd, x)}"
proof (intro set_eqI iffI)
  fix e assume "e \<in> set (table s) - {(fd, x)}"
  moreover have "e = (fd, x)" if "e \<in> set (table s)" "fst e = fd"
    using that table_fun [OF t] by (metis prod.collapse)
  ultimately show "e \<in> set (AList.delete fd (table s))" unfolding delete_set by blast
qed (auto simp: delete_set)

lemma update_new: "map_of al k = None \<Longrightarrow> AList.update k v al = al @ [(k, v)]"
  by (induction al) (auto split: if_splits)

lemma held_update:
  assumes "\<And>e. e \<in> set (table s) \<Longrightarrow> objects s' (snd e) = objects s (snd e)" "table s' = table s"
  shows "held_fds s' = held_fds s"
  using assms by (auto simp: held_fds_def native_of_def intro!: arg_cong [where f = concat])

definition held_but :: "fd \<Rightarrow> sockets \<Rightarrow> fd list" where
  "held_but fd s = concat (map (native_of s \<circ> snd) (AList.delete fd (table s)))"

lemma held_split:
  assumes "table_ok s" "(fd, x) \<in> set (table s)"
  shows "mset (held_fds s) = mset (native_of s x) + mset (held_but fd s)"
proof -
  have d: "distinct (map fst al) \<Longrightarrow> (fd, x) \<in> set al \<Longrightarrow>
      mset (concat (map (native_of s \<circ> snd) al)) = mset (native_of s x) +
        mset (concat (map (native_of s \<circ> snd) (AList.delete fd al)))" for al
  proof (induction al)
    case (Cons e al)
    obtain k y where e: "e = (k, y)" by force
    show ?case
    proof (cases "k = fd")
      case True
      with Cons.prems e have "y = x" "fd \<notin> fst ` set al" by (auto simp: rev_image_eqI)
      then have "AList.delete fd al = al" by (simp add: delete_absent)
      with True e \<open>y = x\<close> show ?thesis by simp
    next
      case False
      with Cons e show ?thesis by simp
    qed
  qed simp
  show ?thesis using d assms by (simp add: held_fds_def held_but_def table_ok_def)
qed

lemma held_but_cong:
  assumes "table_ok s" "(fd, x) \<in> set (table s)"
    and "AList.delete fd (table s') = AList.delete fd (table s)"
    and "\<And>y. y \<noteq> x \<Longrightarrow> objects s' y = objects s y"
  shows "held_but fd s' = held_but fd s"
proof -
  have "snd e \<noteq> x" if "e \<in> set (AList.delete fd (table s))" for e
    using that table_inj [OF assms(1,2), of "fst e"] unfolding delete_set by (cases e) auto
  then show ?thesis
    unfolding held_but_def assms(3) using assms(4)
    by (auto simp: native_of_def intro!: arg_cong [where f = concat])
qed

text \<open>Replacing the object of an entry, and dropping an entry.\<close>

lemma held_put:
  assumes t: "table_ok s" "(fd, x) \<in> set (table s)" "table_ok s'"
    and s': "table s' = table s" "\<And>y. y \<noteq> x \<Longrightarrow> objects s' y = objects s y"
  shows "mset (held_fds s') + mset (native_of s x) = mset (held_fds s) + mset (native_of s' x)"
  using held_split [OF t(1,2)] held_split [OF t(3), of fd x] held_but_cong [OF t(1,2), of s'] s' t(2)
  by simp

lemma held_delete:
  assumes t: "table_ok s" "(fd, x) \<in> set (table s)"
    and s': "table s' = AList.delete fd (table s)" "\<And>y. y \<noteq> x \<Longrightarrow> objects s' y = objects s y"
  shows "mset (held_fds s) = mset (native_of s x) + mset (held_fds s')"
  using held_split [OF t] held_but_cong [OF t, of s'] s'
  by (simp add: held_but_def held_fds_def AList.delete_idem)

section \<open>Closing a socket\<close>

text \<open>The state after \<open>watch = 0\<close> and \<open>socket.close()\<close>.\<close>

definition shut :: "sid \<Rightarrow> socket_state \<Rightarrow> sockets \<Rightarrow> sockets" where
  "shut x st s = s\<lparr>objects := (objects s)(x := Some (st\<lparr>watch := 0, native := None\<rparr>)),
     closed := closed s @ native_of s x,
     pending_waits := filter (\<lambda>w. fst w \<noteq> x) (pending_waits s),
     queued_waits := queued_waits s @
       map (\<lambda>w. (fst w, snd w, Wait_aborted)) (filter (\<lambda>w. fst w = x) (pending_waits s))\<rparr>"

lemma shut_eq:
  assumes "waits_ok s" "objects s x = Some st"
  shows "socket_close x (put_object x (st\<lparr>watch := 0\<rparr>) s) = Inr (shut x st s)"
proof (cases "native st")
  case None
  then have "x \<notin> fst ` set (pending_waits s)" using assms by (simp add: waits_ok_def object_waits_def)
  then have "filter (\<lambda>w. fst w \<noteq> x) (pending_waits s) = pending_waits s"
    "filter (\<lambda>w. fst w = x) (pending_waits s) = []"
    by (auto simp: filter_id_conv filter_empty_conv)
  with None assms(2) show ?thesis
    by (cases st) (simp add: socket_close_def shut_def native_of_def)
next
  case (Some d)
  with assms(2) show ?thesis by (simp add: socket_close_def shut_def native_of_def)
qed

lemma shut_outstanding: "mset (outstanding (shut x st s)) = mset (outstanding s)"
proof -
  have "mset ws = mset (filter (\<lambda>w. fst w \<noteq> x) ws) + mset (filter (\<lambda>w. fst w = x) ws)" for ws :: "(sid \<times> int) list"
    by (induction ws) auto
  from this [of "pending_waits s"] show ?thesis
    by (simp add: outstanding_def shut_def case_prod_unfold comp_def ac_simps)
qed

lemma shut_safe:
  assumes s: "sock_safe s" and x: "(fd, x) \<in> set (table s)" "objects s x = Some st"
  shows "sock_safe (shut x st s)"
  unfolding sock_safe_def
proof (intro conjI)
  have t: "table_ok s" and o: "objects_ok s" and w: "waits_ok s" and f: "fds_ok s"
    using s by (simp_all add: sock_safe_def)
  show "table_ok (shut x st s)"
    by (rule table_ok_put [OF t x, where st' = "st\<lparr>watch := 0, native := None\<rparr>"]) (simp_all add: shut_def)
  show "objects_ok (shut x st s)"
    using o x by (force simp: objects_ok_def shut_def)
  show "waits_ok (shut x st s)"
    unfolding waits_ok_def
  proof (intro conjI allI impI)
    fix y v assume v: "objects (shut x st s) y = Some v"
    then obtain v' where v': "objects s y = Some v'" "read_armed v = read_armed v'"
        "write_armed v = write_armed v'" "y = x \<longrightarrow> native v = None" "y \<noteq> x \<longrightarrow> v = v'"
      using x(2) by (auto simp: shut_def split: if_splits)
    with w have "object_waits s y v'" by (simp add: waits_ok_def)
    with v' show "object_waits (shut x st s) y v"
      unfolding object_waits_def shut_outstanding by (auto simp: shut_def)
  next
    show "\<forall>w \<in> set (outstanding (shut x st s)). snd w = CURL_CSELECT_IN \<or> snd w = CURL_CSELECT_OUT"
      using w mset_eq_setD [OF shut_outstanding] by (simp add: waits_ok_def)
  qed
  have "native_of (shut x st s) x = []" by (simp add: native_of_def shut_def)
  with held_put [OF t x(1) \<open>table_ok (shut x st s)\<close>]
  have h: "mset (held_fds s) = mset (native_of s x) + mset (held_fds (shut x st s))"
    by (simp add: shut_def ac_simps)
  then have "distinct (held_fds (shut x st s))"
    using f unfolding fds_ok_def by (metis distinct_append mset_append mset_eq_imp_distinct_iff)
  then show "fds_ok (shut x st s)"
    using f h by (simp add: fds_ok_def) (simp add: shut_def)
qed

section \<open>Frames\<close>

lemma sock_frames [frame_simps]:
  "sock_safe (s\<lparr>actions := a\<rparr>) = sock_safe s"
  "sock_safe (s\<lparr>interest := i\<rparr>) = sock_safe s"
  "sock_safe (s\<lparr>closed_for_curl := c\<rparr>) = sock_safe s"
  "sock_live X (s\<lparr>actions := a\<rparr>) = sock_live X s"
  "sock_live X (s\<lparr>closed_for_curl := c\<rparr>) = sock_live X s"
  by (simp_all add: sock_safe_def table_ok_def entry_ok_def objects_ok_def waits_ok_def object_waits_def fds_ok_def
      sock_live_def held_fds_def native_of_def [abs_def] outstanding_def comp_def
      split: option.split)

section \<open>Dropping an entry\<close>

definition forget :: "fd \<Rightarrow> sid \<Rightarrow> sockets \<Rightarrow> sockets" where
  "forget fd x s = s\<lparr>table := AList.delete fd (table s),
     objects := (if in_use s = Some x then objects s else (objects s)(x := None))\<rparr>"

lemma sid_once: "table_ok s \<Longrightarrow> (fd, x) \<in> set (table s) \<Longrightarrow> x \<notin> snd ` set (AList.delete fd (table s))"
  using table_inj by (fastforce simp: delete_set)

lemma erase_eq:
  assumes "table_ok s" "(fd, x) \<in> set (table s)" "objects s x = Some st" "native st = None"
  shows "erase_entry fd s = Inr (forget fd x s)"
proof -
  have "map_of (table s) fd = Some x" using assms(1,2) map_of_table by blast
  with assms sid_once [OF assms(1,2)] show ?thesis
    by (simp add: erase_entry_def release_def socket_close_def forget_def)
qed

lemma forget_safe:
  assumes s: "sock_safe s" and x: "(fd, x) \<in> set (table s)" "objects s x = Some st"
    and st: "native st = None" "watch st = 0"
    and u: "u fd = None" "\<And>k. k \<noteq> fd \<Longrightarrow> u k = user_ptr s k"
  shows "sock_safe ((forget fd x s)\<lparr>user_ptr := u\<rparr>)" (is "sock_safe ?s")
  unfolding sock_safe_def
proof (intro conjI)
  have t: "table_ok s" and o: "objects_ok s" and w: "waits_ok s" and f: "fds_ok s"
    using s by (simp_all add: sock_safe_def)
  have tab: "set (table ?s) = set (table s) - {(fd, x)}"
    using delete_table [OF t x(1)] by (simp add: forget_def)
  have obj: "objects (forget fd x s) y = (if y = x \<and> in_use s \<noteq> Some x then None else objects s y)" for y
    by (simp add: forget_def)
  have neq: "k \<noteq> fd \<and> y \<noteq> x" if "(k, y) \<in> set (table ?s)" for k y
    using that table_fun [OF t x(1), of y] table_inj [OF t x(1), of k] unfolding tab by blast
  show "table_ok ?s"
    unfolding table_ok_def
  proof (intro conjI allI impI)
    fix k y assume e: "(k, y) \<in> set (table ?s)"
    with tab have "(k, y) \<in> set (table s)" by auto
    from table_object [OF t this] obtain v where "objects s y = Some v" "entry_ok s k y v" .
    moreover from this neq [OF e] have "entry_ok ?s k y v" by (simp add: entry_ok_def u(2))
    ultimately show "\<exists>v. objects ?s y = Some v \<and> entry_ok ?s k y v"
      using neq [OF e] by (auto simp: obj)
  next
    fix k y assume "user_ptr ?s k = Some y"
    then have "k \<noteq> fd" "user_ptr s k = Some y" using u by (auto split: if_splits) (metis option.distinct(1))+
    with t show "(k, y) \<in> set (table ?s)" unfolding tab by (auto simp: table_ok_def)
  next
    show "distinct (map fst (table ?s))"
      using t by (simp add: table_ok_def forget_def distinct_delete)
    show "distinct (map snd (table ?s))"
      using t by (auto simp: table_ok_def forget_def AList.delete_eq distinct_map
          intro: inj_on_subset)
  qed
  have out: "snd ` set (table ?s) = snd ` set (table s) - {x}"
    using neq unfolding tab by force
  show "objects_ok ?s"
    unfolding objects_ok_def
  proof (intro conjI allI impI)
    fix y v assume "objects ?s y = Some v" and y: "y \<notin> snd ` set (table ?s)"
    then have v: "(if y = x \<and> in_use s \<noteq> Some x then None else objects s y) = Some v"
      using obj by simp
    have "in_use s = Some y \<and> native v = None \<and> watch v = 0"
    proof (cases "y = x")
      case True
      with v x(2) st show ?thesis by (auto split: if_splits)
    next
      case False
      with v y have "objects s y = Some v" "y \<notin> snd ` set (table s)" unfolding out by auto
      with o show ?thesis unfolding objects_ok_def by blast
    qed
    then show "in_use ?s = Some y" "native v = None" "watch v = 0"
      by (simp_all add: forget_def)
  next
    fix y assume "in_use ?s = Some y"
    then have y: "in_use s = Some y" by (simp add: forget_def)
    with o have "objects s y \<noteq> None" unfolding objects_ok_def by blast
    with y obj [of y] show "objects ?s y \<noteq> None" by auto
  qed
  show "waits_ok ?s"
  proof -
    have "object_waits ?s = object_waits s" "outstanding ?s = outstanding s"
      by (simp_all add: fun_eq_iff object_waits_def outstanding_def forget_def)
    with w show ?thesis by (auto simp: waits_ok_def obj)
  qed
  have h: "mset (held_fds s) = mset (held_fds ?s)"
    using held_delete [OF t x(1), of ?s] obj x st by (simp add: forget_def native_of_def)
  then show "fds_ok ?s"
    using f mset_eq_imp_distinct_iff [OF h] by (simp add: fds_ok_def h) (simp add: forget_def)
qed

lemma forget_live:
  assumes s: "sock_live X s" and t: "table_ok s" "(fd, x) \<in> set (table s)"
    and s': "table s' = AList.delete fd (table s)"
      "\<And>y. y \<noteq> x \<Longrightarrow> objects s' y = objects s y"
      "\<And>k. k \<noteq> fd \<Longrightarrow> user_ptr s' k = user_ptr s k \<and> interest s' k = interest s k"
  shows "sock_live X s'"
  unfolding sock_live_def
proof (intro allI impI)
  fix k y v assume e: "(k, y) \<in> set (table s')" "objects s' y = Some v"
  have e': "(k, y) \<in> set (table s)" "k \<noteq> fd" "y \<noteq> x"
    using e(1) delete_table [OF t] table_fun [OF t, of y] table_inj [OF t, of k]
    unfolding s'(1) by blast+
  with e(2) s'(2,3) s show "native v \<noteq> None \<and> (y \<notin> X \<longrightarrow> armed_ok v) \<and>
      (case user_ptr s' k of None \<Rightarrow> watch v = 0 | Some _ \<Rightarrow> interest s' k = Some (watch v))"
    unfolding sock_live_def by metis
qed

section \<open>Changing an object of the table\<close>

lemma put_safe:
  assumes s: "sock_safe s" and x: "(fd, x) \<in> set (table s)" "objects s x = Some st"
    and st': "ss_fd st' = ss_fd st" "borrowed st' = borrowed st" "native st' = native st"
    and s': "objects s' = (objects s)(x := Some st')" "table s' = table s" "user_ptr s' = user_ptr s"
      "opened s' = opened s" "closed s' = closed s"
      "in_use s' = in_use s \<or> in_use s = None \<and> in_use s' = Some x"
    and w: "waits_ok s'"
  shows "sock_safe s'"
proof -
  have t: "table_ok s" and o: "objects_ok s" and f: "fds_ok s"
    using s by (simp_all add: sock_safe_def)
  have xt: "x \<in> snd ` set (table s)" using x(1) by force
  have "objects_ok s'"
    unfolding objects_ok_def s'(1,2)
  proof (intro conjI allI impI)
    fix y v assume v: "((objects s)(x := Some st')) y = Some v" "y \<notin> snd ` set (table s)"
    with xt have "objects s y = Some v" by (auto split: if_splits)
    with o v(2) have "in_use s = Some y \<and> native v = None \<and> watch v = 0"
      unfolding objects_ok_def by blast
    with s'(6) show "in_use s' = Some y" "native v = None" "watch v = 0" by auto
  next
    fix y assume "in_use s' = Some y"
    with s'(6) o show "((objects s)(x := Some st')) y \<noteq> None"
      unfolding objects_ok_def by auto
  qed
  moreover have t': "table_ok s'" by (rule table_ok_put [OF t x s'(2,3,1)]) (use st' in auto)
  moreover have "native_of s' = native_of s"
    using st'(3) x(2) s'(1) by (auto simp: native_of_def fun_eq_iff)
  then have "held_fds s' = held_fds s" by (simp add: held_fds_def s'(2))
  then have "fds_ok s'" using f by (simp add: fds_ok_def s'(4,5))
  ultimately show ?thesis using w by (simp add: sock_safe_def)
qed

lemma put_live:
  assumes s: "sock_live X s" and t: "table_ok u" "(fd, x) \<in> set (table u)" "table u = table s"
    and s': "objects s' = (objects s)(x := Some st')" "table s' = table s"
      "\<And>k. k \<noteq> fd \<Longrightarrow> user_ptr s' k = user_ptr s k \<and> interest s' k = interest s k"
    and st': "native st' \<noteq> None" "x \<notin> X' \<Longrightarrow> armed_ok st'" "X \<subseteq> insert x X'"
      "case user_ptr s' fd of None \<Rightarrow> watch st' = 0 | Some _ \<Rightarrow> interest s' fd = Some (watch st')"
  shows "sock_live X' s'"
  unfolding sock_live_def s'(2)
proof (intro allI impI)
  fix k y v assume e: "(k, y) \<in> set (table s)" "objects s' y = Some v"
  show "native v \<noteq> None \<and> (y \<notin> X' \<longrightarrow> armed_ok v) \<and>
      (case user_ptr s' k of None \<Rightarrow> watch v = 0 | Some _ \<Rightarrow> interest s' k = Some (watch v))"
  proof (cases "y = x")
    case True
    with e have "v = st'" "k = fd" using s'(1) table_inj [OF t(1,2), of k] t(3) by simp_all
    with st' True show ?thesis by blast
  next
    case False
    then have "k \<noteq> fd" using table_fun [OF t(1,2), of y] e(1) t(3) by auto
    with False e s s'(1,3) st'(3) show ?thesis unfolding sock_live_def by (metis fun_upd_other insertE subsetD)
  qed
qed

section \<open>Arming\<close>

definition reads :: "socket_state \<Rightarrow> bool" where
  "reads st \<longleftrightarrow> wants (watch st) CURL_POLL_IN \<and> \<not> read_armed st"

definition writes :: "socket_state \<Rightarrow> bool" where
  "writes st \<longleftrightarrow> wants (watch st) CURL_POLL_OUT \<and> \<not> write_armed st"

definition armed :: "sid \<Rightarrow> socket_state \<Rightarrow> sockets \<Rightarrow> sockets" where
  "armed x st s = s\<lparr>objects := (objects s)(x := Some (st\<lparr>read_armed := read_armed st \<or> reads st,
       write_armed := write_armed st \<or> writes st\<rparr>)),
     pending_waits := pending_waits s @ (if reads st then [(x, CURL_CSELECT_IN)] else []) @
       (if writes st then [(x, CURL_CSELECT_OUT)] else [])\<rparr>"

lemma arm_eq:
  assumes "objects s x = Some st"
  shows "arm x s = Inr (if native st = None then s else armed x st s)"
proof -
  have same: "put_object x v s = s" if "objects s x = Some v" for v
    using that by (simp add: fun_upd_idem)
  show ?thesis
    using assms same
    by (cases st) (auto simp: arm_def arm_read_def arm_write_def armed_def reads_def writes_def)
qed

lemma armed_waits:
  assumes w: "waits_ok s" and x: "objects s x = Some st" "native st \<noteq> None"
  shows "waits_ok (armed x st s)"
  unfolding waits_ok_def
proof (intro conjI allI impI ballI)
  let ?n = "(if reads st then {#(x, CURL_CSELECT_IN)#} else {#}) +
    (if writes st then {#(x, CURL_CSELECT_OUT)#} else {#})"
  have out: "mset (outstanding (armed x st s)) = mset (outstanding s) + ?n"
    by (simp add: outstanding_def armed_def)
  fix y v assume v: "objects (armed x st s) y = Some v"
  show "object_waits (armed x st s) y v"
  proof (cases "y = x")
    case True
    from w x(1) have "object_waits s x st" unfolding waits_ok_def by blast
    with x(2) have c: "count (mset (outstanding s)) (x, CURL_CSELECT_IN) = of_bool (read_armed st)"
        "count (mset (outstanding s)) (x, CURL_CSELECT_OUT) = of_bool (write_armed st)"
        "\<And>flag. (x, flag, Wait_aborted) \<notin> set (queued_waits s)"
      by (auto simp: object_waits_def)
    obtain d where d: "native st = Some d" using x(2) by blast
    have rw: "read_armed st \<Longrightarrow> \<not> reads st" "write_armed st \<Longrightarrow> \<not> writes st"
      by (simp_all add: reads_def writes_def)
    have v': "v = st\<lparr>read_armed := read_armed st \<or> reads st, write_armed := write_armed st \<or> writes st\<rparr>"
      using v True by (simp add: armed_def)
    have q: "queued_waits (armed x st s) = queued_waits s" by (simp add: armed_def)
    show ?thesis
      unfolding object_waits_def out v' True q
      using c rw d by (cases "read_armed st"; cases "write_armed st") simp_all
  next
    case False
    with v w have "object_waits s y v" by (simp add: waits_ok_def armed_def)
    moreover have "y \<in> fst ` set (pending_waits (armed x st s)) \<longleftrightarrow> y \<in> fst ` set (pending_waits s)"
      "queued_waits (armed x st s) = queued_waits s"
      using False by (auto simp: armed_def image_Un)
    ultimately show ?thesis using False by (simp add: object_waits_def out)
  qed
next
  fix p assume "p \<in> set (outstanding (armed x st s))"
  then have "p \<in> set (outstanding s) \<or> p = (x, CURL_CSELECT_IN) \<or> p = (x, CURL_CSELECT_OUT)"
    by (auto simp: outstanding_def armed_def split: if_splits)
  with w show "snd p = CURL_CSELECT_IN \<or> snd p = CURL_CSELECT_OUT" by (auto simp: waits_ok_def)
qed

lemma armed_safe:
  assumes s: "sock_safe s" and x: "(fd, x) \<in> set (table s)" "objects s x = Some st" "native st \<noteq> None"
  shows "sock_safe (armed x st s)"
proof -
  have "waits_ok s" using s by (simp add: sock_safe_def)
  from armed_waits [OF this x(2,3)] show ?thesis
    by (intro put_safe [OF s x(1,2)]) (simp_all add: armed_def)
qed

section \<open>The callbacks keep the invariants\<close>

lemma waits_ok_put:
  assumes "waits_ok s" "objects s x = Some st" "read_armed st' = read_armed st"
    "write_armed st' = write_armed st" "native st' = native st"
  shows "waits_ok (put_object x st' s)"
proof -
  have "outstanding (put_object x st' s) = outstanding s" by (simp add: outstanding_def)
  moreover have "object_waits (put_object x st' s) y v = object_waits s y v" for y v
    by (simp add: object_waits_def outstanding_def)
  moreover have "object_waits s x st' = object_waits s x st"
    using assms(3-5) by (simp add: object_waits_def)
  ultimately show ?thesis using assms(1,2) by (auto simp: waits_ok_def)
qed

lemma armed_armed_ok:
  "armed_ok (st\<lparr>read_armed := read_armed st \<or> reads st, write_armed := write_armed st \<or> writes st\<rparr>)"
  by (auto simp: armed_ok_def reads_def writes_def)

text \<open>\<open>arm\<close> after \<open>watch\<close> was set, and after \<open>on_event\<close> cleared a flag.\<close>

lemma arm_watch:
  assumes s: "sock_safe s" and x: "(fd, x) \<in> set (table s)" "objects s x = Some st"
  obtains s' where "arm x (put_object x (st\<lparr>watch := w\<rparr>) s) = Inr s'" "sock_safe s'"
    "user_ptr s' = user_ptr s" "in_use s' = in_use s" "table s' = table s"
    "\<And>X s0 i. sock_live X s0 \<Longrightarrow> table s0 = table s \<Longrightarrow> objects s0 = objects s \<Longrightarrow>
       (\<And>k. k \<noteq> fd \<Longrightarrow> user_ptr s k = user_ptr s0 k \<and> i k = interest s0 k) \<Longrightarrow>
       (case user_ptr s fd of None \<Rightarrow> w = 0 | Some _ \<Rightarrow> i fd = Some w) \<Longrightarrow>
       sock_live (X - {x}) (s'\<lparr>interest := i\<rparr>)"
proof -
  let ?st = "st\<lparr>watch := w\<rparr>" and ?s = "put_object x (st\<lparr>watch := w\<rparr>) s"
  have t: "table_ok s" and w: "waits_ok s" using s by (simp_all add: sock_safe_def)
  have s1: "sock_safe ?s"
    by (rule put_safe [OF s x, of ?st]) (use waits_ok_put [OF w x(2), of ?st] in simp_all)
  show ?thesis
  proof (cases "native st")
    case None
    have "\<not> sock_live X s0" if "table s0 = table s" "objects s0 = objects s" for X s0
      using x None that unfolding sock_live_def by metis
    then have no: "sock_live X s0 \<Longrightarrow> table s0 = table s \<Longrightarrow> objects s0 = objects s \<Longrightarrow> P" for X s0 P
      by blast
    have "arm x ?s = Inr ?s" using arm_eq [of ?s x ?st] None by simp
    then show ?thesis using s1 by (rule that) (simp, simp, simp, erule no, assumption+)
  next
    case (Some d)
    let ?s' = "armed x ?st ?s"
    have "sock_safe ?s'" by (rule armed_safe [OF s1]) (use x Some in auto)
    moreover have "arm x ?s = Inr ?s'" using arm_eq [of ?s x ?st] Some by simp
    moreover have "sock_live (X - {x}) (?s'\<lparr>interest := i\<rparr>)"
      if "sock_live X s0" "table s0 = table s" "objects s0 = objects s"
        "\<And>k. k \<noteq> fd \<Longrightarrow> user_ptr s k = user_ptr s0 k \<and> i k = interest s0 k"
        "case user_ptr s fd of None \<Rightarrow> w = 0 | Some _ \<Rightarrow> i fd = Some w" for X s0 i
      by (rule put_live [OF that(1) t x(1), where st' = "?st\<lparr>read_armed := read_armed ?st \<or> reads ?st,
          write_armed := write_armed ?st \<or> writes ?st\<rparr>"])
        (use that armed_armed_ok [of ?st] Some in \<open>auto simp: armed_def split: option.splits\<close>)
    ultimately show ?thesis by (intro that [of ?s']) (simp_all add: armed_def)
  qed
qed

text \<open>A new entry of the table.\<close>

definition new_entry :: "fd \<Rightarrow> sid \<Rightarrow> fd \<Rightarrow> bool \<Rightarrow> sockets \<Rightarrow> sockets" where
  "new_entry fd x d b s = s\<lparr>opened := opened s @ [d],
     objects := (objects s)(x := Some ((new_socket_state b)\<lparr>native := Some d, ss_fd := fd\<rparr>)),
     table := table s @ [(fd, x)]\<rparr>"

lemma fresh_notin:
  assumes "table_ok s" "fresh_state x s"
  shows "x \<notin> snd ` set (table s)"
proof
  assume "x \<in> snd ` set (table s)"
  then obtain k where "(k, x) \<in> set (table s)" by auto
  with table_object [OF assms(1) this] assms(2) show False by (auto simp: fresh_state_def)
qed

lemma new_entry_safe:
  assumes s: "sock_safe s" and f: "fresh_state x s" "d \<notin> set (held_fds s)" "fd \<notin> fst ` set (table s)"
    and b: "\<not> b \<Longrightarrow> d = fd"
    and u: "u = (if b then (user_ptr s)(fd := Some x) else user_ptr s)"
  shows "sock_safe ((new_entry fd x d b s)\<lparr>user_ptr := u\<rparr>)" (is "sock_safe ?s")
  unfolding sock_safe_def
proof (intro conjI)
  have t: "table_ok s" and o: "objects_ok s" and w: "waits_ok s" and g: "fds_ok s"
    using s by (simp_all add: sock_safe_def)
  let ?st = "(new_socket_state b)\<lparr>native := Some d, ss_fd := fd\<rparr>"
  have x: "objects s x = None" "x \<notin> fst ` set (outstanding s)" "x \<notin> snd ` set (table s)"
    using f(1) fresh_notin [OF t f(1)] by (simp_all add: fresh_state_def)
  have tab: "table ?s = table s @ [(fd, x)]" by (simp add: new_entry_def)
  have obj: "objects (new_entry fd x d b s) = (objects s)(x := Some ?st)" by (simp add: new_entry_def)
  show "table_ok ?s"
    unfolding table_ok_def
  proof (intro conjI allI impI)
    show "distinct (map fst (table ?s))" "distinct (map snd (table ?s))"
      using t f(3) x(3) unfolding tab by (simp_all add: table_ok_def)
  next
    fix k y assume "(k, y) \<in> set (table ?s)"
    then consider "(k, y) \<in> set (table s)" | "k = fd" "y = x" unfolding tab by auto
    then show "\<exists>v. objects ?s y = Some v \<and> entry_ok ?s k y v"
    proof cases
      case 1
      then have "k \<noteq> fd" "y \<noteq> x" using f(3) x(3) by force+
      moreover obtain v where v: "objects s y = Some v" "entry_ok s k y v"
        using table_object [OF t 1] .
      ultimately have "entry_ok ?s k y v" by (simp add: entry_ok_def u)
      with v \<open>y \<noteq> x\<close> show ?thesis by (simp add: obj)
    next
      case 2
      then show ?thesis using b u by (auto simp: obj entry_ok_def new_socket_state_def)
    qed
  next
    fix k y assume "user_ptr ?s k = Some y"
    with t u show "(k, y) \<in> set (table ?s)" unfolding tab table_ok_def by (auto split: if_splits)
  qed
  have out: "outstanding ?s = outstanding s" by (simp add: outstanding_def new_entry_def)
  show "objects_ok ?s"
    unfolding objects_ok_def
  proof (intro conjI allI impI)
    fix y v assume "objects ?s y = Some v" "y \<notin> snd ` set (table ?s)"
    then have "objects s y = Some v" "y \<notin> snd ` set (table s)" unfolding tab by (auto simp: obj)
    with o have "in_use s = Some y \<and> native v = None \<and> watch v = 0" unfolding objects_ok_def by blast
    then show "in_use ?s = Some y" "native v = None" "watch v = 0" by (simp_all add: new_entry_def)
  next
    fix y assume "in_use ?s = Some y"
    with o have "objects s y \<noteq> None" unfolding objects_ok_def by (simp add: new_entry_def)
    then show "objects ?s y \<noteq> None" by (simp add: obj)
  qed
  have "object_waits ?s = object_waits s"
    by (simp add: fun_eq_iff object_waits_def out) (simp add: new_entry_def)
  moreover have "object_waits s x ?st"
  proof -
    have "(x, flag) \<notin> set (outstanding s)" for flag using x(2) by force
    then have "count (mset (outstanding s)) (x, flag) = 0" for flag by simp
    moreover have "(x, flag, Wait_aborted) \<notin> set (queued_waits s)" for flag
      using x(2) by (force simp: outstanding_def)
    moreover have "x \<notin> fst ` set (pending_waits s)" using x(2) by (auto simp: outstanding_def)
    ultimately show ?thesis by (simp add: object_waits_def new_socket_state_def)
  qed
  ultimately show "waits_ok ?s" using w by (auto simp: waits_ok_def out obj)
  have "native_of ?s y = native_of s y" if "y \<noteq> x" for y using that by (simp add: native_of_def obj)
  then have "\<And>e. e \<in> set (table s) \<Longrightarrow> native_of ?s (snd e) = native_of s (snd e)"
    using x(3) by force
  then have "map (native_of ?s \<circ> snd) (table s) = map (native_of s \<circ> snd) (table s)"
    by (auto simp only: map_eq_conv comp_apply)
  moreover have "native_of ?s x = [d]" by (simp add: native_of_def obj)
  ultimately have "held_fds ?s = held_fds s @ [d]" by (simp only: held_fds_def tab map_append concat_append list.map concat.simps comp_apply snd_conv append_Nil2)
  then show "fds_ok ?s" using g f(2) by (simp add: fds_ok_def) (simp add: new_entry_def)
qed

lemma new_entry_live:
  assumes "sock_live X s" "table_ok s" "fresh_state x s" "fd \<notin> fst ` set (table s)"
  shows "sock_live X (new_entry fd x d b s)"
  unfolding sock_live_def
proof (intro allI impI)
  let ?s = "new_entry fd x d b s"
  fix k y v assume e: "(k, y) \<in> set (table ?s)" "objects ?s y = Some v"
  have "user_ptr s fd \<noteq> Some z" for z
  proof
    assume "user_ptr s fd = Some z"
    with assms(2) have "(fd, z) \<in> set (table s)" unfolding table_ok_def by blast
    with assms(4) show False by force
  qed
  then have n: "user_ptr s fd = None" by blast
  show "native v \<noteq> None \<and> (y \<notin> X \<longrightarrow> armed_ok v) \<and>
      (case user_ptr ?s k of None \<Rightarrow> watch v = 0 | Some _ \<Rightarrow> interest ?s k = Some (watch v))"
  proof (cases "y = x")
    case True
    then have "k = fd" using e(1) fresh_notin [OF assms(2,3)] by (force simp: new_entry_def)
    with True e(2) n show ?thesis
      by (auto simp: new_entry_def new_socket_state_def armed_ok_def wants_def)
  next
    case False
    with e have "(k, y) \<in> set (table s)" "objects s y = Some v" by (auto simp: new_entry_def)
    with assms(1) have "native v \<noteq> None \<and> (y \<notin> X \<longrightarrow> armed_ok v) \<and>
        (case user_ptr s k of None \<Rightarrow> watch v = 0 | Some _ \<Rightarrow> interest s k = Some (watch v))"
      unfolding sock_live_def by blast
    then show ?thesis by (simp add: new_entry_def split: option.splits)
  qed
qed

lemma store_new:
  assumes "fd \<notin> fst ` set (table s)"
  shows "store_entry fd x (put_object x ((new_socket_state b)\<lparr>native := Some d, ss_fd := fd\<rparr>)
      (s\<lparr>opened := opened s @ [d]\<rparr>)) = Inr (new_entry fd x d b s)"
proof -
  have "map_of (table s) fd = None" using assms by (simp add: map_of_eq_None_iff)
  then show ?thesis by (simp add: store_entry_def new_entry_def update_new)
qed

text \<open>One call: what it keeps. \<open>in_use\<close> never changes.\<close>

definition keeps :: "sockets \<Rightarrow> sockets \<Rightarrow> bool" where
  "keeps s s' \<longleftrightarrow> sock_safe s' \<and> in_use s' = in_use s \<and> (\<forall>X. sock_live X s \<longrightarrow> sock_live X s')"

lemma open_keeps:
  assumes s: "sock_safe s" and c: "call_contract (Open_socket purpose family open_ans x) s"
  shows "safely (\<lambda>(fd, s'). keeps s s') (open_socket_cb purpose family open_ans x s)"
proof (cases open_ans)
  case None
  with s show ?thesis by (simp add: open_socket_cb_def keeps_def)
next
  case (Some fd)
  have t: "table_ok s" using s by (simp add: sock_safe_def)
  from c Some have f: "fresh_state x s" "fd \<notin> set (held_fds s)" "fd \<notin> fst ` set (table s)"
    by (simp_all add: fresh_fd_def)
  have same: "(new_entry fd x fd False s)\<lparr>user_ptr := user_ptr s\<rparr> = new_entry fd x fd False s"
    by (simp add: new_entry_def)
  have "keeps s (new_entry fd x fd False s)"
    using new_entry_safe [OF s f, of False "user_ptr s"] new_entry_live [OF _ t f(1,3)] same
    by (simp add: keeps_def) (simp add: new_entry_def)
  moreover have "keeps s s" using s by (simp add: keeps_def)
  ultimately show ?thesis
    using store_new [OF f(3), where x = x and b = False and d = fd] Some by (auto simp: open_socket_cb_def)
qed

text \<open>Closing the socket of an entry and dropping it, as two callbacks do.\<close>

lemma gone_keeps:
  assumes s: "sock_safe s" and x: "(fd, x) \<in> set (table s)" "objects s x = Some st"
    and u: "u fd = None" "\<And>k. k \<noteq> fd \<Longrightarrow> u k = user_ptr s k \<and> i k = interest s k"
  shows "erase_entry fd (shut x st s) = Inr (forget fd x (shut x st s))"
    and "keeps s ((forget fd x (shut x st s))\<lparr>user_ptr := u, interest := i\<rparr>)"
proof -
  let ?s = "shut x st s" and ?st = "st\<lparr>watch := 0, native := None\<rparr>"
  have safe: "sock_safe ?s" by (rule shut_safe [OF s x])
  have t: "table_ok s" "table_ok ?s" using s safe by (simp_all add: sock_safe_def)
  have x': "(fd, x) \<in> set (table ?s)" "objects ?s x = Some ?st" using x(1) by (simp_all add: shut_def)
  show "erase_entry fd ?s = Inr (forget fd x ?s)" by (rule erase_eq [OF t(2) x']) simp
  have "sock_safe ((forget fd x ?s)\<lparr>user_ptr := u\<rparr>)"
    by (rule forget_safe [OF safe x']) (use u in \<open>simp_all add: shut_def\<close>)
  moreover have "sock_live X ((forget fd x ?s)\<lparr>user_ptr := u, interest := i\<rparr>)" if "sock_live X s" for X
    by (rule forget_live [OF that t(1) x(1)]) (use u(2) in \<open>auto simp: forget_def shut_def\<close>)
  moreover have "in_use (forget fd x ?s) = in_use s" by (simp add: forget_def shut_def)
  ultimately show "keeps s ((forget fd x ?s)\<lparr>user_ptr := u, interest := i\<rparr>)"
    by (simp add: keeps_def frame_simps)
qed

lemma keeps_frame [frame_simps]: "keeps s (s'\<lparr>closed_for_curl := c\<rparr>) = keeps s s'"
  by (simp add: keeps_def frame_simps)

lemma close_keeps:
  assumes s: "sock_safe s" and c: "user_ptr s fd = None"
  shows "safely (keeps s) (close_socket_cb fd s)"
proof (cases "map_of (table s) fd")
  case None
  with s show ?thesis by (simp add: close_socket_cb_def close_native_def keeps_def frame_simps)
next
  case (Some x)
  have t: "table_ok s" and w: "waits_ok s" using s by (simp_all add: sock_safe_def)
  have xt: "(fd, x) \<in> set (table s)" using Some map_of_table [OF t] by blast
  from table_object [OF t xt] obtain st where st: "objects s x = Some st" "entry_ok s fd x st" .
  with c have b: "\<not> borrowed st" by (auto simp: entry_ok_def)
  have same: "s'\<lparr>user_ptr := user_ptr s, interest := interest s\<rparr> = s'"
    if "user_ptr s' = user_ptr s" "interest s' = interest s" for s' :: sockets
    using that by simp
  note g = gone_keeps [OF s xt st(1), of "user_ptr s" "interest s", OF c]
  have "keeps s (forget fd x (shut x st s))"
    using g(2) same [of "forget fd x (shut x st s)"] by (simp add: forget_def shut_def)
  with Some st b shut_eq [OF w st(1)] g(1) show ?thesis by (simp add: close_socket_cb_def)
qed

lemma interest_live:
  assumes "sock_live X s" "user_ptr s fd = None" "\<And>k. k \<noteq> fd \<Longrightarrow> i k = interest s k"
  shows "sock_live X (s\<lparr>interest := i\<rparr>)"
  unfolding sock_live_def
proof (intro allI impI)
  fix k y v assume e: "(k, y) \<in> set (table (s\<lparr>interest := i\<rparr>))" "objects (s\<lparr>interest := i\<rparr>) y = Some v"
  then have v: "native v \<noteq> None \<and> (y \<notin> X \<longrightarrow> armed_ok v) \<and>
      (case user_ptr s k of None \<Rightarrow> watch v = 0 | Some _ \<Rightarrow> interest s k = Some (watch v))"
    using assms(1) unfolding sock_live_def by simp
  show "native v \<noteq> None \<and> (y \<notin> X \<longrightarrow> armed_ok v) \<and>
      (case user_ptr (s\<lparr>interest := i\<rparr>) k of None \<Rightarrow> watch v = 0
       | Some _ \<Rightarrow> interest (s\<lparr>interest := i\<rparr>) k = Some (watch v))"
    using v assms(2,3) by (cases "k = fd") (auto split: option.splits)
qed

lemma user_ptr_safe:
  assumes s: "sock_safe s" and x: "(fd, x) \<in> set (table s)" "objects s x = Some st"
    and u: "u = (user_ptr s)(fd := v)" "v = Some x \<or> v = None \<and> \<not> borrowed st"
  shows "sock_safe (s\<lparr>user_ptr := u\<rparr>)"
proof -
  have t: "table_ok s" using s by (simp add: sock_safe_def)
  have "table_ok (s\<lparr>user_ptr := u\<rparr>)"
    unfolding table_ok_def
  proof (intro conjI allI impI)
    fix k y assume "(k, y) \<in> set (table (s\<lparr>user_ptr := u\<rparr>))"
    then have e: "(k, y) \<in> set (table s)" by simp
    from table_object [OF t this] obtain w where w: "objects s y = Some w" "entry_ok s k y w" .
    moreover have "entry_ok (s\<lparr>user_ptr := u\<rparr>) k y w"
    proof (cases "k = fd")
      case True
      with table_fun [OF t x(1)] e have "y = x" by blast
      with w x(2) have "w = st" by simp
      with True \<open>y = x\<close> w(2) u show ?thesis by (auto simp: entry_ok_def)
    next
      case False
      with w(2) u(1) show ?thesis by (simp add: entry_ok_def)
    qed
    ultimately show "\<exists>w. objects (s\<lparr>user_ptr := u\<rparr>) y = Some w \<and> entry_ok (s\<lparr>user_ptr := u\<rparr>) k y w"
      by auto
  next
    fix k y assume "user_ptr (s\<lparr>user_ptr := u\<rparr>) k = Some y"
    with t u x(1) show "(k, y) \<in> set (table (s\<lparr>user_ptr := u\<rparr>))"
      unfolding table_ok_def by (auto split: if_splits)
  qed (use t in \<open>simp_all add: table_ok_def\<close>)
  then show ?thesis
    using s by (simp add: sock_safe_def objects_ok_def waits_ok_def object_waits_def fds_ok_def
        held_fds_def native_of_def [abs_def] outstanding_def comp_def)
qed

lemma notify_watch:
  assumes s: "sock_safe s" and x: "(fd, x) \<in> set (table s)" "objects s x = Some st" "user_ptr s fd = Some x"
    and w: "what \<noteq> CURL_POLL_REMOVE"
    and s0: "table s0 = table s" "objects s0 = objects s" "interest s0 = interest s"
      "\<And>k. k \<noteq> fd \<Longrightarrow> user_ptr s k = user_ptr s0 k" "in_use s0 = in_use s"
  shows "safely (\<lambda>s'. sock_safe s' \<and> in_use s' = in_use s \<and> (\<forall>X. sock_live X s0 \<longrightarrow> sock_live X s'))
    (and_then (apply_interest x fd what s) (\<lambda>s. Inr (s\<lparr>interest := (interest s)(fd := Some what)\<rparr>)))"
proof -
  have "apply_interest x fd what s = arm x (put_object x (st\<lparr>watch := what\<rparr>) s)"
    using x w by (simp add: apply_interest_def)
  moreover from s x(1,2) obtain s' where s': "arm x (put_object x (st\<lparr>watch := what\<rparr>) s) = Inr s'"
    "sock_safe s'" "in_use s' = in_use s" "interest s' = interest s"
    "\<And>X i. sock_live X s0 \<Longrightarrow> (\<And>k. k \<noteq> fd \<Longrightarrow> i k = interest s0 k) \<Longrightarrow>
       i fd = Some what \<Longrightarrow> sock_live (X - {x}) (s'\<lparr>interest := i\<rparr>)"
  proof (rule arm_watch [where w = what])
    fix s' assume s': "arm x (put_object x (st\<lparr>watch := what\<rparr>) s) = Inr s'" "sock_safe s'"
      "in_use s' = in_use s"
      "\<And>X s0 i. sock_live X s0 \<Longrightarrow> table s0 = table s \<Longrightarrow> objects s0 = objects s \<Longrightarrow>
       (\<And>k. k \<noteq> fd \<Longrightarrow> user_ptr s k = user_ptr s0 k \<and> i k = interest s0 k) \<Longrightarrow>
       (case user_ptr s fd of None \<Rightarrow> what = 0 | Some _ \<Rightarrow> i fd = Some what) \<Longrightarrow>
       sock_live (X - {x}) (s'\<lparr>interest := i\<rparr>)"
    have "interest s' = interest s"
      using s'(1) x(2) arm_eq [of "put_object x (st\<lparr>watch := what\<rparr>) s" x]
      by (auto simp: armed_def split: if_splits)
    with s' x(3) s0(1,2,4) that [of s'] show ?thesis by simp
  qed
  moreover have "sock_live X (s'\<lparr>interest := (interest s')(fd := Some what)\<rparr>)" if "sock_live X s0" for X
  proof -
    have "sock_live (X - {x}) (s'\<lparr>interest := (interest s')(fd := Some what)\<rparr>)"
      by (rule s'(5) [OF that]) (simp_all add: s'(4) s0(3))
    then show ?thesis unfolding sock_live_def by blast
  qed
  ultimately show ?thesis by (simp add: frame_simps)
qed

lemma notify_remove:
  assumes s: "sock_safe s" and p: "user_ptr s fd = Some x"
  shows "safely (keeps s) (notify fd CURL_POLL_REMOVE ans s)"
proof -
  have t: "table_ok s" and w: "waits_ok s" using s by (simp_all add: sock_safe_def)
  then have x: "(fd, x) \<in> set (table s)" using p by (simp add: table_ok_def)
  from table_object [OF t x] obtain st where st: "objects s x = Some st" "entry_ok s fd x st" .
  let ?u = "(user_ptr s)(fd := None)" and ?i = "(interest s)(fd := None)"
  show ?thesis
  proof (cases "borrowed st")
    case True
    note g = gone_keeps [OF s x st(1), of ?u ?i]
    have "erase_entry fd (shut x st s) = Inr (forget fd x (shut x st s))" by (rule g(1)) simp_all
    moreover have "keeps s ((forget fd x (shut x st s))\<lparr>user_ptr := ?u, interest := ?i\<rparr>)"
      by (rule g(2)) simp_all
    moreover have "user_ptr (forget fd x (shut x st s)) = user_ptr s"
      "interest (forget fd x (shut x st s)) = interest s"
      by (simp_all add: forget_def shut_def)
    ultimately show ?thesis
      using p st(1) True shut_eq [OF w st(1)]
      by (simp add: notify_def socket_cb_def apply_interest_def)
  next
    case False
    let ?st = "st\<lparr>watch := 0\<rparr>"
    let ?s = "put_object x ?st s"
    have s1: "sock_safe ?s"
      by (rule put_safe [OF s x st(1), of ?st]) (use waits_ok_put [OF w st(1), of ?st] in simp_all)
    have "sock_safe (?s\<lparr>user_ptr := ?u\<rparr>)"
      by (rule user_ptr_safe [OF s1, of fd x ?st _ None]) (use x False in simp_all)
    then have "sock_safe (?s\<lparr>user_ptr := ?u, interest := ?i\<rparr>)" by (simp add: frame_simps)
    moreover have "sock_live X (?s\<lparr>user_ptr := ?u, interest := ?i\<rparr>)" if "sock_live X s" for X
    proof (rule put_live [OF that t x, where st' = ?st])
      show "native ?st \<noteq> None" using that x st(1) unfolding sock_live_def by force
      show "x \<notin> X \<Longrightarrow> armed_ok ?st" by (simp add: armed_ok_def wants_def)
    qed auto
    ultimately show ?thesis
      using p st(1) False by (simp add: notify_def socket_cb_def apply_interest_def keeps_def)
  qed
qed

lemma borrow_cases:
  assumes "map_of (table s) fd = None"
  shows "borrow fd d ok x s =
    Inr (if d < 0 then (None, s)
         else if \<not> ok then (None, s\<lparr>opened := opened s @ [d], closed := closed s @ [d]\<rparr>)
         else (Some x, new_entry fd x d True s))"
proof -
  have "fd \<notin> fst ` set (table s)" using assms by (simp add: map_of_eq_None_iff)
  from store_new [OF this, where x = x and b = True and d = d] show ?thesis by (simp add: borrow_def Let_def)
qed

lemma notify_keeps:
  assumes s: "sock_safe s" and c: "call_contract (Notify fd what ans) s"
  shows "safely (keeps s) (notify fd what ans s)"
proof (cases "user_ptr s fd")
  case (Some x)
  have t: "table_ok s" using s by (simp add: sock_safe_def)
  then have x: "(fd, x) \<in> set (table s)" using Some by (simp add: table_ok_def)
  from table_object [OF t x] obtain st where st: "objects s x = Some st" .
  show ?thesis
  proof (cases "what = CURL_POLL_REMOVE")
    case True
    with notify_remove [OF s Some] show ?thesis by simp
  next
    case False
    with notify_watch [OF s x st Some False, of s] Some show ?thesis
      by (simp add: notify_def socket_cb_def keeps_def [abs_def])
  qed
next
  case None
  have t: "table_ok s" using s by (simp add: sock_safe_def)
  have int: "keeps s (s\<lparr>interest := (interest s)(fd := w)\<rparr>)" for w
    using s interest_live [OF _ None, of _ "(interest s)(fd := w)"] by (simp add: keeps_def frame_simps)
  consider "what = CURL_POLL_REMOVE" | x where "what \<noteq> CURL_POLL_REMOVE" "(fd, x) \<in> set (table s)"
    | "what \<noteq> CURL_POLL_REMOVE" "map_of (table s) fd = None"
    by (cases "map_of (table s) fd") (use map_of_table [OF t] in blast)+
  then show ?thesis
  proof cases
    case 1
    have same: "(user_ptr s)(fd := None) = user_ptr s" using None by (simp add: fun_upd_idem)
    with 1 None int [of None] show ?thesis by (simp add: notify_def socket_cb_def)
  next
    case (2 x)
    from table_object [OF t 2(2)] obtain st where st: "objects s x = Some st" "entry_ok s fd x st" .
    let ?s = "s\<lparr>user_ptr := (user_ptr s)(fd := Some x)\<rparr>"
    have s1: "sock_safe ?s" by (rule user_ptr_safe [OF s 2(2) st(1), of _ "Some x"]) simp_all
    have "map_of (table s) fd = Some x" using 2(2) map_of_table [OF t] by blast
    then have n: "notify fd what ans s = and_then (apply_interest x fd what ?s)
        (\<lambda>s. Inr (s\<lparr>interest := (interest s)(fd := Some what)\<rparr>))"
      using 2(1) None by (simp add: notify_def socket_cb_def watched_state_def)
    have "safely (\<lambda>s'. sock_safe s' \<and> in_use s' = in_use ?s \<and> (\<forall>X. sock_live X s \<longrightarrow> sock_live X s'))
        (notify fd what ans s)"
      unfolding n by (rule notify_watch [OF s1, of fd x st]) (use 2 st in simp_all)
    then show ?thesis by (rule safely_weaken) (simp add: keeps_def)
  next
    case 3
    let ?x = "state_at ans" and ?d = "dup_fd ans"
    have key: "fd \<notin> fst ` set (table s)" using 3(2) by (simp add: map_of_eq_None_iff)
    from c have f: "fresh_state ?x s" "0 \<le> ?d \<Longrightarrow> ?d \<notin> set (held_fds s)" by (simp_all add: fresh_fd_def)
    consider "?d < 0" | "0 \<le> ?d" "\<not> assign_ok ans" | "0 \<le> ?d" "assign_ok ans" by linarith
    then show ?thesis
    proof cases
      case 1
      with 3 None int [of "Some what"] borrow_cases [OF 3(2)] show ?thesis
        by (simp add: notify_def socket_cb_def watched_state_def)
    next
      case 2
      have "keeps s (s\<lparr>opened := opened s @ [?d], closed := closed s @ [?d],
          interest := (interest s)(fd := Some what)\<rparr>)"
        using int [of "Some what"]
        by (simp add: keeps_def sock_safe_def table_ok_def entry_ok_def objects_ok_def waits_ok_def
            object_waits_def fds_ok_def held_fds_def native_of_def [abs_def] outstanding_def comp_def
            sock_live_def cong: if_cong option.case_cong)
      with 2 3 None borrow_cases [OF 3(2)] show ?thesis
        by (simp add: notify_def socket_cb_def watched_state_def)
    next
      case 3
      let ?e = "new_entry fd ?x ?d True s"
      let ?u = "(user_ptr s)(fd := Some ?x)"
      let ?st = "(new_socket_state True)\<lparr>native := Some ?d, ss_fd := fd\<rparr>"
      have s1: "sock_safe (?e\<lparr>user_ptr := ?u\<rparr>)"
        using new_entry_safe [OF s f(1) f(2) key, of True ?u] 3 by simp
      have e: "user_ptr ?e = user_ptr s" "objects ?e ?x = Some ?st" "(fd, ?x) \<in> set (table ?e)"
        "in_use ?e = in_use s"
        by (simp_all add: new_entry_def)
      have n: "notify fd what ans s = and_then (apply_interest ?x fd what (?e\<lparr>user_ptr := ?u\<rparr>))
          (\<lambda>s. Inr (s\<lparr>interest := (interest s)(fd := Some what)\<rparr>))"
        using \<open>what \<noteq> CURL_POLL_REMOVE\<close> \<open>map_of (table s) fd = None\<close> 3 None e(1)
          borrow_cases [of s fd ?d "assign_ok ans" ?x]
        by (simp add: notify_def socket_cb_def watched_state_def)
      have "safely (\<lambda>s'. sock_safe s' \<and> in_use s' = in_use (?e\<lparr>user_ptr := ?u\<rparr>) \<and>
          (\<forall>X. sock_live X ?e \<longrightarrow> sock_live X s')) (notify fd what ans s)"
        unfolding n by (rule notify_watch [OF s1, of fd ?x ?st]) (use \<open>what \<noteq> CURL_POLL_REMOVE\<close> e in simp_all)
      then show ?thesis
        by (rule safely_weaken) (use e new_entry_live [OF _ t f(1) key] in \<open>simp add: keeps_def\<close>)
    qed
  qed
qed

lemma keeps_trans: "keeps s s' \<Longrightarrow> keeps s' s'' \<Longrightarrow> keeps s s''"
  by (simp add: keeps_def)

lemma do_call_keeps: "sock_safe s \<Longrightarrow> safely (keeps s) (do_call c s)"
proof (cases c)
  case (Open_socket purpose family open_ans x)
  assume s: "sock_safe s"
  show ?thesis
    unfolding Open_socket do_call.simps
    by (intro safely_expect safely_and_then [OF open_keeps [OF s]]) auto
qed (auto intro!: safely_expect close_keeps notify_keeps simp del: call_contract.simps(1,3))

lemma do_calls_keeps: "sock_safe s \<Longrightarrow> safely (keeps s) (do_calls cs s)"
proof (induction cs arbitrary: s)
  case Nil
  then show ?case by (simp add: keeps_def)
next
  case (Cons c cs)
  show ?case
    unfolding run_all.simps
  proof (rule safely_and_then [OF do_call_keeps [OF Cons.prems]])
    fix s' assume "keeps s s'"
    moreover from this have "safely (keeps s') (do_calls cs s')" by (intro Cons.IH) (simp add: keeps_def)
    ultimately show "safely (keeps s) (do_calls cs s')" by (auto elim: safely_weaken keeps_trans)
  qed
qed

section \<open>Events\<close>

text \<open>Between events no state is being worked on.\<close>

definition sock_inv :: "sockets \<Rightarrow> bool" where
  "sock_inv s \<longleftrightarrow> sock_safe s \<and> sock_live {} s \<and> in_use s = None"

lemma new_sockets_inv: "sock_inv new_sockets"
  by (simp add: sock_inv_def sock_safe_def table_ok_def objects_ok_def waits_ok_def object_waits_def
      fds_ok_def held_fds_def outstanding_def sock_live_def new_sockets_def)

lemma idle_in_table:
  assumes "objects_ok s" "in_use s = None" "objects s x = Some st"
  obtains fd where "(fd, x) \<in> set (table s)"
proof -
  have "x \<in> snd ` set (table s)" using assms unfolding objects_ok_def by fastforce
  then show ?thesis using that by auto
qed

definition unqueued :: "nat \<Rightarrow> sockets \<Rightarrow> sockets" where
  "unqueued i s = s\<lparr>queued_waits := take i (queued_waits s) @ drop (i + 1) (queued_waits s)\<rparr>"

lemma unqueued_outstanding:
  assumes "i < length (queued_waits s)" "queued_waits s ! i = (x, flag, ec)"
  shows "mset (outstanding s) = add_mset (x, flag) (mset (outstanding (unqueued i s)))"
proof -
  have "mset (queued_waits s) = add_mset (x, flag, ec) (mset (queued_waits (unqueued i s)))"
    using nth_split_mset [OF assms(1)] assms(2) by (simp add: unqueued_def)
  moreover have "pending_waits (unqueued i s) = pending_waits s" by (simp add: unqueued_def)
  ultimately show ?thesis by (simp add: outstanding_def)
qed

lemma unqueued_set: "set (queued_waits (unqueued i s)) \<subseteq> set (queued_waits s)"
  by (auto simp: unqueued_def dest: in_set_takeD in_set_dropD)

lemma unqueued_other:
  assumes w: "waits_ok s" and i: "i < length (queued_waits s)" "queued_waits s ! i = (x, flag, ec)"
    and y: "y \<noteq> x" "objects s y = Some v"
  shows "object_waits (unqueued i s) y v"
proof -
  have "object_waits s y v" using w y(2) unfolding waits_ok_def by blast
  moreover have "pending_waits (unqueued i s) = pending_waits s" by (simp add: unqueued_def)
  ultimately show ?thesis
    using y(1) unqueued_set [of i s] unfolding object_waits_def unqueued_outstanding [OF i] by auto
qed

lemma unqueued_flags:
  assumes w: "waits_ok s" and i: "i < length (queued_waits s)" "queued_waits s ! i = (x, flag, ec)"
  shows "\<forall>w \<in> set (outstanding (unqueued i s)). snd w = CURL_CSELECT_IN \<or> snd w = CURL_CSELECT_OUT"
    "flag = CURL_CSELECT_IN \<or> flag = CURL_CSELECT_OUT"
proof -
  have "set (outstanding s) = insert (x, flag) (set (outstanding (unqueued i s)))"
    using unqueued_outstanding [OF i] by (metis set_mset_add_mset_insert set_mset_mset)
  with w show "\<forall>w \<in> set (outstanding (unqueued i s)). snd w = CURL_CSELECT_IN \<or> snd w = CURL_CSELECT_OUT"
    "flag = CURL_CSELECT_IN \<or> flag = CURL_CSELECT_OUT"
    by (auto simp: waits_ok_def)
qed

lemma unqueued_dead:
  assumes s: "sock_inv s" and i: "i < length (queued_waits s)" "queued_waits s ! i = (x, flag, ec)"
    and x: "objects s x = None"
  shows "sock_inv (unqueued i s)"
proof -
  have w: "waits_ok s" using s by (simp add: sock_inv_def sock_safe_def)
  have "waits_ok (unqueued i s)"
    unfolding waits_ok_def
  proof (intro conjI allI impI)
    fix y v assume "objects (unqueued i s) y = Some v"
    then have v: "objects s y = Some v" by (simp add: unqueued_def)
    with x have "y \<noteq> x" by auto
    then show "object_waits (unqueued i s) y v" by (rule unqueued_other [OF w i _ v])
  qed (rule unqueued_flags [OF w i])
  moreover have "table_ok (unqueued i s) = table_ok s"
    by (simp add: table_ok_def entry_ok_def unqueued_def)
  moreover have "objects_ok (unqueued i s) = objects_ok s" by (simp add: objects_ok_def unqueued_def)
  moreover have "fds_ok (unqueued i s) = fds_ok s"
    by (simp add: fds_ok_def held_fds_def native_of_def [abs_def] comp_def unqueued_def)
  moreover have "sock_live {} (unqueued i s) = sock_live {} s"
    by (simp add: sock_live_def unqueued_def cong: option.case_cong)
  moreover have "in_use (unqueued i s) = in_use s" by (simp add: unqueued_def)
  ultimately show ?thesis using s by (simp add: sock_inv_def sock_safe_def)
qed

definition begun :: "sid \<Rightarrow> int \<Rightarrow> socket_state \<Rightarrow> sockets \<Rightarrow> sockets" where
  "begun x flag st s = put_object x (clear_armed flag st) (s\<lparr>in_use := Some x\<rparr>)"

lemma begun_inv:
  assumes s: "sock_inv s" and i: "i < length (queued_waits s)" "queued_waits s ! i = (x, flag, ec)"
    and x: "objects s x = Some st"
  shows "sock_safe (begun x flag st (unqueued i s))" "sock_live {x} (begun x flag st (unqueued i s))"
proof -
  let ?s = "begun x flag st (unqueued i s)" and ?st = "clear_armed flag st"
  have safe: "sock_safe s" and live: "sock_live {} s" and free: "in_use s = None"
    using s by (simp_all add: sock_inv_def)
  then have t: "table_ok s" and w: "waits_ok s" and o: "objects_ok s" by (simp_all add: sock_safe_def)
  obtain fd where fd: "(fd, x) \<in> set (table s)" using idle_in_table [OF o free x] .
  have fl: "flag = CURL_CSELECT_IN \<or> flag = CURL_CSELECT_OUT" by (rule unqueued_flags [OF w i])
  have out: "outstanding ?s = outstanding (unqueued i s)" by (simp add: begun_def outstanding_def)
  have same: "object_waits ?s = object_waits (unqueued i s)"
    by (simp add: fun_eq_iff object_waits_def out) (simp add: begun_def)
  have ow: "object_waits s x st" using w x unfolding waits_ok_def by blast
  let ?c = "\<lambda>d. count (mset (outstanding (unqueued i s))) (x, d)"
  have "?c CURL_CSELECT_IN + of_bool (flag = CURL_CSELECT_IN) = of_bool (read_armed st)"
    "?c CURL_CSELECT_OUT + of_bool (flag = CURL_CSELECT_OUT) = of_bool (write_armed st)"
  proof -
    have "count (mset (outstanding s)) (x, d) = ?c d + of_bool (flag = d)" for d
      by (simp add: unqueued_outstanding [OF i])
    moreover have "count (mset (outstanding s)) (x, CURL_CSELECT_IN) = of_bool (read_armed st)"
      "count (mset (outstanding s)) (x, CURL_CSELECT_OUT) = of_bool (write_armed st)"
      using ow by (simp_all only: object_waits_def)
    ultimately show "?c CURL_CSELECT_IN + of_bool (flag = CURL_CSELECT_IN) = of_bool (read_armed st)"
      "?c CURL_CSELECT_OUT + of_bool (flag = CURL_CSELECT_OUT) = of_bool (write_armed st)"
      by metis+
  qed
  then have "?c CURL_CSELECT_IN = of_bool (read_armed ?st)" "?c CURL_CSELECT_OUT = of_bool (write_armed ?st)"
    using fl by (auto simp: clear_armed_def of_bool_def split: if_splits)
  moreover have "native ?st = native st" by (simp add: clear_armed_def)
  moreover have "pending_waits (unqueued i s) = pending_waits s" by (simp add: unqueued_def)
  ultimately have own: "object_waits (unqueued i s) x ?st"
    using ow unqueued_set [of i s] unfolding object_waits_def by auto
  have "waits_ok ?s"
    unfolding waits_ok_def out same
  proof (intro conjI allI impI)
    fix y v assume v: "objects ?s y = Some v"
    show "object_waits (unqueued i s) y v"
    proof (cases "y = x")
      case True
      with v own show ?thesis by (simp add: begun_def)
    next
      case False
      with v have "objects s y = Some v" by (simp add: begun_def unqueued_def)
      then show ?thesis by (rule unqueued_other [OF w i False])
    qed
  qed (rule unqueued_flags [OF w i])
  then show "sock_safe ?s"
    by (intro put_safe [OF safe fd x, of ?st])
      (use free in \<open>simp_all add: begun_def unqueued_def clear_armed_def\<close>)
  have "native st \<noteq> None \<and>
      (case user_ptr s fd of None \<Rightarrow> watch st = 0 | Some _ \<Rightarrow> interest s fd = Some (watch st))"
    using live fd x unfolding sock_live_def by blast
  then show "sock_live {x} ?s"
    by (intro put_live [OF live t fd, where st' = ?st])
      (auto simp: begun_def unqueued_def clear_armed_def split: option.splits)
qed

lemma rearm_keeps:
  assumes s: "sock_safe s" and x: "in_use s = Some x"
  shows "safely (\<lambda>s'. sock_safe s' \<and> in_use s' = Some x \<and> (sock_live {x} s \<longrightarrow> sock_live {} s')) (rearm x s)"
proof -
  have o: "objects_ok s" using s by (simp add: sock_safe_def)
  with x obtain st where st: "objects s x = Some st" unfolding objects_ok_def by blast
  show ?thesis
  proof (cases "x \<in> snd ` set (table s)")
    case True
    then obtain fd where fd: "(fd, x) \<in> set (table s)" by auto
    show ?thesis
    proof (cases "watch st = 0")
      case True
      then have "armed_ok st" by (simp add: armed_ok_def wants_def)
      with st have "sock_live {x} s \<Longrightarrow> sock_live {} s" unfolding sock_live_def by fastforce
      with s x st True show ?thesis by (simp add: rearm_def)
    next
      case False
      have same: "put_object x (st\<lparr>watch := watch st\<rparr>) s = s" using st by (simp add: fun_upd_idem)
      from s fd st obtain s' where s': "arm x s = Inr s'" "sock_safe s'" "in_use s' = in_use s"
        "\<And>i. sock_live {x} s \<Longrightarrow> (\<And>k. k \<noteq> fd \<Longrightarrow> i k = interest s k) \<Longrightarrow>
          (case user_ptr s fd of None \<Rightarrow> watch st = 0 | Some _ \<Rightarrow> i fd = Some (watch st)) \<Longrightarrow>
          sock_live {} (s'\<lparr>interest := i\<rparr>)" "interest s' = interest s"
      proof (rule arm_watch [where w = "watch st"])
        fix s' assume s': "arm x (put_object x (st\<lparr>watch := watch st\<rparr>) s) = Inr s'" "sock_safe s'"
          "in_use s' = in_use s"
          "\<And>X s0 i. sock_live X s0 \<Longrightarrow> table s0 = table s \<Longrightarrow> objects s0 = objects s \<Longrightarrow>
           (\<And>k. k \<noteq> fd \<Longrightarrow> user_ptr s k = user_ptr s0 k \<and> i k = interest s0 k) \<Longrightarrow>
           (case user_ptr s fd of None \<Rightarrow> watch st = 0 | Some _ \<Rightarrow> i fd = Some (watch st)) \<Longrightarrow>
           sock_live (X - {x}) (s'\<lparr>interest := i\<rparr>)"
        have a: "arm x s = Inr s'" using s'(1) unfolding same .
        then have "interest s' = interest s"
          using arm_eq [OF st] by (auto simp: armed_def split: if_splits)
        with s' a that [of s'] s'(4) [of "{x}" s] show ?thesis by simp
      qed
      have "sock_live {} s'" if l: "sock_live {x} s"
      proof -
        have "case user_ptr s fd of None \<Rightarrow> watch st = 0 | Some _ \<Rightarrow> interest s fd = Some (watch st)"
          using l fd st unfolding sock_live_def by blast
        with l have "sock_live {} (s'\<lparr>interest := interest s'\<rparr>)" unfolding s'(5) by (intro s'(4)) simp_all
        then show ?thesis by simp
      qed
      with s' x st False show ?thesis by (simp add: rearm_def)
    qed
  next
    case False
    with o st have "watch st = 0" unfolding objects_ok_def by blast
    moreover have "sock_live {x} s \<Longrightarrow> sock_live {} s" using False unfolding sock_live_def by force
    ultimately show ?thesis using s x st by (simp add: rearm_def)
  qed
qed

lemma drop_event_inv:
  assumes s: "sock_safe s" "sock_live {} s" and x: "in_use s = Some x"
  shows "safely sock_inv (drop_event x s)"
proof -
  have o: "objects_ok s" using s by (simp add: sock_safe_def)
  with x obtain st where st: "objects s x = Some st" unfolding objects_ok_def by blast
  have other: "in_use s = Some y \<Longrightarrow> y = x" for y using x by simp
  show ?thesis
  proof (cases "x \<in> snd ` set (table s)")
    case True
    have "objects_ok (s\<lparr>in_use := None\<rparr>)"
      using o True other unfolding objects_ok_def by auto
    with s True show ?thesis
      by (simp add: drop_event_def release_def sock_inv_def sock_safe_def table_ok_def entry_ok_def
          waits_ok_def object_waits_def fds_ok_def held_fds_def native_of_def [abs_def] outstanding_def
          comp_def sock_live_def cong: if_cong option.case_cong)
  next
    case False
    let ?s = "s\<lparr>in_use := None, objects := (objects s)(x := None)\<rparr>"
    have n: "native st = None" using o st False unfolding objects_ok_def by blast
    have obj: "objects ?s y = objects s y" if "y \<in> snd ` set (table s)" for y
      using that False by auto
    have "objects_ok ?s" using o other unfolding objects_ok_def by auto
    moreover have "table_ok ?s"
      using s(1) False unfolding sock_safe_def table_ok_def
      by (auto simp: entry_ok_def cong: if_cong) (metis image_eqI snd_conv)+
    moreover have "held_fds ?s = held_fds s"
      by (rule held_update) (use False in auto)
    then have "fds_ok ?s" using s(1) by (simp add: sock_safe_def fds_ok_def)
    moreover have "waits_ok ?s"
      using s(1) by (simp add: sock_safe_def waits_ok_def object_waits_def outstanding_def)
    moreover have "sock_live {} ?s"
      using s(2) unfolding sock_live_def by (auto split: if_splits cong: option.case_cong)
    ultimately show ?thesis
      using st False n by (simp add: drop_event_def release_def socket_close_def sock_inv_def sock_safe_def)
  qed
qed

lemma aborted_dead:
  assumes s: "sock_inv s" and q: "(x, flag, Wait_aborted) \<in> set (queued_waits s)"
  shows "objects s x = None"
proof (rule ccontr)
  assume "objects s x \<noteq> None"
  then obtain st where st: "objects s x = Some st" by blast
  have o: "objects_ok s" and w: "waits_ok s" and l: "sock_live {} s" and i: "in_use s = None"
    using s by (simp_all add: sock_inv_def sock_safe_def)
  obtain fd where "(fd, x) \<in> set (table s)" using idle_in_table [OF o i st] .
  with l st have "native st \<noteq> None" unfolding sock_live_def by blast
  moreover have "object_waits s x st" using w st unfolding waits_ok_def by blast
  with q have "native st = None" unfolding object_waits_def by blast
  ultimately show False by simp
qed

lemma begin_event_begun:
  assumes "objects s x = Some st" "ec \<noteq> Wait_aborted"
  shows "begin_event x flag ec (unqueued i s) = Inr (True, (begun x flag st (unqueued i s))\<lparr>actions :=
    actions s @ [(ss_fd st, if ec \<noteq> Wait_ok then CURL_CSELECT_ERR else flag)]\<rparr>)"
  using assms by (simp add: begin_event_def begun_def unqueued_def)

lemma fire_inv:
  assumes s: "sock_inv s"
  shows "safely sock_inv (fire_wait i calls s)"
proof (cases "i < length (queued_waits s)")
  case False
  with s show ?thesis by (simp add: fire_wait_def)
next
  case True
  obtain x flag ec where q: "queued_waits s ! i = (x, flag, ec)" by (cases "queued_waits s ! i")
  have fire: "fire_wait i calls s =
      (if objects s x = None then Inr (unqueued i s) else on_event x flag ec calls (unqueued i s))"
    using True q by (simp add: fire_wait_def unqueued_def Let_def)
  show ?thesis
  proof (cases "objects s x")
    case None
    with unqueued_dead [OF s True q] show ?thesis by (simp add: fire)
  next
    case (Some st)
    have ec: "ec \<noteq> Wait_aborted"
    proof
      assume "ec = Wait_aborted"
      then have "(x, flag, Wait_aborted) \<in> set (queued_waits s)" using True q by (metis nth_mem)
      from aborted_dead [OF s this] Some show False by simp
    qed
    let ?b = "(begun x flag st (unqueued i s))\<lparr>actions :=
      actions s @ [(ss_fd st, if ec \<noteq> Wait_ok then CURL_CSELECT_ERR else flag)]\<rparr>"
    have b: "sock_safe ?b" "sock_live {x} ?b" "in_use ?b = Some x"
      using begun_inv [OF s True q Some] by (simp_all add: frame_simps) (simp add: begun_def)
    have "safely sock_inv (and_then (do_calls calls ?b) (\<lambda>s. and_then (rearm x s) (drop_event x)))"
    proof (rule safely_and_then [OF do_calls_keeps [OF b(1)]])
      fix s1 assume "keeps ?b s1"
      with b have s1: "sock_safe s1" "sock_live {x} s1" "in_use s1 = Some x" by (auto simp: keeps_def)
      show "safely sock_inv (and_then (rearm x s1) (drop_event x))"
        by (rule safely_and_then [OF rearm_keeps [OF s1(1,3)]]) (use s1(2) drop_event_inv in blast)
    qed
    with Some show ?thesis by (simp add: fire on_event_def begin_event_begun [OF Some ec])
  qed
qed

lemma wait_done_inv:
  assumes s: "sock_inv s"
  shows "sock_inv (wait_done i ok s)"
proof (cases "i < length (pending_waits s)")
  case False
  with s show ?thesis by (simp add: wait_done_def)
next
  case True
  let ?s = "wait_done i ok s"
  obtain x flag where q: "pending_waits s ! i = (x, flag)" by (cases "pending_waits s ! i")
  have sd: "?s = s\<lparr>pending_waits := take i (pending_waits s) @ drop (i + 1) (pending_waits s),
      queued_waits := queued_waits s @ [(x, flag, if ok then Wait_ok else Wait_error)]\<rparr>"
    using True q by (simp add: wait_done_def)
  have out: "mset (outstanding ?s) = mset (outstanding s)"
    using nth_split_mset [OF True] q unfolding sd outstanding_def by simp
  have pend: "set (pending_waits ?s) \<subseteq> set (pending_waits s)"
    unfolding sd by (auto dest: in_set_takeD in_set_dropD)
  have w: "waits_ok s" using s by (simp add: sock_inv_def sock_safe_def)
  have "waits_ok ?s"
    unfolding waits_ok_def
  proof (intro conjI allI impI)
    fix y v assume "objects ?s y = Some v"
    then have "object_waits s y v" using w unfolding sd waits_ok_def by simp
    with pend show "object_waits ?s y v"
      unfolding object_waits_def out by (auto simp: sd)
  next
    show "\<forall>w \<in> set (outstanding ?s). snd w = CURL_CSELECT_IN \<or> snd w = CURL_CSELECT_OUT"
      using w mset_eq_setD [OF out] by (simp add: waits_ok_def)
  qed
  moreover have "table_ok ?s = table_ok s" by (simp add: table_ok_def entry_ok_def sd)
  moreover have "objects_ok ?s = objects_ok s" by (simp add: objects_ok_def sd)
  moreover have "fds_ok ?s = fds_ok s"
    by (simp add: fds_ok_def held_fds_def native_of_def [abs_def] comp_def sd)
  moreover have "sock_live {} ?s = sock_live {} s" by (simp add: sock_live_def sd cong: option.case_cong)
  moreover have "in_use ?s = in_use s" by (simp add: sd)
  ultimately show ?thesis using s by (simp add: sock_inv_def sock_safe_def)
qed

lemma do_call_inv: "sock_inv s \<Longrightarrow> safely sock_inv (do_call c s)"
  using do_call_keeps [of s c] by (auto simp: sock_inv_def keeps_def elim!: safely_weaken)

lemma socket_do_inv: "sock_inv s \<Longrightarrow> safely sock_inv (socket_do op s)"
  by (cases op) (simp_all add: do_call_inv fire_inv wait_done_inv)

interpretation sck: component socket_do sock_inv
  by unfold_locales (rule socket_do_inv)

section \<open>Teardown\<close>

text \<open>What dropping the table needs: every object is in it, and the descriptors add up.\<close>

definition drop_ok :: "sockets \<Rightarrow> bool" where
  "drop_ok s \<longleftrightarrow> distinct (map fst (table s)) \<and> distinct (map snd (table s)) \<and> in_use s = None \<and>
     (\<forall>x. objects s x \<noteq> None \<longleftrightarrow> x \<in> snd ` set (table s)) \<and>
     mset (opened s) = mset (held_fds s) + mset (closed s)"

lemma sever_safe:
  "sock_safe s \<Longrightarrow> set es \<subseteq> set (table s) \<Longrightarrow>
     safely (\<lambda>s'. sock_safe s' \<and> in_use s' = in_use s \<and> table s' = table s) (sever es s)"
proof (induction es arbitrary: s)
  case Nil
  then show ?case by simp
next
  case (Cons e es)
  obtain fd x where e: "e = (fd, x)" by force
  have t: "table_ok s" and w: "waits_ok s" using Cons.prems by (simp_all add: sock_safe_def)
  have x: "(fd, x) \<in> set (table s)" using Cons.prems e by simp
  from table_object [OF t this] obtain st where st: "objects s x = Some st" .
  have "sock_safe (shut x st s)" by (rule shut_safe [OF Cons.prems(1) x st])
  from Cons.IH [OF this] Cons.prems e st shut_eq [OF w st] show ?case
    by (auto simp: shut_def elim!: safely_weaken)
qed

lemma drop_step:
  assumes s: "drop_ok s" and tab: "table s = (fd, x) # es"
  shows "safely (\<lambda>s'. drop_ok s' \<and> table s' = es) (erase_entry fd s)"
proof -
  from s tab obtain st where st: "objects s x = Some st" unfolding drop_ok_def by force
  have notin: "fd \<notin> fst ` set es" "x \<notin> snd ` set es"
    using s tab by (simp_all add: drop_ok_def)
  then have del: "AList.delete fd (table s) = es" using tab by (simp add: delete_absent)
  let ?p = "if native st = None then pending_waits s else filter (\<lambda>w. fst w \<noteq> x) (pending_waits s)"
  let ?q = "if native st = None then queued_waits s else queued_waits s @
       map (\<lambda>w. (fst w, snd w, Wait_aborted)) (filter (\<lambda>w. fst w = x) (pending_waits s))"
  let ?s = "s\<lparr>table := es, objects := (objects s)(x := None), closed := closed s @ native_of s x,
     pending_waits := ?p, queued_waits := ?q\<rparr>"
  have eq: "erase_entry fd s = Inr ?s"
    using s tab st notin(2) del
    by (cases "native st")
      (simp_all add: erase_entry_def release_def socket_close_def native_of_def drop_ok_def)
  have "map (native_of ?s \<circ> snd) es = map (native_of s \<circ> snd) es"
    using notin(2) by (auto simp: native_of_def)
  moreover have "table ?s = es" by simp
  ultimately have h: "held_fds s = native_of s x @ held_fds ?s"
    unfolding held_fds_def tab by (simp only: list.map concat.simps comp_apply snd_conv)
  have "(objects ?s y \<noteq> None) = (y \<in> snd ` set es)" for y
    using s tab notin(2) unfolding drop_ok_def by (cases "y = x") auto
  then have "drop_ok ?s" using s tab h unfolding drop_ok_def by simp
  then show ?thesis by (simp add: eq)
qed

lemma drop_table_ok:
  "drop_ok s \<Longrightarrow> safely (\<lambda>s'. drop_ok s' \<and> table s' = []) (drop_table (table s) s)"
proof (induction "table s" arbitrary: s)
  case Nil
  then show ?case by simp
next
  case (Cons e es)
  obtain fd x where e: "table s = (fd, x) # es" using Cons.hyps(2) [symmetric] by (cases e) simp
  have "drop_table (table s) s = and_then (erase_entry fd s) (drop_table es)" unfolding e by simp
  also have "safely (\<lambda>s'. drop_ok s' \<and> table s' = []) \<dots>"
  proof (rule safely_and_then [OF drop_step [OF Cons.prems e]])
    fix s' assume "drop_ok s' \<and> table s' = es"
    with Cons.hyps(1) [of s'] show "safely (\<lambda>s'. drop_ok s' \<and> table s' = []) (drop_table es s')" by simp
  qed
  finally show ?case .
qed

lemma safe_drop_ok:
  assumes "sock_safe s" "in_use s = None"
  shows "drop_ok s"
proof -
  have "objects s x \<noteq> None \<longleftrightarrow> x \<in> snd ` set (table s)" for x
  proof
    assume "objects s x \<noteq> None"
    with assms show "x \<in> snd ` set (table s)" unfolding sock_safe_def objects_ok_def by fastforce
  next
    assume "x \<in> snd ` set (table s)"
    then obtain fd where "(fd, x) \<in> set (table s)" by auto
    moreover have "table_ok s" using assms by (simp add: sock_safe_def)
    ultimately show "objects s x \<noteq> None" using table_object by (metis option.distinct(1))
  qed
  with assms show ?thesis by (simp add: drop_ok_def sock_safe_def table_ok_def fds_ok_def)
qed

lemma teardown_closes_all:
  assumes s: "sock_inv s"
  shows "safely (\<lambda>s'. (\<forall>x. objects s' x = None) \<and> table s' = [] \<and> mset (opened s') = mset (closed s'))
    (socket_teardown calls s)"
  unfolding socket_teardown_def
proof (rule safely_and_then [OF sever_safe])
  show "sock_safe s" "set (table s) \<subseteq> set (table s)" using s by (simp_all add: sock_inv_def)
  fix s1 assume s1: "sock_safe s1 \<and> in_use s1 = in_use s \<and> table s1 = table s"
  show "safely (\<lambda>s'. (\<forall>x. objects s' x = None) \<and> table s' = [] \<and> mset (opened s') = mset (closed s'))
      (and_then (do_calls calls s1) (\<lambda>s. drop_table (table s) s))"
  proof (rule safely_and_then [OF do_calls_keeps])
    show "sock_safe s1" using s1 by blast
    fix s2 assume "keeps s1 s2"
    with s1 s have "drop_ok s2" by (intro safe_drop_ok) (simp_all add: keeps_def sock_inv_def)
    from drop_table_ok [OF this] show "safely (\<lambda>s'. (\<forall>x. objects s' x = None) \<and> table s' = [] \<and>
        mset (opened s') = mset (closed s')) (drop_table (table s2) s2)"
      by (rule safely_weaken) (auto simp: drop_ok_def held_fds_def)
  qed
qed

end
