(* ===== verification/Timer.thy ===== *)
theory Timer
  imports Prelude
begin

text \<open>
  The timer of \<open>cofetch::Client\<close> (\<open>include/cofetch.h\<close>): \<open>timer_cb\<close>, \<open>kick\<close>, the two completion
  handlers that call it, and the \<open>alive_\<close> flag they check.

  The ASIO timer has one expiry for all its pending waits; changing or cancelling it aborts
  them, reaching it completes them, and a completed wait is queued on the \<open>io_context\<close> and can
  no longer be aborted. Times are milliseconds of the steady clock. \<open>wanted\<close> records the deadline of
  libcurl's last timer callback, until the client next calls \<open>curl_multi_socket_action\<close> with
  \<open>CURL_SOCKET_TIMEOUT\<close>: libcurl then does what is due and calls back if it wants another.
\<close>

section \<open>State\<close>

record timer =
  clock :: int
  timer_armed :: bool
  expiry :: int
  pending_ticks :: nat
  queued_ticks :: "bool list"
  kick_pending :: bool
  posted_kicks :: nat
  alive :: bool
  gone :: bool
  wanted :: "int option"
  kicks :: "int list"

text \<open>A queued wait is \<open>True\<close> when it completed, \<open>False\<close> when it was aborted.\<close>

definition new_timer :: "int \<Rightarrow> timer" where
  "new_timer now = \<lparr>clock = now, timer_armed = False, expiry = now, pending_ticks = 0,
     queued_ticks = [], kick_pending = False, posted_kicks = 0, alive = True, gone = False,
     wanted = None, kicks = []\<rparr>"

section \<open>What ASIO does\<close>

definition abort_ticks :: "timer \<Rightarrow> timer" where
  "abort_ticks s = s\<lparr>queued_ticks := queued_ticks s @ replicate (pending_ticks s) False,
     pending_ticks := 0\<rparr>"

definition expires_at :: "int \<Rightarrow> timer \<Rightarrow> timer" where
  "expires_at d s = (abort_ticks s)\<lparr>expiry := d\<rparr>"

definition async_wait :: "timer \<Rightarrow> timer" where
  "async_wait s = s\<lparr>pending_ticks := pending_ticks s + 1\<rparr>"

definition expire :: "timer \<Rightarrow> timer" where
  "expire s = (if expiry s \<le> clock s
     then s\<lparr>queued_ticks := queued_ticks s @ replicate (pending_ticks s) True, pending_ticks := 0\<rparr>
     else s)"

section \<open>The client\<close>

text \<open>
  \<open>timer_cb\<close>; \<open>clock\<close> is what \<open>steady_clock::now()\<close> reads. Using the members of a client that is
  gone is \<open>Undefined\<close>.
\<close>

definition timer_cb :: "int \<Rightarrow> timer \<Rightarrow> timer" where
  "timer_cb timeout_ms s =
     (if timeout_ms < 0 then (abort_ticks s)\<lparr>timer_armed := False\<rparr>
      else if timeout_ms = 0 then
        (if \<not> kick_pending s
         then s\<lparr>kick_pending := True, posted_kicks := posted_kicks s + 1\<rparr>
         else s)
      else let deadline = clock s + timeout_ms
        in if timer_armed s \<and> expiry s \<le> deadline then s
           else async_wait ((expires_at deadline s)\<lparr>timer_armed := True\<rparr>))"

text \<open>
  libcurl's view of a callback: the time read is not earlier than before, and the deadline it
  wants is the one it last asked for.
\<close>

definition timer_call :: "int \<times> int \<Rightarrow> timer \<Rightarrow> timer outcome" where
  "timer_call c s = (case c of (timeout_ms, now) \<Rightarrow>
     expect (clock s \<le> now \<and> \<not> gone s)
       (let s = timer_cb timeout_ms (s\<lparr>clock := now\<rparr>)
        in Inr (s\<lparr>wanted := (if timeout_ms < 0 then None else Some (now + timeout_ms))\<rparr>)))"

abbreviation timer_calls :: "(int \<times> int) list \<Rightarrow> timer \<Rightarrow> timer outcome" where
  "timer_calls \<equiv> run_all timer_call"

text \<open>
  \<open>kick\<close> up to the callbacks libcurl makes: \<open>curl_multi_socket_action\<close> with
  \<open>CURL_SOCKET_TIMEOUT\<close>.
\<close>

definition begin_kick :: "timer \<Rightarrow> timer outcome" where
  "begin_kick s = (if gone s then Inl Undefined
     else Inr (s\<lparr>kicks := kicks s @ [clock s], wanted := None\<rparr>))"

text \<open>
  The handler of \<open>timer_.async_wait\<close> and the posted kick, up to the callbacks. The result tells
  whether \<open>kick\<close> was called.
\<close>

definition tick_handler :: "bool \<Rightarrow> timer \<Rightarrow> (bool \<times> timer) outcome" where
  "tick_handler ok s =
     (if \<not> ok \<or> \<not> alive s then Inr (False, s)
      else if gone s then Inl Undefined
      else and_then (begin_kick (s\<lparr>timer_armed := False\<rparr>)) (\<lambda>s. Inr (True, s)))"

definition begin_tick :: "nat \<Rightarrow> timer \<Rightarrow> (bool \<times> timer) outcome" where
  "begin_tick i s =
     (if i < length (queued_ticks s)
      then tick_handler (queued_ticks s ! i)
        (s\<lparr>queued_ticks := take i (queued_ticks s) @ drop (i + 1) (queued_ticks s)\<rparr>)
      else Inr (False, s))"

definition kick_handler :: "timer \<Rightarrow> (bool \<times> timer) outcome" where
  "kick_handler s =
     (if \<not> alive s then Inr (False, s)
      else if gone s then Inl Undefined
      else and_then (begin_kick (s\<lparr>kick_pending := False\<rparr>)) (\<lambda>s. Inr (True, s)))"

definition begin_posted :: "timer \<Rightarrow> (bool \<times> timer) outcome" where
  "begin_posted s =
     (if posted_kicks s > 0 then kick_handler (s\<lparr>posted_kicks := posted_kicks s - 1\<rparr>)
      else Inr (False, s))"

text \<open>With the calls libcurl makes before the next event.\<close>

definition with_calls :: "(int \<times> int) list \<Rightarrow> (bool \<times> timer) outcome \<Rightarrow> timer outcome" where
  "with_calls calls m = and_then m (\<lambda>(go, s). if go then timer_calls calls s else Inr s)"

definition run_tick :: "nat \<Rightarrow> (int \<times> int) list \<Rightarrow> timer \<Rightarrow> timer outcome" where
  "run_tick i calls s = with_calls calls (begin_tick i s)"

definition run_kick :: "(int \<times> int) list \<Rightarrow> timer \<Rightarrow> timer outcome" where
  "run_kick calls s = with_calls calls (begin_posted s)"

text \<open>
  \<open>~Client\<close>: its first two statements, the callbacks libcurl makes while it is cleaned up, and
  the end of the members' lifetime, which aborts what is pending.
\<close>

definition begin_teardown :: "timer \<Rightarrow> timer outcome" where
  "begin_teardown s = (if gone s then Inl Undefined else Inr (abort_ticks (s\<lparr>alive := False\<rparr>)))"

definition end_teardown :: "timer \<Rightarrow> timer outcome" where
  "end_teardown s = Inr ((abort_ticks s)\<lparr>gone := True\<rparr>)"

definition timer_teardown :: "(int \<times> int) list \<Rightarrow> timer \<Rightarrow> timer outcome" where
  "timer_teardown calls s =
     and_then (begin_teardown s) (\<lambda>s. and_then (timer_calls calls s) end_teardown)"

section \<open>As a component\<close>

datatype timer_op =
    Timer_call int int
  | Pass int
  | Expire
  | Run_tick nat "(int \<times> int) list"
  | Run_kick "(int \<times> int) list"
  | Teardown "(int \<times> int) list"

fun timer_do :: "timer_op \<Rightarrow> timer \<Rightarrow> timer outcome" where
  "timer_do (Timer_call timeout_ms now) s = timer_call (timeout_ms, now) s"
| "timer_do (Pass t) s = expect (clock s \<le> t) (Inr (s\<lparr>clock := t\<rparr>))"
| "timer_do Expire s = Inr (expire s)"
| "timer_do (Run_tick i calls) s = run_tick i calls s"
| "timer_do (Run_kick calls) s = run_kick calls s"
| "timer_do (Teardown calls) s = expect (\<not> gone s) (timer_teardown calls s)"

abbreviation timer_run :: "timer_op list \<Rightarrow> timer \<Rightarrow> timer outcome" where
  "timer_run \<equiv> run_all timer_do"

section \<open>Invariant\<close>

text \<open>
  Some wake-up covers what libcurl wants: a posted kick, a completed wait, or a pending wait
  that is due by then.
\<close>

definition covered :: "timer \<Rightarrow> int \<Rightarrow> bool" where
  "covered s d \<longleftrightarrow> posted_kicks s > 0 \<or> True \<in> set (queued_ticks s) \<or>
     (pending_ticks s > 0 \<and> expiry s \<le> d)"

definition timer_inv :: "timer \<Rightarrow> bool" where
  "timer_inv s \<longleftrightarrow>
     (gone s \<longrightarrow> \<not> alive s) \<and>
     pending_ticks s \<le> 1 \<and>
     (alive s \<longrightarrow> posted_kicks s = of_bool (kick_pending s)) \<and>
     (alive s \<longrightarrow> timer_armed s \<longrightarrow> pending_ticks s > 0 \<or> True \<in> set (queued_ticks s)) \<and>
     (alive s \<longrightarrow> (\<forall>d. wanted s = Some d \<longrightarrow> covered s d))"

lemma new_timer_inv: "timer_inv (new_timer now)"
  by (simp add: timer_inv_def new_timer_def)

lemma removed_tick:
  "i < length q \<Longrightarrow> q ! i = b \<Longrightarrow> b' \<noteq> b \<Longrightarrow>
     b' \<in> set (take i q @ drop (i + 1) q) \<longleftrightarrow> b' \<in> set q"
  using arg_cong [OF nth_split_mset, of i q set_mset] by (auto simp del: append_take_drop_id)

lemma timer_cb_inv:
  assumes "timer_inv s" "\<not> gone s"
  shows "timer_inv ((timer_cb t s)\<lparr>wanted := (if t < 0 then None else Some (clock s + t))\<rparr>)"
  using assms
  by (auto simp: timer_inv_def timer_cb_def covered_def abort_ticks_def expires_at_def async_wait_def
      Let_def)

lemma clock_inv [simp]: "timer_inv (s\<lparr>clock := t\<rparr>) = timer_inv s"
  by (simp add: timer_inv_def covered_def)

lemma timer_call_inv: "timer_inv s \<Longrightarrow> safely timer_inv (timer_call c s)"
  using timer_cb_inv [of "s\<lparr>clock := snd c\<rparr>" "fst c"]
  by (auto simp: timer_call_def Let_def split: prod.split intro!: safely_expect)

interpretation tcalls: component timer_call timer_inv
  by unfold_locales (rule timer_call_inv)

lemma timer_call_frame:
  "timer_call c s = Inr s' \<Longrightarrow> alive s' = alive s \<and> gone s' = gone s \<and> kicks s' = kicks s"
  by (auto simp: timer_call_def timer_cb_def abort_ticks_def expires_at_def async_wait_def
      expect_Inr Let_def split: prod.splits if_splits)

lemma timer_calls_frame:
  "timer_calls cs s = Inr s' \<Longrightarrow> alive s' = alive s \<and> gone s' = gone s \<and> kicks s' = kicks s"
  by (induction cs arbitrary: s) (fastforce simp: and_then_Inr dest: timer_call_frame)+

lemma begin_kick_inv:
  assumes "timer_inv (s\<lparr>wanted := None\<rparr>)" "\<not> gone s"
  shows "begin_kick s = Inr (s\<lparr>kicks := kicks s @ [clock s], wanted := None\<rparr>)"
    "timer_inv (s\<lparr>kicks := kicks s @ [clock s], wanted := None\<rparr>)"
  using assms by (simp_all add: begin_kick_def timer_inv_def covered_def)

lemma begin_tick_inv:
  assumes s: "timer_inv s"
  shows "safely (\<lambda>(go, s'). timer_inv s' \<and> alive s' = alive s \<and> gone s' = gone s) (begin_tick i s)"
proof (cases "i < length (queued_ticks s)")
  case True
  let ?q = "take i (queued_ticks s) @ drop (i + 1) (queued_ticks s)"
  show ?thesis
  proof (cases "queued_ticks s ! i \<and> alive s")
    case False
    have "timer_inv (s\<lparr>queued_ticks := ?q\<rparr>)"
    proof (cases "alive s")
      case True
      with False have "True \<in> set ?q \<longleftrightarrow> True \<in> set (queued_ticks s)"
        using removed_tick [OF \<open>i < length (queued_ticks s)\<close>, of False True] by simp
      then have "covered (s\<lparr>queued_ticks := ?q\<rparr>) d = covered s d" for d by (simp add: covered_def)
      with \<open>(True \<in> set ?q) = (True \<in> set (queued_ticks s))\<close> s show ?thesis by (simp add: timer_inv_def)
    qed (use s in \<open>simp add: timer_inv_def\<close>)
    with True False show ?thesis by (auto simp: begin_tick_def tick_handler_def)
  next
    case live: True
    with s have "\<not> gone s" by (auto simp: timer_inv_def)
    moreover have "timer_inv (s\<lparr>queued_ticks := ?q, timer_armed := False, wanted := None\<rparr>)"
      using s by (simp add: timer_inv_def covered_def)
    ultimately show ?thesis
      using True live begin_kick_inv [of "s\<lparr>queued_ticks := ?q, timer_armed := False\<rparr>"]
      by (simp add: begin_tick_def tick_handler_def)
  qed
qed (use s in \<open>simp add: begin_tick_def\<close>)

lemma begin_posted_inv:
  assumes s: "timer_inv s"
  shows "safely (\<lambda>(go, s'). timer_inv s' \<and> alive s' = alive s \<and> gone s' = gone s) (begin_posted s)"
proof (cases "posted_kicks s > 0 \<and> alive s")
  case True
  let ?s = "s\<lparr>posted_kicks := posted_kicks s - 1, kick_pending := False\<rparr>"
  have "posted_kicks s \<le> 1" and g: "\<not> gone s" using s True by (auto simp: timer_inv_def)
  with True have "posted_kicks s - 1 = 0" by simp
  then have "timer_inv (?s\<lparr>wanted := None\<rparr>)"
    using s True by (simp add: timer_inv_def covered_def)
  with begin_kick_inv [of ?s] g
  have k: "begin_kick ?s = Inr (?s\<lparr>kicks := kicks ?s @ [clock ?s], wanted := None\<rparr>)"
    "timer_inv (?s\<lparr>kicks := kicks ?s @ [clock ?s], wanted := None\<rparr>)" by simp_all
  have "begin_posted s = and_then (begin_kick ?s) (\<lambda>s. Inr (True, s))"
    using True g unfolding begin_posted_def kick_handler_def by simp
  with k show ?thesis by simp
next
  case False
  then consider "posted_kicks s = 0" | "\<not> alive s" by auto
  then show ?thesis
  proof cases
    case 2
    with s have "timer_inv (s\<lparr>posted_kicks := posted_kicks s - 1\<rparr>)" by (simp add: timer_inv_def)
    with 2 s show ?thesis by (simp add: begin_posted_def kick_handler_def)
  qed (use s in \<open>simp add: begin_posted_def\<close>)
qed

lemma with_calls_inv:
  "safely (\<lambda>(go, s'). timer_inv s' \<and> P s') m \<Longrightarrow> safely timer_inv (with_calls calls m)"
  unfolding with_calls_def by (erule safely_and_then) (auto intro: tcalls.run_safe)

lemma run_tick_inv: "timer_inv s \<Longrightarrow> safely timer_inv (run_tick i calls s)"
  unfolding run_tick_def by (rule with_calls_inv [OF begin_tick_inv])

lemma run_kick_inv: "timer_inv s \<Longrightarrow> safely timer_inv (run_kick calls s)"
  unfolding run_kick_def by (rule with_calls_inv [OF begin_posted_inv])

lemma begin_teardown_inv:
  "timer_inv s \<Longrightarrow> \<not> gone s \<Longrightarrow>
     safely (\<lambda>s'. timer_inv s' \<and> \<not> alive s' \<and> \<not> gone s') (begin_teardown s)"
  by (simp add: begin_teardown_def timer_inv_def abort_ticks_def)

lemma end_teardown_inv:
  "timer_inv s \<Longrightarrow> \<not> alive s \<Longrightarrow>
     safely (\<lambda>s'. timer_inv s' \<and> \<not> alive s' \<and> gone s') (end_teardown s)"
  by (simp add: end_teardown_def timer_inv_def abort_ticks_def)

lemma dying_timer_calls:
  "timer_inv s \<Longrightarrow> \<not> alive s \<Longrightarrow> safely (\<lambda>s'. timer_inv s' \<and> \<not> alive s') (timer_calls calls s)"
  using tcalls.run_safe [of s calls] by (auto simp: safely_def dest: timer_calls_frame)

lemma timer_teardown_inv:
  assumes "timer_inv s" "\<not> gone s"
  shows "safely timer_inv (timer_teardown calls s)"
  unfolding timer_teardown_def
  by (rule safely_and_then [OF begin_teardown_inv [OF assms]])
    (auto intro!: safely_and_then [OF dying_timer_calls] intro: safely_weaken [OF end_teardown_inv])

lemma timer_do_inv: "timer_inv s \<Longrightarrow> safely timer_inv (timer_do op s)"
  by (cases op)
    (auto intro!: safely_expect timer_call_inv run_tick_inv run_kick_inv timer_teardown_inv
      simp: expire_def timer_inv_def covered_def)

interpretation tmr: component timer_do timer_inv
  by unfold_locales (rule timer_do_inv)

lemma reachable_timer_inv: "timer_run ops (new_timer now) = Inr s \<Longrightarrow> timer_inv s"
  by (rule tmr.run_inv [OF new_timer_inv])

section \<open>Properties\<close>

text \<open>
  A timer wait or a posted kick that completes after the client is gone touches nothing of
  it, whatever libcurl armed or posted while the client was being destroyed.
\<close>

theorem timer_memory_safe: "timer_run ops (new_timer now) \<noteq> Inl Undefined"
  by (rule tmr.run_defined [OF new_timer_inv])

text \<open>
  C14: libcurl's deadline is never lost. While the client lives, if libcurl last asked for the
  deadline \<open>d\<close>, then from \<open>d\<close> on some completion is ready that calls \<open>kick\<close>, although the client
  skips reprogramming the timer for later deadlines and posts one kick at most.
\<close>

theorem deadline_never_lost:
  assumes "timer_run ops (new_timer now) = Inr s" "alive s" "wanted s = Some d"
    and "clock s \<le> t" "d \<le> t"
  shows "posted_kicks s \<le> 1 \<and>
    (\<exists>op s'. op \<in> {Run_kick []} \<union> (\<lambda>i. Run_tick i []) ` {..length (queued_ticks s)} \<and>
      timer_run [Pass t, Expire, op] s = Inr s' \<and> kicks s' = kicks s @ [t])"
proof -
  let ?s = "expire (s\<lparr>clock := t\<rparr>)"
  have inv: "timer_inv s" using assms(1) by (rule reachable_timer_inv)
  then have g: "\<not> gone s" "posted_kicks s \<le> 1" using assms(2) by (auto simp: timer_inv_def)
  from inv assms(2,3) consider "posted_kicks s > 0" | "True \<in> set (queued_ticks s)"
    | "pending_ticks s > 0" "expiry s \<le> t"
    using assms(5) by (auto simp: timer_inv_def covered_def)
  then show ?thesis
  proof cases
    case 1
    with g assms(2,4) show ?thesis
      by (auto simp: run_kick_def with_calls_def begin_posted_def kick_handler_def begin_kick_def expire_def intro!: exI [of _ "Run_kick []"])
  next
    case 2
    then obtain i where i: "i < length (queued_ticks s)" "queued_ticks s ! i" by (auto simp: in_set_conv_nth)
    with g assms(2,4) have "\<exists>s'. timer_run [Pass t, Expire, Run_tick i []] s = Inr s' \<and> kicks s' = kicks s @ [t]"
      by (auto simp: run_tick_def with_calls_def begin_tick_def tick_handler_def begin_kick_def expire_def nth_append)
    with i g show ?thesis by (intro conjI exI [of _ "Run_tick i []"]) auto
  next
    case 3
    let ?i = "length (queued_ticks s)"
    have "\<exists>s'. timer_run [Pass t, Expire, Run_tick ?i []] s = Inr s' \<and> kicks s' = kicks s @ [t]"
      using 3 g assms(2,4)
      by (auto simp: run_tick_def with_calls_def begin_tick_def tick_handler_def begin_kick_def expire_def nth_append)
    with g show ?thesis by (intro conjI exI [of _ "Run_tick ?i []"]) auto
  qed
qed

text \<open>The sample asks for 100, then for the later 250, which does not reprogram the timer.\<close>

definition sample_timer :: timer where
  "sample_timer = projr (timer_run [Timer_call 100 0, Timer_call 250 0] (new_timer 0))"

theorem deadline_never_lost_witness:
  "expiry sample_timer = 100 \<and>
   (\<exists>op s'. timer_run [Pass 250, Expire, op] sample_timer = Inr s' \<and> kicks s' = [250])"
proof -
  have 1: "timer_run [Timer_call 100 0, Timer_call 250 0] (new_timer 0) = Inr sample_timer"
    "alive sample_timer" "wanted sample_timer = Some 250" "clock sample_timer \<le> 250" "(250::int) \<le> 250"
    "kicks sample_timer = []" "expiry sample_timer = 100"
    by (simp_all add: sample_timer_def new_timer_def timer_call_def timer_cb_def async_wait_def
        expires_at_def abort_ticks_def)
  from deadline_never_lost [OF 1(1-5)] 1(6,7) show ?thesis by auto
qed

text \<open>
  At most one kick is posted and at most one timer wait is pending at any time, so timer
  callbacks, however many, cost no more than one wake-up each way; and after the client is
  destroyed no completion kicks any more.
\<close>

theorem wakeups_deduplicated:
  assumes "timer_run ops (new_timer now) = Inr s"
  shows "pending_ticks s \<le> 1 \<and> (alive s \<longrightarrow> posted_kicks s \<le> 1) \<and>
    (\<not> alive s \<and> timer_do op s = Inr s' \<longrightarrow> kicks s' = kicks s)"
proof -
  have inv: "timer_inv s" using assms by (rule reachable_timer_inv)
  have "kicks s' = kicks s" if "\<not> alive s" "timer_do op s = Inr s'"
    using that
    by (cases op)
      (auto simp: expect_Inr expire_def run_tick_def begin_tick_def tick_handler_def
        run_kick_def begin_posted_def kick_handler_def with_calls_def
        timer_teardown_def begin_teardown_def end_teardown_def and_then_Inr abort_ticks_def
        dest: timer_call_frame timer_calls_frame split: if_splits)
  with inv show ?thesis by (auto simp: timer_inv_def)
qed

theorem wakeups_deduplicated_witness: "pending_ticks sample_timer \<le> 1"
proof -
  have "timer_run [Timer_call 100 0, Timer_call 250 0] (new_timer 0) = Inr sample_timer"
    by (simp add: sample_timer_def new_timer_def timer_call_def timer_cb_def async_wait_def
        expires_at_def abort_ticks_def)
  from wakeups_deduplicated [OF this] show ?thesis by blast
qed

end
