(* ===== verification/Client_Loop.thy ===== *)
theory Client_Loop
  imports Transfers_Facts Sockets_Inv Timer
begin

text \<open>
  The whole client: the transfer engine, the sockets and the timer behind one event loop. Here
  are the functions that touch more than one of them (\<open>on_event\<close>, \<open>kick\<close>,
  \<open>check_completions\<close>, the cancellation lambda of \<open>start\<close>, \<open>~Client\<close>), composed as the code
  composes them.

  What libcurl does inside a call is a list of its callbacks, and what completion handlers do is
  a list of operations on the client; both are arguments. The components check their contracts
  at every step, so a list that breaks one ends in \<open>Breach\<close>.
\<close>

section \<open>State\<close>

text \<open>\<open>started\<close> logs the handlers given to \<open>start\<close>.\<close>

record client =
  eng :: engine
  socks :: sockets
  tmr :: timer
  started :: "completion_handler list"

definition new_client :: "nat \<Rightarrow> nat \<Rightarrow> int \<Rightarrow> client" where
  "new_client version max_pooled now = \<lparr>eng = new_engine version max_pooled, socks = new_sockets,
     tmr = new_timer now, started = []\<rparr>"

definition on_eng :: "(engine \<Rightarrow> engine outcome) \<Rightarrow> client \<Rightarrow> client outcome" where
  "on_eng f c = and_then (f (eng c)) (\<lambda>e. Inr (c\<lparr>eng := e\<rparr>))"

definition on_socks :: "(sockets \<Rightarrow> sockets outcome) \<Rightarrow> client \<Rightarrow> client outcome" where
  "on_socks f c = and_then (f (socks c)) (\<lambda>s. Inr (c\<lparr>socks := s\<rparr>))"

definition on_tmr :: "(timer \<Rightarrow> timer outcome) \<Rightarrow> client \<Rightarrow> client outcome" where
  "on_tmr f c = and_then (f (tmr c)) (\<lambda>t. Inr (c\<lparr>tmr := t\<rparr>))"

section \<open>Inside a call of libcurl\<close>

datatype curl_act =
    Socket_act socket_call
  | Timeout_act int int
  | Body_act handle string
  | Header_act handle string

fun do_act :: "curl_act \<Rightarrow> client \<Rightarrow> client outcome" where
  "do_act (Socket_act k) c = on_socks (do_call k) c"
| "do_act (Timeout_act timeout_ms now) c = on_tmr (timer_call (timeout_ms, now)) c"
| "do_act (Body_act h bytes) c = on_eng (engine_do (Body_bytes h bytes)) c"
| "do_act (Header_act h bytes) c = on_eng (engine_do (Header_bytes h bytes)) c"

abbreviation curl_acts :: "curl_act list \<Rightarrow> client \<Rightarrow> client outcome" where
  "curl_acts \<equiv> run_all do_act"

text \<open>
  \<open>curl_multi_socket_action\<close> writes its count through the pointer it is given when it returns.
\<close>

definition socket_action :: "curl_act list \<Rightarrow> int \<Rightarrow> client \<Rightarrow> client outcome" where
  "socket_action acts n c = and_then (curl_acts acts c) (on_eng (engine_do (Count n)))"

section \<open>What users do\<close>

text \<open>
  Starting a request, and emitting cancellation on a slot, each with the callbacks libcurl makes
  in \<open>curl_multi_add_handle\<close> and \<open>curl_multi_remove_handle\<close>. Using a client that is gone is the
  user's breach; emitting is always allowed.
\<close>

datatype user_op =
    Start_request start_answers request completion_handler "curl_act list"
  | Emit_cancel slot_ref "curl_act list"

fun do_user :: "user_op \<Rightarrow> client \<Rightarrow> client outcome" where
  "do_user (Start_request ans r h acts) c =
     expect (alive (tmr c))
       (and_then (on_eng (engine_do (Start ans r h)) (c\<lparr>started := started c @ [h]\<rparr>)) (curl_acts acts))"
| "do_user (Emit_cancel s acts) c =
     (if \<not> alive (tmr c) then Inr c
      else and_then (on_eng (engine_do (Emit s)) c) (curl_acts acts))"

abbreviation user_ops :: "user_op list \<Rightarrow> client \<Rightarrow> client outcome" where
  "user_ops \<equiv> run_all do_user"

section \<open>The event loop\<close>

text \<open>
  One iteration of \<open>check_completions\<close>: the message, the callbacks of
  \<open>curl_multi_remove_handle\<close>, and what the handler does when it is called. The loop ends with
  libcurl's queue.
\<close>

type_synonym iteration = "message \<times> curl_act list \<times> user_op list"

definition completion :: "iteration \<Rightarrow> client \<Rightarrow> client outcome" where
  "completion it c = (case it of (m, acts, ops) \<Rightarrow>
     and_then (on_eng (engine_do (Deliver m)) c) (\<lambda>c.
       if \<not> msg_done m then Inr c
       else and_then (curl_acts acts c) (user_ops ops)))"

abbreviation check_completions :: "iteration list \<Rightarrow> client \<Rightarrow> client outcome" where
  "check_completions \<equiv> run_all completion"

text \<open>What follows a call of \<open>curl_multi_socket_action\<close> in \<open>on_event\<close> and \<open>kick\<close>.\<close>

record reaction =
  acts :: "curl_act list"
  running_count :: int
  messages :: "iteration list"

definition act_and_check :: "reaction \<Rightarrow> client \<Rightarrow> client outcome" where
  "act_and_check r c =
     and_then (socket_action (acts r) (running_count r) c) (check_completions (messages r))"

text \<open>A completed wait on a socket: \<open>w.lock()\<close> and \<open>on_event\<close>.\<close>

definition socket_event :: "nat \<Rightarrow> reaction \<Rightarrow> client \<Rightarrow> client outcome" where
  "socket_event i r c =
     (let s = socks c in
      if i < length (queued_waits s)
      then (case queued_waits s ! i of (x, flag, ec) \<Rightarrow>
        let s = s\<lparr>queued_waits := take i (queued_waits s) @ drop (i + 1) (queued_waits s)\<rparr>
        in if objects s x = None then Inr (c\<lparr>socks := s\<rparr>)
           else and_then (begin_event x flag ec s) (\<lambda>(go, s).
             let c = c\<lparr>socks := s\<rparr>
             in if go
                then and_then (act_and_check r c) (\<lambda>c.
                  and_then (on_socks (rearm x) c) (on_socks (drop_event x)))
                else on_socks (drop_event x) c))
      else Inr c)"

text \<open>A completion of the timer, or the posted kick: \<open>kick\<close>.\<close>

definition timer_event :: "(timer \<Rightarrow> (bool \<times> timer) outcome) \<Rightarrow> reaction \<Rightarrow> client \<Rightarrow> client outcome" where
  "timer_event begin r c = and_then (begin (tmr c)) (\<lambda>(go, t).
     let c = c\<lparr>tmr := t\<rparr> in if go then act_and_check r c else Inr c)"

text \<open>A posted completion runs; its handler may use the client.\<close>

definition posted_event :: "nat \<Rightarrow> user_op list \<Rightarrow> client \<Rightarrow> client outcome" where
  "posted_event i ops c =
     (if i < length (posted (eng c))
      then and_then (on_eng (engine_do (Run_posted i)) c) (user_ops ops)
      else Inr c)"

section \<open>Destruction\<close>

text \<open>
  What libcurl may do inside the calls of \<open>~Client\<close>: its socket and timer callbacks, but no
  delivery of data.
\<close>

fun quiet_act :: "curl_act \<Rightarrow> bool" where
  "quiet_act (Socket_act k) = True"
| "quiet_act (Timeout_act timeout_ms now) = True"
| "quiet_act (Body_act h bytes) = False"
| "quiet_act (Header_act h bytes) = False"

definition do_quiet :: "curl_act \<Rightarrow> client \<Rightarrow> client outcome" where
  "do_quiet a c = expect (quiet_act a) (do_act a c)"

abbreviation quiet_acts :: "curl_act list \<Rightarrow> client \<Rightarrow> client outcome" where
  "quiet_acts \<equiv> run_all do_quiet"

text \<open>
  The loop over \<open>transfers_\<close>: \<open>curl_multi_remove_handle\<close> with its callbacks, then the header list
  and the handle.
\<close>

definition detach :: "addr \<Rightarrow> engine \<Rightarrow> engine outcome" where
  "detach a e = and_then (deref (nodes e) a) (\<lambda>t.
     Inr (e\<lparr>in_multi := remove1 (eh t) (in_multi e)\<rparr>))"

definition free_transfer :: "addr \<Rightarrow> engine \<Rightarrow> engine outcome" where
  "free_transfer a e = and_then (deref (nodes e) a) (\<lambda>t.
     curl_easy_cleanup (eh t) (put_node a (t\<lparr>slist := []\<rparr>) e))"

fun detach_all :: "(addr \<Rightarrow> curl_act list) \<Rightarrow> addr list \<Rightarrow> client \<Rightarrow> client outcome" where
  "detach_all removal [] c = Inr c"
| "detach_all removal (a # as) c =
     and_then (on_eng (detach a) c) (\<lambda>c.
       and_then (quiet_acts (removal a) c) (\<lambda>c.
         and_then (on_eng (free_transfer a) c) (detach_all removal as)))"

text \<open>The loop over \<open>idle_\<close>.\<close>

fun cleanup_all :: "addr list \<Rightarrow> engine \<Rightarrow> engine outcome" where
  "cleanup_all [] e = Inr e"
| "cleanup_all (a # as) e = and_then (deref (nodes e) a) (\<lambda>t.
     and_then (curl_easy_cleanup (eh t) e) (cleanup_all as))"

text \<open>
  The members die in the reverse order of their declaration: the lists with their nodes, whose
  handlers go uninvoked, the table of sockets, the timer.
\<close>

definition drop_nodes :: "engine \<Rightarrow> engine outcome" where
  "drop_nodes e = Inr (e\<lparr>nodes := (\<lambda>_. None), transfers := [], idle := []\<rparr>)"

definition drop_members :: "client \<Rightarrow> client outcome" where
  "drop_members c = and_then (on_eng drop_nodes c) (\<lambda>c.
     and_then (on_socks (\<lambda>s. drop_table (table s) s) c) (on_tmr end_teardown))"

text \<open>
  \<open>~Client\<close>, statement by statement. \<open>removal\<close> and \<open>cleanup\<close> are libcurl's callbacks inside
  \<open>curl_multi_remove_handle\<close> (by transfer) and \<open>curl_multi_cleanup\<close>.
\<close>

definition destroy :: "(addr \<Rightarrow> curl_act list) \<Rightarrow> curl_act list \<Rightarrow> client \<Rightarrow> client outcome" where
  "destroy removal cleanup c =
     and_then (on_tmr begin_teardown c) (\<lambda>c.
       and_then (on_socks (\<lambda>s. sever (table s) s) c) (\<lambda>c.
         and_then (detach_all removal (transfers (eng c)) c) (\<lambda>c.
           and_then (on_eng (\<lambda>e. cleanup_all (idle e) e) c) (\<lambda>c.
             and_then (quiet_acts cleanup c) drop_members))))"

section \<open>Events\<close>

datatype event =
    User user_op
  | Wait_completes nat bool
  | Socket_event nat reaction
  | Time_passes int
  | Timer_expires
  | Tick_event nat reaction
  | Kick_event reaction
  | Posted_event nat "user_op list"
  | Destroy "addr \<Rightarrow> curl_act list" "curl_act list"

fun client_do :: "event \<Rightarrow> client \<Rightarrow> client outcome" where
  "client_do (User op) c = do_user op c"
| "client_do (Wait_completes i ok) c = Inr (c\<lparr>socks := wait_done i ok (socks c)\<rparr>)"
| "client_do (Socket_event i r) c = socket_event i r c"
| "client_do (Time_passes t) c = on_tmr (timer_do (Pass t)) c"
| "client_do Timer_expires c = Inr (c\<lparr>tmr := expire (tmr c)\<rparr>)"
| "client_do (Tick_event i r) c = timer_event (begin_tick i) r c"
| "client_do (Kick_event r) c = timer_event begin_posted r c"
| "client_do (Posted_event i ops) c = posted_event i ops c"
| "client_do (Destroy removal cleanup) c = expect (alive (tmr c)) (destroy removal cleanup c)"

abbreviation client_run :: "event list \<Rightarrow> client \<Rightarrow> client outcome" where
  "client_run \<equiv> run_all client_do"

section \<open>The client is its three components\<close>

text \<open>
  While the client lives its engine is in a state that a run of engine operations reaches, with
  the handlers that were started; this carries every property of the engine over. \<open>s0\<close> is the
  state of the sockets at the beginning of the event.
\<close>

definition engine_reached :: "engine \<Rightarrow> client \<Rightarrow> bool" where
  "engine_reached e0 c \<longleftrightarrow>
     (\<exists>ops. run_all engine_do ops e0 = Inr (eng c) \<and> issued_handlers ops = mset (started c))"

definition busy :: "engine \<Rightarrow> sockets \<Rightarrow> client \<Rightarrow> bool" where
  "busy e0 s0 c \<longleftrightarrow> engine_inv e0 \<and> engine_reached e0 c \<and> keeps s0 (socks c) \<and>
     timer_inv (tmr c) \<and> alive (tmr c)"

definition idle_client :: "engine \<Rightarrow> client \<Rightarrow> bool" where
  "idle_client e0 c \<longleftrightarrow> engine_inv e0 \<and> engine_reached e0 c \<and> sock_inv (socks c) \<and>
     timer_inv (tmr c) \<and> alive (tmr c)"

text \<open>
  A client that is gone: nothing of it can be reached. \<open>K\<close> are the handlers that were posted or
  called by the time it was destroyed, the only ones that can have been called afterwards.
\<close>

definition dead_client :: "completion_handler multiset \<Rightarrow> client \<Rightarrow> bool" where
  "dead_client K c \<longleftrightarrow> \<not> alive (tmr c) \<and> gone (tmr c) \<and> timer_inv (tmr c) \<and>
     (\<forall>x. objects (socks c) x = None) \<and>
     transfers (eng c) = [] \<and> open_handles (eng c) = [] \<and>
     mset (closed (socks c)) = mset (opened (socks c)) \<and>
     held_handlers (eng c) + called_handlers (eng c) = K \<and> K \<subseteq># mset (started c)"

definition client_inv :: "engine \<Rightarrow> client \<Rightarrow> bool" where
  "client_inv e0 c \<longleftrightarrow> idle_client e0 c \<or> (\<exists>K. dead_client K c)"

lemma keeps_refl: "sock_safe s \<Longrightarrow> keeps s s"
  by (simp add: keeps_def)

lemma busy_engine_inv: "busy e0 s0 c \<Longrightarrow> engine_inv (eng c)"
  using eng.run_inv by (auto simp: busy_def engine_reached_def)

lemma idle_busy: "idle_client e0 c \<Longrightarrow> busy e0 (socks c) c"
  by (simp add: idle_client_def busy_def keeps_refl sock_inv_def)

lemma busy_idle: "busy e0 s0 c \<Longrightarrow> sock_inv s0 \<Longrightarrow> idle_client e0 c"
  by (auto simp: idle_client_def busy_def keeps_def sock_inv_def)

lemma busy_engine_op:
  assumes b: "busy e0 s0 c" and m: "mset st = mset (started c) + issued_by op"
  shows "safely (busy e0 s0) (on_eng (engine_do op) (c\<lparr>started := st\<rparr>))"
proof -
  from b obtain ops where ops: "run_all engine_do ops e0 = Inr (eng c)" "issued_handlers ops = mset (started c)"
    by (auto simp: busy_def engine_reached_def)
  have "busy e0 s0 (c\<lparr>started := st, eng := e\<rparr>)" if "engine_do op (eng c) = Inr e" for e
  proof -
    have "run_all engine_do (ops @ [op]) e0 = Inr e" using ops(1) that by (simp add: run_all_append)
    moreover have "issued_handlers (ops @ [op]) = mset st" using ops(2) m by (simp add: issued_handlers_def)
    ultimately have "engine_reached e0 (c\<lparr>started := st, eng := e\<rparr>)"
      unfolding engine_reached_def by (intro exI [of _ "ops @ [op]"]) simp
    with b show ?thesis by (simp add: busy_def)
  qed
  with engine_do_inv [OF busy_engine_inv [OF b], of op] show ?thesis
    unfolding on_eng_def by (auto intro!: safely_and_then)
qed

lemma busy_engine_silent:
  "busy e0 s0 c \<Longrightarrow> issued_by op = {#} \<Longrightarrow> safely (busy e0 s0) (on_eng (engine_do op) c)"
  using busy_engine_op [of e0 s0 c "started c" op] by simp

lemma busy_socks:
  assumes b: "busy e0 s0 c" and f: "safely (keeps (socks c)) (f (socks c))"
  shows "safely (busy e0 s0) (on_socks f c)"
  unfolding on_socks_def
  by (rule safely_and_then [OF f]) (use b in \<open>auto simp: busy_def engine_reached_def intro: keeps_trans\<close>)

lemma busy_act: "busy e0 s0 c \<Longrightarrow> safely (busy e0 s0) (do_act a c)"
proof (cases a)
  case (Socket_act k)
  assume b: "busy e0 s0 c"
  then have "sock_safe (socks c)" by (simp add: busy_def keeps_def)
  from busy_socks [OF b, of "do_call k"] do_call_keeps [OF this, of k] show ?thesis
    by (simp add: Socket_act)
next
  case (Timeout_act timeout_ms now)
  assume b: "busy e0 s0 c"
  then have "timer_inv (tmr c)" by (simp add: busy_def)
  from timer_call_inv [OF this] show ?thesis
    using b by (auto simp: Timeout_act on_tmr_def busy_def engine_reached_def safely_def and_then_def
        dest: timer_call_frame split: sum.splits)
qed (simp_all add: busy_engine_silent)

interpretation acts: component do_act "busy e0 s0" for e0 s0
  by unfold_locales (rule busy_act)

lemma busy_user: "busy e0 s0 c \<Longrightarrow> safely (busy e0 s0) (do_user op c)"
proof (cases op)
  case (Start_request ans r h as)
  assume "busy e0 s0 c"
  from busy_engine_op [OF this, of "started c @ [h]" "Start ans r h"] show ?thesis
    unfolding Start_request do_user.simps
    by (intro safely_expect safely_and_then [where Q = "busy e0 s0"]) (auto intro: acts.run_safe)
next
  case (Emit_cancel s as)
  assume b: "busy e0 s0 c"
  from busy_engine_silent [OF b, of "Emit s"]
  have "safely (busy e0 s0) (and_then (on_eng (engine_do (Emit s)) c) (curl_acts as))"
    by (intro safely_and_then [where Q = "busy e0 s0"]) (auto intro: acts.run_safe)
  with b show ?thesis by (simp add: Emit_cancel)
qed

interpretation users: component do_user "busy e0 s0" for e0 s0
  by unfold_locales (rule busy_user)

lemma busy_completion: "busy e0 s0 c \<Longrightarrow> safely (busy e0 s0) (completion it c)"
proof -
  assume b: "busy e0 s0 c"
  obtain m as ops where it: "it = (m, as, ops)" by (cases it)
  have d: "safely (busy e0 s0) (on_eng (engine_do (Deliver m)) c)"
    by (rule busy_engine_silent [OF b]) simp
  show ?thesis
    unfolding it completion_def prod.case
    by (rule safely_and_then [OF d])
      (auto intro!: safely_and_then [OF acts.run_safe] users.run_safe)
qed

interpretation completions: component completion "busy e0 s0" for e0 s0
  by unfold_locales (rule busy_completion)

lemma busy_act_and_check: "busy e0 s0 c \<Longrightarrow> safely (busy e0 s0) (act_and_check r c)"
  unfolding act_and_check_def socket_action_def
  by (intro safely_and_then [where Q = "busy e0 s0"] acts.run_safe completions.run_safe)
    (simp_all add: busy_engine_silent)

section \<open>Events of a living client\<close>

lemma idle_socket_event:
  assumes c: "idle_client e0 c"
  shows "safely (idle_client e0) (socket_event i r c)"
proof (cases "i < length (queued_waits (socks c))")
  case False
  with c show ?thesis by (simp add: socket_event_def)
next
  case True
  let ?s = "socks c"
  have inv: "sock_inv ?s" using c by (simp add: idle_client_def)
  obtain x flag ec where q: "queued_waits ?s ! i = (x, flag, ec)" by (cases "queued_waits ?s ! i")
  have resume: "idle_client e0 (d\<lparr>socks := s'\<rparr>)" if "busy e0 s0 d" "sock_inv s'" for d s0 s'
    using that by (simp add: busy_def idle_client_def engine_reached_def)
  show ?thesis
  proof (cases "objects ?s x")
    case None
    with unqueued_dead [OF inv True q] resume [OF idle_busy [OF c]] show ?thesis
      using True q by (simp add: socket_event_def Let_def unqueued_def)
  next
    case (Some st)
    have ec: "ec \<noteq> Wait_aborted"
      using aborted_dead [OF inv, of x flag] True q Some nth_mem by fastforce
    let ?b = "(begun x flag st (unqueued i ?s))\<lparr>actions :=
      actions ?s @ [(ss_fd st, if ec \<noteq> Wait_ok then CURL_CSELECT_ERR else flag)]\<rparr>"
    have b: "sock_safe ?b" "sock_live {x} ?b" "in_use ?b = Some x"
      using begun_inv [OF inv True q Some] by (simp_all add: frame_simps) (simp add: begun_def)
    have busy: "busy e0 ?b (c\<lparr>socks := ?b\<rparr>)"
      using c keeps_refl [OF b(1)] by (simp add: idle_client_def busy_def engine_reached_def)
    have "socket_event i r c = and_then (act_and_check r (c\<lparr>socks := ?b\<rparr>)) (\<lambda>c.
        and_then (on_socks (rearm x) c) (on_socks (drop_event x)))"
      using True q Some begin_event_begun [OF Some ec, of flag i]
      by (simp add: socket_event_def Let_def unqueued_def)
    also have "safely (idle_client e0) \<dots>"
    proof (rule safely_and_then [OF busy_act_and_check [OF busy]])
      fix d assume d: "busy e0 ?b d"
      with b have s1: "sock_safe (socks d)" "sock_live {x} (socks d)" "in_use (socks d) = Some x"
        by (auto simp: busy_def keeps_def)
      have "safely sock_inv (and_then (rearm x (socks d)) (drop_event x))"
        by (rule safely_and_then [OF rearm_keeps [OF s1(1,3)]]) (use s1(2) drop_event_inv in blast)
      with resume [OF d] show "safely (idle_client e0)
          (and_then (on_socks (rearm x) d) (on_socks (drop_event x)))"
        by (auto simp: on_socks_def safely_def and_then_def split: sum.splits)
    qed
    finally show ?thesis .
  qed
qed

lemma idle_timer_event:
  assumes c: "idle_client e0 c"
    and b: "safely (\<lambda>(go, t). timer_inv t \<and> alive t = alive (tmr c) \<and> gone t = gone (tmr c)) (begin (tmr c))"
  shows "safely (idle_client e0) (timer_event begin r c)"
  unfolding timer_event_def
proof (rule safely_and_then [OF b])
  fix p :: "bool \<times> timer" assume p: "case p of (go, t) \<Rightarrow> timer_inv t \<and> alive t = alive (tmr c) \<and> gone t = gone (tmr c)"
  obtain go t where pt: "p = (go, t)" by force
  from p pt c have i: "idle_client e0 (c\<lparr>tmr := t\<rparr>)"
    by (simp add: idle_client_def engine_reached_def)
  from c have "sock_inv (socks (c\<lparr>tmr := t\<rparr>))" by (simp add: idle_client_def)
  with busy_act_and_check [OF idle_busy [OF i], of r]
  have "safely (idle_client e0) (act_and_check r (c\<lparr>tmr := t\<rparr>))"
    by (auto elim: safely_weaken busy_idle)
  with i show "safely (idle_client e0) (case p of (go, t) \<Rightarrow>
      let c = c\<lparr>tmr := t\<rparr> in if go then act_and_check r c else Inr c)"
    by (simp add: pt Let_def)
qed

lemma busy_posted_event: "busy e0 s0 c \<Longrightarrow> safely (busy e0 s0) (posted_event i ops c)"
  unfolding posted_event_def
  by (auto intro!: safely_and_then [where Q = "busy e0 s0"] users.run_safe busy_engine_silent
      simp del: engine_do.simps)

section \<open>Destruction\<close>

text \<open>The engine \<open>e\<close> after the handles of the nodes in \<open>A\<close> have been cleaned up.\<close>

definition torn :: "addr set \<Rightarrow> engine \<Rightarrow> engine \<Rightarrow> bool" where
  "torn A e e' \<longleftrightarrow> set (open_handles e') = set (open_handles e) - eh_at e ` A \<and>
     distinct (open_handles e') \<and>
     mset (cleaned e') + mset (open_handles e') = mset (cleaned e) + mset (open_handles e) \<and>
     dom (nodes e') = dom (nodes e) \<and> eh_at e' = eh_at e \<and>
     transfers e' = transfers e \<and> idle e' = idle e \<and> posted e' = posted e \<and> invoked e' = invoked e"

definition dying :: "engine \<Rightarrow> completion_handler list \<Rightarrow> addr set \<Rightarrow> client \<Rightarrow> bool" where
  "dying e st A c \<longleftrightarrow> torn A e (eng c) \<and> started c = st \<and>
     sock_safe (socks c) \<and> in_use (socks c) = None \<and> timer_inv (tmr c) \<and> \<not> alive (tmr c)"

lemma on_part_safely:
  "safely P (f (eng c)) \<Longrightarrow> (\<And>e. P e \<Longrightarrow> Q (c\<lparr>eng := e\<rparr>)) \<Longrightarrow> safely Q (on_eng f c)"
  "safely R (g (socks c)) \<Longrightarrow> (\<And>s. R s \<Longrightarrow> Q (c\<lparr>socks := s\<rparr>)) \<Longrightarrow> safely Q (on_socks g c)"
  "safely S (h (tmr c)) \<Longrightarrow> (\<And>t. S t \<Longrightarrow> Q (c\<lparr>tmr := t\<rparr>)) \<Longrightarrow> safely Q (on_tmr h c)"
  unfolding on_eng_def on_socks_def on_tmr_def by (auto elim!: safely_and_then)

lemma eh_at_frame [simp]:
  "eh_at (e\<lparr>open_handles := hs\<rparr>) = eh_at e"
  "eh_at (e\<lparr>in_multi := hs\<rparr>) = eh_at e"
  "eh_at (e\<lparr>cleaned := hs\<rparr>) = eh_at e"
  by (simp_all add: eh_at_def fun_eq_iff)

lemma torn_node:
  assumes "torn A e e'" "nodes e a \<noteq> None"
  shows "\<exists>t. nodes e' a = Some t \<and> eh t = eh_at e a"
proof -
  from assms have "a \<in> dom (nodes e')" "eh_at e' a = eh_at e a" by (simp_all add: torn_def domIff)
  then show ?thesis by (auto simp: eh_at_def)
qed

lemma torn_cleanup:
  assumes t: "torn A e e'" and a: "nodes e' a = Some t'" "a \<notin> A" and e: "nodes_ok e" "A \<subseteq> dom (nodes e)"
  shows "safely (torn (insert a A) e) (curl_easy_cleanup (eh t') e')"
proof -
  have eh: "eh t' = eh_at e a" using t a(1) by (auto simp: torn_def eh_at_def fun_eq_iff dest!: spec [of _ a])
  have d: "a \<in> dom (nodes e)" using t a(1) by (auto simp: torn_def)
  with nodes_ok_inj [OF e(1)] a(2) e(2) have "eh_at e a \<notin> eh_at e ` A" by (auto dest: inj_onD)
  then have "eh_at e a \<in> set (open_handles e')" using t d nodes_ok_handles [OF e(1)] by (simp add: torn_def)
  with t show ?thesis by (auto simp: eh curl_easy_cleanup_def torn_def set_remove1_distinct)
qed

lemma detach_torn: "torn A e e' \<Longrightarrow> nodes e a \<noteq> None \<Longrightarrow> safely (torn A e) (detach a e')"
  using torn_node [of A e e' a] by (auto simp: detach_def torn_def)

lemma free_torn:
  assumes t: "torn A e e'" and a: "a \<in> dom (nodes e) - A" and e: "nodes_ok e" "A \<subseteq> dom (nodes e)"
  shows "safely (torn (insert a A) e) (free_transfer a e')"
proof -
  have "nodes e a \<noteq> None" using a by auto
  then obtain t' where t': "nodes e' a = Some t'" using torn_node [OF t] by blast
  let ?f = "put_node a (t'\<lparr>slist := []\<rparr>) e'"
  have "eh_at ?f = eh_at e'" "dom (nodes ?f) = dom (nodes e')" using t' by (auto simp: eh_at_def fun_eq_iff)
  with t have f: "torn A e ?f" by (simp add: torn_def)
  from torn_cleanup [OF f _ _ e, of a "t'\<lparr>slist := []\<rparr>"] a t' show ?thesis by (simp add: free_transfer_def)
qed

lemma cleanup_torn:
  "torn A e e' \<Longrightarrow> nodes_ok e \<Longrightarrow> A \<union> set as \<subseteq> dom (nodes e) \<Longrightarrow> distinct as \<Longrightarrow> A \<inter> set as = {} \<Longrightarrow>
     safely (torn (A \<union> set as) e) (cleanup_all as e')"
proof (induction as arbitrary: A e')
  case Nil
  then show ?case by simp
next
  case (Cons a as)
  have "nodes e a \<noteq> None" using Cons.prems(3) by auto
  with torn_node [OF Cons.prems(1)] obtain t where t: "nodes e' a = Some t" by blast
  have "safely (torn (insert a A) e) (curl_easy_cleanup (eh t) e')"
    by (rule torn_cleanup [OF Cons.prems(1) t _ Cons.prems(2)]) (use Cons.prems in auto)
  moreover have "safely (torn (A \<union> set (a # as)) e) (cleanup_all as f)" if "torn (insert a A) e f" for f
    using Cons.IH [OF that Cons.prems(2)] Cons.prems(3-5) by simp
  ultimately show ?case using t by (simp add: safely_and_then)
qed

lemma quiet_dying:
  assumes c: "dying e st A c"
  shows "safely (dying e st A) (do_quiet a c)"
proof (cases a)
  case (Socket_act k)
  from c have "sock_safe (socks c)" by (simp add: dying_def)
  from do_call_keeps [OF this, of k] c show ?thesis
    by (auto simp: Socket_act do_quiet_def on_socks_def dying_def keeps_def intro!: safely_and_then)
next
  case (Timeout_act timeout_ms now)
  from c have "timer_inv (tmr c)" "\<not> alive (tmr c)" by (simp_all add: dying_def)
  from dying_timer_calls [OF this, of "[(timeout_ms, now)]"] c show ?thesis
    by (auto simp: Timeout_act do_quiet_def on_tmr_def dying_def safely_def and_then_def split: sum.splits)
qed (simp_all add: do_quiet_def)

interpretation dyings: component do_quiet "dying e st A" for e st A
  by unfold_locales (rule quiet_dying)

lemma detach_all_dying:
  "dying e st A c \<Longrightarrow> nodes_ok e \<Longrightarrow> A \<union> set as \<subseteq> dom (nodes e) \<Longrightarrow> distinct as \<Longrightarrow> A \<inter> set as = {} \<Longrightarrow>
     safely (dying e st (A \<union> set as)) (detach_all removal as c)"
proof (induction as arbitrary: A c)
  case Nil
  then show ?case by simp
next
  case (Cons a as)
  have on: "safely (dying e st B) (on_eng f d)"
    if "safely (torn B e) (f (eng d))" "dying e st A d" for B f and d :: client
    by (rule on_part_safely(1), rule that(1)) (use that(2) in \<open>simp add: dying_def\<close>)
  have a: "nodes e a \<noteq> None" "a \<in> dom (nodes e) - A" "A \<subseteq> dom (nodes e)" using Cons.prems(3,5) by auto
  have t: "dying e st A d \<Longrightarrow> torn A e (eng d)" for d by (simp add: dying_def)
  have 3: "safely (dying e st (A \<union> set (a # as))) (detach_all removal as d)"
    if "dying e st (insert a A) d" for d
    using Cons.IH [OF that Cons.prems(2)] Cons.prems(3-5) by simp
  have 2: "safely (dying e st (A \<union> set (a # as)))
      (and_then (on_eng (free_transfer a) d) (detach_all removal as))" if d: "dying e st A d" for d
    by (rule safely_and_then [OF on 3]) (use d free_torn [OF t [OF d] a(2) Cons.prems(2) a(3)] in simp_all)
  show ?case
    unfolding detach_all.simps
    by (rule safely_and_then [OF on safely_and_then [OF dyings.run_safe 2]])
      (use Cons.prems(1) detach_torn [OF t [OF Cons.prems(1)] a(1)] in simp_all)
qed

lemma engine_reached_ledger:
  assumes "engine_inv e0" "held_handlers e0 = {#}" "called_handlers e0 = {#}" "engine_reached e0 c"
  shows "held_handlers (eng c) + called_handlers (eng c) = mset (started c)"
proof -
  from assms(4) obtain ops where ops: "run_all engine_do ops e0 = Inr (eng c)"
    "issued_handlers ops = mset (started c)" by (auto simp: engine_reached_def)
  then have "runs engine_step e0 ops (eng c)" by (simp add: engine_run_runs)
  from el.balance_runs [OF this assms(1)] assms(2,3) ops(2) show ?thesis
    by (simp add: issued_handlers_def)
qed

text \<open>The first two steps and the last ones.\<close>

lemma begin_dying:
  assumes c: "idle_client e0 c"
  shows "safely (dying (eng c) (started c) {})
    (and_then (on_tmr begin_teardown c) (on_socks (\<lambda>s. sever (table s) s)))"
proof -
  have t: "timer_inv (tmr c)" "\<not> gone (tmr c)"
    using c by (auto simp: idle_client_def timer_inv_def)
  have sk: "sock_safe (socks c)" "in_use (socks c) = None"
    using c by (simp_all add: idle_client_def sock_inv_def)
  have "engine_inv (eng c)" using busy_engine_inv [OF idle_busy [OF c]] .
  then have e: "torn {} (eng c) (eng c)" using nodes_okD(4,5)
    by (simp add: torn_def engine_inv_def engine_inv_but_def)
  let ?P = "\<lambda>d. d = c\<lparr>tmr := tmr d\<rparr> \<and> timer_inv (tmr d) \<and> \<not> alive (tmr d)"
  have "safely ?P (on_tmr begin_teardown c)"
    by (rule on_part_safely(3), rule begin_teardown_inv [OF t]) simp
  then show ?thesis
  proof (rule safely_and_then)
    fix d :: client assume d: "?P d"
    then have same: "socks d = socks c" "eng d = eng c" "started d = started c"
      by (metis client.select_convs client.surjective client.update_convs)+
    show "safely (dying (eng c) (started c) {}) (on_socks (\<lambda>s. sever (table s) s) d)"
      by (rule on_part_safely(2), rule sever_safe) (use d sk e in \<open>auto simp: same dying_def\<close>)
  qed
qed

text \<open>A client that is gone, and has cleaned up once each the handles it had in the state \<open>e\<close>.\<close>

definition released :: "completion_handler multiset \<Rightarrow> engine \<Rightarrow> client \<Rightarrow> bool" where
  "released K e c \<longleftrightarrow> dead_client K c \<and> mset (cleaned (eng c)) = mset (cleaned e) + mset (open_handles e)"

lemma dropped_dead:
  assumes c: "dying e st (set (transfers e) \<union> set (idle e)) c" and e: "nodes_ok e"
    and K: "K = image_mset fst (mset (posted e)) + called_handlers e" "K \<subseteq># mset st"
  shows "safely (released K e) (drop_members c)"
proof -
  have "set (open_handles (eng c)) = {}"
    using c nodes_okD(2,3) [OF e] by (auto simp: dying_def torn_def)
  then have "open_handles (eng c) = []" by simp
  moreover have "posted (eng c) = posted e" "invoked (eng c) = invoked e"
    using c by (simp_all add: dying_def torn_def)
  moreover have "mset (cleaned (eng c)) + mset (open_handles (eng c)) = mset (cleaned e) + mset (open_handles e)"
    using c by (simp add: dying_def torn_def)
  ultimately obtain e' where e': "drop_nodes (eng c) = Inr e'" "open_handles e' = []" "transfers e' = []"
    "held_handlers e' + called_handlers e' = K" "mset (cleaned e') = mset (cleaned e) + mset (open_handles e)"
    using K(1) by (simp add: drop_nodes_def held_handlers_def called_handlers_def waiting_def)
  have tm: "timer_inv (tmr c)" "\<not> alive (tmr c)" and st: "started c = st"
    using c by (simp_all add: dying_def)
  have "drop_ok (socks c)" using c by (intro safe_drop_ok) (simp_all add: dying_def)
  from drop_table_ok [OF this]
  have sk: "safely (\<lambda>s. (\<forall>x. objects s x = None) \<and> mset (opened s) = mset (closed s))
      (drop_table (table (socks c)) (socks c))"
    by (rule safely_weaken) (auto simp: drop_ok_def held_fds_def)
  let ?P = "\<lambda>f. (\<forall>x. objects (socks f) x = None) \<and> mset (opened (socks f)) = mset (closed (socks f)) \<and>
    f = c\<lparr>eng := e', socks := socks f\<rparr>"
  have 1: "safely ?P (on_socks (\<lambda>s. drop_table (table s) s) (c\<lparr>eng := e'\<rparr>))"
    by (rule on_part_safely(2)) (use sk in simp, simp)
  have 2: "safely (released K e) (on_tmr end_teardown f)" if f: "?P f" for f
  proof (rule on_part_safely(3) [OF end_teardown_inv])
    have "tmr f = tmr c" "eng f = e'" "started f = started c" using f by (metis client.select_convs client.surjective client.update_convs)+
    then show "timer_inv (tmr f)" "\<not> alive (tmr f)"
      "\<And>t. timer_inv t \<and> \<not> alive t \<and> gone t \<Longrightarrow> released K e (f\<lparr>tmr := t\<rparr>)"
      using tm e'(2-5) f st K(2) by (simp_all add: released_def dead_client_def)
  qed
  have "on_eng drop_nodes c = Inr (c\<lparr>eng := e'\<rparr>)" using e'(1) by (simp add: on_eng_def)
  with safely_and_then [OF 1 2] show ?thesis by (simp add: drop_members_def)
qed

lemma destroy_dead:
  assumes c: "idle_client e0 c" and e0: "held_handlers e0 = {#}" "called_handlers e0 = {#}"
  shows "safely (released (image_mset fst (mset (posted (eng c))) + called_handlers (eng c)) (eng c))
    (destroy removal cleanup c)" (is "safely (released ?K _) _")
proof -
  let ?e = "eng c"
  have ok: "nodes_ok ?e" using busy_engine_inv [OF idle_busy [OF c]]
    by (simp add: engine_inv_def engine_inv_but_def)
  have nodes: "{} \<union> set (transfers ?e) \<subseteq> dom (nodes ?e)" "set (transfers ?e) \<union> set (idle ?e) \<subseteq> dom (nodes ?e)"
    "distinct (transfers ?e)" "distinct (idle ?e)" "set (transfers ?e) \<inter> set (idle ?e) = {}"
    using nodes_okD(3,4) [OF ok] by auto
  have led: "held_handlers ?e + called_handlers ?e = mset (started c)"
    using engine_reached_ledger [OF _ e0] c by (simp add: idle_client_def)
  have "?K \<subseteq># held_handlers ?e + called_handlers ?e" by (simp add: held_handlers_def)
  with led have K: "?K \<subseteq># mset (started c)" by simp
  let ?all = "dying ?e (started c) (set (transfers ?e) \<union> set (idle ?e))"
  have 4: "safely (released ?K ?e) (and_then (quiet_acts cleanup d) drop_members)" if "?all d" for d
    using that by (rule safely_and_then [OF dyings.run_safe dropped_dead [OF _ ok refl K]])
  have 3: "safely (released ?K ?e) (and_then (on_eng (\<lambda>e. cleanup_all (idle e) e) d)
      (\<lambda>d. and_then (quiet_acts cleanup d) drop_members))"
    if d: "dying ?e (started c) (set (transfers ?e)) d" for d
  proof (rule safely_and_then [OF _ 4])
    have "torn (set (transfers ?e)) ?e (eng d)" "idle (eng d) = idle ?e" using d by (simp_all add: dying_def torn_def)
    with cleanup_torn [OF this(1) ok nodes(2,4,5)]
    show "safely ?all (on_eng (\<lambda>e. cleanup_all (idle e) e) d)"
      unfolding on_eng_def using d by (auto simp: dying_def intro!: safely_and_then)
  qed
  have 2: "safely (released ?K ?e) (and_then (detach_all removal (transfers (eng d)) d)
      (\<lambda>d. and_then (on_eng (\<lambda>e. cleanup_all (idle e) e) d) (\<lambda>d. and_then (quiet_acts cleanup d) drop_members)))"
    if d: "dying ?e (started c) {} d" for d
  proof (rule safely_and_then [OF _ 3])
    have "transfers (eng d) = transfers ?e" using d by (simp add: dying_def torn_def)
    with detach_all_dying [OF d ok nodes(1,3)]
    show "safely (dying ?e (started c) (set (transfers ?e))) (detach_all removal (transfers (eng d)) d)" by simp
  qed
  have "destroy removal cleanup c =
      and_then (and_then (on_tmr begin_teardown c) (on_socks (\<lambda>s. sever (table s) s)))
        (\<lambda>d. and_then (detach_all removal (transfers (eng d)) d)
          (\<lambda>d. and_then (on_eng (\<lambda>e. cleanup_all (idle e) e) d) (\<lambda>d. and_then (quiet_acts cleanup d) drop_members)))"
    unfolding destroy_def by (simp add: and_then_def split: sum.split)
  also have "safely (released ?K ?e) \<dots>" by (rule safely_and_then [OF begin_dying [OF c] 2])
  finally show ?thesis .
qed

section \<open>Every event keeps the invariant\<close>

lemma dead_user: "dead_client K c \<Longrightarrow> safely (dead_client K) (do_user op c)"
  by (cases op) (simp_all add: dead_client_def)

interpretation dead_users: component do_user "dead_client K" for K
  by unfold_locales (rule dead_user)

lemma dead_posted: "dead_client K c \<Longrightarrow> safely (dead_client K) (posted_event i ops c)"
proof (cases "i < length (posted (eng c))")
  case True
  assume c: "dead_client K c"
  let ?e = "run_posted i (eng c)"
  have "mset (posted (eng c)) = add_mset (posted (eng c) ! i) (mset (posted ?e))"
    using nth_split_mset [OF True] True by (simp add: run_posted_def)
  moreover have "invoked ?e = invoked (eng c) @ [posted (eng c) ! i]" "transfers ?e = transfers (eng c)"
      "open_handles ?e = open_handles (eng c)"
    using True by (simp_all add: run_posted_def)
  moreover have "transfers (eng c) = []" using c by (simp add: dead_client_def)
  ultimately have "dead_client K (c\<lparr>eng := ?e\<rparr>)"
    using c by (simp add: dead_client_def held_handlers_def called_handlers_def waiting_def)
  from dead_users.run_safe [OF this] show ?thesis
    using True by (simp add: posted_event_def on_eng_def)
qed (simp add: posted_event_def)

lemma dead_timer_event:
  assumes c: "dead_client K c"
    and b: "safely (\<lambda>(go, t). timer_inv t \<and> alive t = alive (tmr c) \<and> gone t = gone (tmr c)) (begin (tmr c))"
    and no: "\<And>t. begin (tmr c) \<noteq> Inr (True, t)"
  shows "safely (dead_client K) (timer_event begin r c)"
  using b no c
  by (auto simp: timer_event_def safely_def and_then_def dead_client_def Let_def split: sum.splits prod.splits)

lemma dead_event: "dead_client K c \<Longrightarrow> safely (dead_client K) (client_do ev c)"
proof (cases ev)
  case (Wait_completes i ok)
  assume "dead_client K c"
  then show ?thesis by (simp add: Wait_completes dead_client_def wait_done_def split: prod.split)
next
  case (Socket_event i r)
  assume "dead_client K c"
  then show ?thesis
    by (auto simp: Socket_event dead_client_def socket_event_def Let_def split: prod.split)
next
  case (Time_passes t)
  assume "dead_client K c"
  then show ?thesis
    by (auto simp: Time_passes dead_client_def on_tmr_def expect_def)
next
  case Timer_expires
  assume "dead_client K c"
  then show ?thesis
    by (auto simp: Timer_expires dead_client_def expire_def timer_inv_def)
next
  case (Tick_event i r)
  assume c: "dead_client K c"
  then have "timer_inv (tmr c)" "\<not> alive (tmr c)" by (simp_all add: dead_client_def)
  with dead_timer_event [OF c, of "begin_tick i" r] begin_tick_inv [of "tmr c" i] show ?thesis
    by (simp add: Tick_event begin_tick_def tick_handler_def)
next
  case (Kick_event r)
  assume c: "dead_client K c"
  then have "timer_inv (tmr c)" "\<not> alive (tmr c)" by (simp_all add: dead_client_def)
  with dead_timer_event [OF c, of begin_posted r] begin_posted_inv [of "tmr c"] show ?thesis
    by (simp add: Kick_event begin_posted_def kick_handler_def)
qed (simp_all add: dead_user dead_posted, simp add: dead_client_def)

text \<open>Handlers are accounted for from a state in which none is held or has been called.\<close>

definition fresh_engine :: "engine \<Rightarrow> bool" where
  "fresh_engine e0 \<longleftrightarrow> held_handlers e0 = {#} \<and> called_handlers e0 = {#}"

fun destroys :: "event \<Rightarrow> bool" where
  "destroys (Destroy removal cleanup) = True"
| "destroys ev = False"

lemma live_event:
  assumes i: "idle_client e0 c" and live: "\<not> destroys ev"
  shows "safely (idle_client e0) (client_do ev c)"
proof -
  from i have sk: "sock_inv (socks c)" and t: "timer_inv (tmr c)" and al: "alive (tmr c)"
    by (simp_all add: idle_client_def)
  have after: "safely (idle_client e0) m" if "safely (busy e0 (socks c)) m" for m
    using that by (rule safely_weaken) (rule busy_idle [OF _ sk])
  show ?thesis
  proof (cases ev)
    case (User op)
    then show ?thesis using after [OF busy_user [OF idle_busy [OF i]]] by simp
  next
    case (Wait_completes k ok)
    from wait_done_inv [OF sk] i have "idle_client e0 (c\<lparr>socks := wait_done k ok (socks c)\<rparr>)"
      by (simp add: idle_client_def engine_reached_def)
    then show ?thesis by (simp add: Wait_completes)
  next
    case (Socket_event k r)
    then show ?thesis using idle_socket_event [OF i] by simp
  next
    case (Time_passes u)
    from i have "idle_client e0 (c\<lparr>tmr := (tmr c)\<lparr>clock := u\<rparr>\<rparr>)"
      by (simp add: idle_client_def engine_reached_def)
    then show ?thesis by (auto simp: Time_passes on_tmr_def expect_def)
  next
    case Timer_expires
    have "timer_inv (expire (tmr c))" "alive (expire (tmr c))"
      using timer_do_inv [OF t, of Expire] al by (simp_all add: expire_def)
    with i have "idle_client e0 (c\<lparr>tmr := expire (tmr c)\<rparr>)"
      by (simp add: idle_client_def engine_reached_def)
    then show ?thesis by (simp add: Timer_expires)
  next
    case (Tick_event k r)
    then show ?thesis
      using idle_timer_event [OF i, of "begin_tick k" r] begin_tick_inv [OF t, of k] by simp
  next
    case (Kick_event r)
    then show ?thesis
      using idle_timer_event [OF i, of begin_posted r] begin_posted_inv [OF t] by simp
  next
    case (Posted_event k ops)
    then show ?thesis using after [OF busy_posted_event [OF idle_busy [OF i]]] by simp
  qed (use live in simp)
qed

lemma client_do_inv:
  assumes e0: "fresh_engine e0" and c: "client_inv e0 c"
  shows "safely (client_inv e0) (client_do ev c)"
proof (cases "\<exists>K. dead_client K c")
  case True
  then obtain K where "dead_client K c" ..
  from dead_event [OF this, of ev] show ?thesis
    by (rule safely_weaken) (auto simp: client_inv_def)
next
  case False
  with c have i: "idle_client e0 c" by (simp add: client_inv_def)
  show ?thesis
  proof (cases ev)
    case (Destroy removal cleanup)
    have "safely (client_inv e0) (destroy removal cleanup c)"
      by (rule safely_weaken [OF destroy_dead [OF i]])
        (use e0 in \<open>auto simp: fresh_engine_def client_inv_def released_def\<close>)
    then show ?thesis by (simp add: Destroy safely_expect)
  qed (rule safely_weaken [OF live_event [OF i]]; simp add: client_inv_def)+
qed

lemma new_engine_fresh: "fresh_engine (new_engine version max_pooled)"
  by (simp add: fresh_engine_def)

interpretation cl: component client_do "client_inv (new_engine version max_pooled)"
  for version max_pooled
  by unfold_locales (rule client_do_inv [OF new_engine_fresh])

lemma new_client_inv: "client_inv (new_engine version max_pooled) (new_client version max_pooled now)"
proof -
  have "engine_reached (new_engine version max_pooled) (new_client version max_pooled now)"
    unfolding engine_reached_def
    by (intro exI [of _ "[]"]) (simp add: new_client_def issued_handlers_def)
  then show ?thesis
    using new_engine_inv new_sockets_inv new_timer_inv
    by (simp add: client_inv_def idle_client_def) (simp add: new_client_def new_timer_def)
qed

lemma reachable_client:
  "client_run evs (new_client version max_pooled now) = Inr c \<Longrightarrow>
     client_inv (new_engine version max_pooled) c"
  by (rule cl.run_inv [OF new_client_inv])

lemma alive_idle:
  assumes "client_inv e0 c" "alive (tmr c)"
  shows "idle_client e0 c"
  using assms by (auto simp: client_inv_def dead_client_def)

text \<open>The ledger of handlers, while the client lives.\<close>

lemma client_ledger:
  assumes "client_run evs (new_client version max_pooled now) = Inr c" "alive (tmr c)"
  shows "held_handlers (eng c) + called_handlers (eng c) = mset (started c)"
  using alive_idle [OF reachable_client [OF assms(1)] assms(2)]
    engine_reached_ledger [OF new_engine_inv, of version max_pooled c]
  by (simp add: idle_client_def)

interpretation dead: component client_do "dead_client K" for K
  by unfold_locales (rule dead_event)

text \<open>Runs without destruction.\<close>

lemma live_run:
  "idle_client e0 c \<Longrightarrow> \<forall>ev\<in>set evs. \<not> destroys ev \<Longrightarrow> safely (idle_client e0) (client_run evs c)"
  by (induction evs arbitrary: c) (auto intro: safely_and_then [OF live_event])

end
