(* ===== verification/Sockets_Props.thy ===== *)
theory Sockets_Props
  imports Sockets_Inv
begin

text \<open>
  The properties of the socket table: no dangling \<open>SocketState\<close>, no lost wake-up, libcurl's
  interest is kept, every descriptor is closed exactly once, and readiness is reported for
  the descriptor libcurl knows.
\<close>

lemma reachable_sock_inv: "socket_run ops new_sockets = Inr s \<Longrightarrow> sock_inv s"
  by (rule sck.run_inv [OF new_sockets_inv])

section \<open>A sample run\<close>

text \<open>
  libcurl opens descriptor 5, watches it for writing and then for both, and has the client
  watch its own descriptor 9, for which the client makes the duplicate 6.
\<close>

definition sample_borrow :: "int \<Rightarrow> sid \<Rightarrow> borrow_answers" where
  "sample_borrow d x = \<lparr>dup_fd = d, assign_ok = True, state_at = x\<rparr>"

definition sample_socket_ops :: "socket_op list" where
  "sample_socket_ops =
     [Call (Open_socket IPCXN AF_INET (Some 5) 1), Call (Notify 5 2 (sample_borrow (-1) 2)),
      Wait_done 0 True, Fire 0 [Notify 5 3 (sample_borrow (-1) 2), Notify 9 1 (sample_borrow 6 3)]]"

definition sample_sockets :: sockets where
  "sample_sockets = projr (socket_run sample_socket_ops new_sockets)"

lemmas socket_eval = sample_sockets_def sample_socket_ops_def sample_borrow_def new_sockets_def
  open_socket_cb_def store_entry_def new_socket_state_def notify_def socket_cb_def apply_interest_def
  arm_def arm_read_def arm_write_def wants_def fire_wait_def wait_done_def on_event_def begin_event_def
  clear_armed_def rearm_def drop_event_def release_def watched_state_def borrow_def fresh_state_def
  fresh_fd_def held_fds_def native_of_def outstanding_def Let_def deref_def expect_def
  close_socket_cb_def socket_close_def erase_entry_def

lemma sample_sockets_run: "socket_run sample_socket_ops new_sockets = Inr sample_sockets"
  by (simp add: socket_eval)

section \<open>What is reported\<close>

text \<open>Only the event handler reports to libcurl.\<close>

lemma socket_close_actions: "socket_close x s = Inr s' \<Longrightarrow> actions s' = actions s"
  by (auto simp: socket_close_def and_then_Inr split: option.splits)

lemma release_actions: "release x s = Inr s' \<Longrightarrow> actions s' = actions s"
  by (auto simp: release_def and_then_Inr dest: socket_close_actions split: if_splits)

lemma entry_actions:
  "erase_entry fd s = Inr s' \<Longrightarrow> actions s' = actions s"
  "store_entry fd x s = Inr s' \<Longrightarrow> actions s' = actions s"
  by (auto simp: erase_entry_def store_entry_def dest!: release_actions split: option.splits)

lemma arm_actions: "arm x s = Inr s' \<Longrightarrow> actions s' = actions s"
  by (auto simp: arm_def arm_read_def arm_write_def and_then_Inr split: if_splits)

lemma apply_interest_actions: "apply_interest x fd what s = Inr s' \<Longrightarrow> actions s' = actions s"
  by (auto simp: apply_interest_def and_then_Inr Let_def
      dest!: socket_close_actions entry_actions arm_actions split: if_splits)

lemma watched_state_actions: "watched_state fd ans s = Inr (r, s') \<Longrightarrow> actions s' = actions s"
  by (auto simp: watched_state_def borrow_def and_then_Inr Let_def
      dest!: entry_actions split: if_splits option.splits)

lemma do_call_actions: "do_call c s = Inr s' \<Longrightarrow> actions s' = actions s"
  by (cases c)
    (auto simp: expect_Inr and_then_Inr open_socket_cb_def close_socket_cb_def close_native_def
      notify_def socket_cb_def simp del: call_contract.simps
      dest!: socket_close_actions entry_actions apply_interest_actions watched_state_actions
      split: if_splits option.splits)

lemma do_calls_actions: "do_calls cs s = Inr s' \<Longrightarrow> actions s' = actions s"
  by (induction cs arbitrary: s) (auto simp: and_then_Inr dest!: do_call_actions)

lemma rearm_actions: "rearm x s = Inr s' \<Longrightarrow> actions s' = actions s"
  by (auto simp: rearm_def and_then_Inr dest!: arm_actions split: if_splits)

lemma drop_event_actions: "drop_event x s = Inr s' \<Longrightarrow> actions s' = actions s"
  by (auto simp: drop_event_def dest!: release_actions)

section \<open>Properties\<close>

text \<open>
  No callback libcurl makes and no completion the reactor delivers, in any order, follows
  a pointer to a \<open>SocketState\<close> that is gone, and neither does the teardown of the client.
\<close>

theorem sockets_memory_safe:
  "socket_run ops new_sockets \<noteq> Inl Undefined \<and>
   (socket_run ops new_sockets = Inr s \<longrightarrow> socket_teardown calls s \<noteq> Inl Undefined)"
  using sck.run_defined [OF new_sockets_inv, of ops] teardown_closes_all [OF reachable_sock_inv]
  by (auto simp: safely_def)

theorem sockets_memory_safe_witness: "socket_teardown [] sample_sockets \<noteq> Inl Undefined"
  using sockets_memory_safe [of sample_socket_ops] sample_sockets_run by blast

text \<open>
  C15: No lost wake-up. In every reachable state each socket of the table is open, and for each
  direction libcurl last asked for there is exactly one wait, pending or completed; a direction
  with a wait never has a second one.
\<close>

theorem watched_sockets_armed:
  assumes "socket_run ops new_sockets = Inr s" "(fd, x) \<in> set (table s)"
  shows "\<exists>st. objects s x = Some st \<and> native st \<noteq> None \<and>
    (wants (watch st) CURL_POLL_IN \<longrightarrow> count (mset (outstanding s)) (x, CURL_CSELECT_IN) = 1) \<and>
    (wants (watch st) CURL_POLL_OUT \<longrightarrow> count (mset (outstanding s)) (x, CURL_CSELECT_OUT) = 1) \<and>
    count (mset (outstanding s)) (x, CURL_CSELECT_IN) \<le> 1 \<and>
    count (mset (outstanding s)) (x, CURL_CSELECT_OUT) \<le> 1"
proof -
  have inv: "table_ok s" "waits_ok s" "sock_live {} s"
    using reachable_sock_inv [OF assms(1)] by (simp_all add: sock_inv_def sock_safe_def)
  from table_object [OF inv(1) assms(2)] obtain st where st: "objects s x = Some st" .
  have "object_waits s x st" using inv(2) st unfolding waits_ok_def by blast
  moreover have "native st \<noteq> None" "armed_ok st" using inv(3) assms(2) st unfolding sock_live_def by blast+
  ultimately show ?thesis using st by (simp add: object_waits_def armed_ok_def)
qed

theorem watched_sockets_armed_witness:
  "\<exists>st. objects sample_sockets 1 = Some st \<and> watch st = 3 \<and>
     count (mset (outstanding sample_sockets)) (1, CURL_CSELECT_IN) = 1 \<and>
     count (mset (outstanding sample_sockets)) (1, CURL_CSELECT_OUT) = 1"
proof -
  have "(5, 1) \<in> set (table sample_sockets)" "\<exists>st. objects sample_sockets 1 = Some st \<and> watch st = 3"
    by (simp_all add: socket_eval)
  with watched_sockets_armed [OF sample_sockets_run, of 5 1] show ?thesis by (auto simp: wants_def)
qed

text \<open>
  C16: libcurl's interest is kept. The pointer libcurl remembers for a descriptor leads to a
  live state of that descriptor whose \<open>watch\<close> is what libcurl last asked for; a state libcurl
  has withdrawn from is not watched, and a duplicate of a descriptor of libcurl's own lives
  exactly as long as libcurl's interest in it.
\<close>

theorem interest_is_kept:
  assumes "socket_run ops new_sockets = Inr s"
  shows "(user_ptr s fd = Some x \<longrightarrow> (fd, x) \<in> set (table s) \<and>
      (\<exists>st. objects s x = Some st \<and> ss_fd st = fd \<and> interest s fd = Some (watch st))) \<and>
    ((fd, x) \<in> set (table s) \<and> user_ptr s fd = None \<longrightarrow>
      (\<exists>st. objects s x = Some st \<and> watch st = 0 \<and> \<not> borrowed st))"
proof -
  have inv: "table_ok s" "sock_live {} s"
    using reachable_sock_inv [OF assms(1)] by (simp_all add: sock_inv_def sock_safe_def)
  have p: "(fd, x) \<in> set (table s)" if "user_ptr s fd = Some x"
    using inv(1) that unfolding table_ok_def by blast
  have "\<exists>st. objects s x = Some st \<and> ss_fd st = fd \<and> (borrowed st \<longrightarrow> user_ptr s fd = Some x) \<and>
      (case user_ptr s fd of None \<Rightarrow> watch st = 0 | Some _ \<Rightarrow> interest s fd = Some (watch st))"
    if e: "(fd, x) \<in> set (table s)"
  proof -
    from table_object [OF inv(1) e] obtain st where st: "objects s x = Some st" "entry_ok s fd x st" .
    moreover have "case user_ptr s fd of None \<Rightarrow> watch st = 0 | Some _ \<Rightarrow> interest s fd = Some (watch st)"
      using inv(2) e st(1) unfolding sock_live_def by blast
    ultimately show ?thesis by (intro exI [of _ st]) (simp add: entry_ok_def)
  qed
  with p show ?thesis by (auto split: option.splits)
qed

theorem interest_is_kept_witness:
  "\<exists>st. objects sample_sockets 3 = Some st \<and> ss_fd st = 9 \<and> watch st = 1"
proof -
  have "user_ptr sample_sockets 9 = Some 3" "interest sample_sockets 9 = Some 1"
    by (simp_all add: socket_eval)
  with interest_is_kept [OF sample_sockets_run, of 9 3] show ?thesis by auto
qed



text \<open>
  Destroying the client closes every descriptor it still holds, exactly once, whatever
  libcurl closes on the way, leaves no state alive, and the completions still queued find none:
  running one calls nothing.
\<close>

theorem teardown_leaves_nothing:
  assumes "socket_run ops new_sockets = Inr s" "socket_teardown calls s = Inr s'"
  shows "mset (closed s') = mset (opened s') \<and> table s' = [] \<and> objects s' x = None \<and>
    (\<exists>s''. fire_wait i calls' s' = Inr s'' \<and> actions s'' = actions s' \<and> closed s'' = closed s')"
proof -
  have t: "\<forall>x. objects s' x = None" "table s' = []" "mset (opened s') = mset (closed s')"
    using teardown_closes_all [OF reachable_sock_inv [OF assms(1)], of calls] assms(2)
    by (simp_all add: safely_def)
  then show ?thesis
    by (auto simp: fire_wait_def Let_def split: prod.split)
qed

definition sample_cleanup :: "socket_call list" where
  "sample_cleanup = [Notify 5 4 (sample_borrow (-1) 4), Close_socket 5, Notify 9 4 (sample_borrow (-1) 4)]"

theorem teardown_leaves_nothing_witness:
  "\<exists>s'. socket_teardown sample_cleanup sample_sockets = Inr s' \<and> mset (closed s') = {#5, 6#}"
proof -
  let ?s' = "projr (socket_teardown sample_cleanup sample_sockets)"
  have "socket_teardown sample_cleanup sample_sockets = Inr ?s'" "opened ?s' = [5, 6]"
    by (simp_all add: socket_teardown_def sample_cleanup_def socket_eval)
  with teardown_leaves_nothing [OF sample_sockets_run, of sample_cleanup ?s'] show ?thesis by auto
qed

text \<open>
  A completed wait is reported to libcurl once, for the descriptor libcurl knows (not the
  duplicate the reactor watches), as readiness or, if the wait failed, as an error; a
  completion whose state is gone reports nothing.
\<close>

theorem completion_reported_once:
  assumes "socket_run ops new_sockets = Inr s" "i < length (queued_waits s)"
    and "queued_waits s ! i = (x, flag, ec)" "fire_wait i calls s = Inr s'"
  shows "actions s' = actions s @ (case objects s x of None \<Rightarrow> []
    | Some st \<Rightarrow> [(ss_fd st, if ec = Wait_error then CURL_CSELECT_ERR else flag)])"
proof -
  have inv: "sock_inv s" using assms(1) by (rule reachable_sock_inv)
  have fire: "fire_wait i calls s =
      (if objects s x = None then Inr (unqueued i s) else on_event x flag ec calls (unqueued i s))"
    using assms(2,3) by (simp add: fire_wait_def unqueued_def Let_def)
  show ?thesis
  proof (cases "objects s x")
    case None
    with fire assms(4) show ?thesis by (auto simp: unqueued_def)
  next
    case (Some st)
    have ec: "ec \<noteq> Wait_aborted"
      using aborted_dead [OF inv, of x flag] assms(2,3) Some nth_mem by fastforce
    have "on_event x flag ec calls (unqueued i s) = Inr s'" using fire Some assms(4) by simp
    then obtain s1 s2 where
      "do_calls calls ((begun x flag st (unqueued i s))\<lparr>actions := actions s @
        [(ss_fd st, if ec \<noteq> Wait_ok then CURL_CSELECT_ERR else flag)]\<rparr>) = Inr s1"
      "rearm x s1 = Inr s2" "drop_event x s2 = Inr s'"
      by (auto simp: on_event_def begin_event_begun [OF Some ec] and_then_Inr)
    then have "actions s' = actions s @ [(ss_fd st, if ec \<noteq> Wait_ok then CURL_CSELECT_ERR else flag)]"
      by (auto dest!: do_calls_actions rearm_actions drop_event_actions)
    with Some ec show ?thesis by (cases ec) simp_all
  qed
qed

theorem completion_reported_once_witness:
  "\<exists>s'. fire_wait 0 [] (projr (socket_run (take 3 sample_socket_ops) new_sockets)) = Inr s' \<and>
     actions s' = [(5, CURL_CSELECT_OUT)]"
proof -
  let ?s = "projr (socket_run (take 3 sample_socket_ops) new_sockets)"
  have 1: "socket_run (take 3 sample_socket_ops) new_sockets = Inr ?s" "0 < length (queued_waits ?s)"
    "queued_waits ?s ! 0 = (1, CURL_CSELECT_OUT, Wait_ok)"
    "fire_wait 0 [] ?s = Inr (projr (fire_wait 0 [] ?s))"
    by (simp_all add: socket_eval)
  have 2: "actions ?s = []" "\<exists>st. objects ?s 1 = Some st \<and> ss_fd st = 5"
    by (simp_all add: socket_eval)
  from completion_reported_once [OF 1] 1(4) 2 show ?thesis by auto
qed

end
