(* ===== verification/Transfers_Isolation.thy ===== *)
theory Transfers_Isolation
  imports Transfers_Facts
begin

text \<open>
  Transfers do not interfere: an operation that neither reports a transfer's completion nor
  emits on its cancellation slot leaves its node, its place in \<open>transfers_\<close> and the options of its
  handle as they are, apart from bytes received for that handle.
\<close>

section \<open>Operations on other transfers\<close>

definition untouched :: "engine \<Rightarrow> engine \<Rightarrow> addr \<Rightarrow> transfer \<Rightarrow> bool" where
  "untouched e e' a t \<longleftrightarrow>
     a \<in> set (transfers e') \<and> nodes e' a = nodes e a \<and> opts e' (eh t) = opts e (eh t)"

lemma untouched_cong:
  assumes "untouched e1 e2 a t" "nodes e1 a = nodes e a" "opts e1 (eh t) = opts e (eh t)"
    and "transfers e' = transfers e2" "nodes e' = nodes e2" "opts e' = opts e2"
  shows "untouched e e' a t"
  using assms by (simp add: untouched_def)

lemma take_retire_untouched:
  assumes "take_handler b e = Inr (h, e1)" "retire b scrub e1 = Inr e2"
    and "nodes e b = Some u" "self u = b" "b \<noteq> a" "eh u \<noteq> eh t" "a \<in> set (transfers e)"
  shows "untouched e e2 a t"
proof -
  from assms(1,3) have e1: "e1 = put_node b (u\<lparr>handler := None\<rparr>) e"
    by (auto simp: take_handler_def split: option.splits)
  have "e2 = (if length (idle e1) < max_pooled_handles e1 then parked else dropped)
      b (u\<lparr>handler := None\<rparr>)
      (if scrub then configure_handle (libcurl_version e1) else opts e1 (eh u)) e1"
    using retire_done(2) [OF assms(2), of "u\<lparr>handler := None\<rparr>"] assms(4) by (simp add: e1)
  with assms show ?thesis
    by (auto simp: e1 untouched_def parked_def dropped_def in_set_remove1 split: if_splits)
qed

lemma complete_other:
  assumes inv: "engine_inv e" and m: "easy_handle m \<in> set (in_multi e)"
    and r: "complete_transfer m e = Inr e'"
    and a: "a \<in> set (transfers e)" "nodes e a = Some t" "easy_handle m \<noteq> eh t"
  shows "untouched e e' a t"
proof -
  from inv m obtain b u where u: "b \<in> set (transfers e)" "nodes e b = Some u"
    "eh u = easy_handle m" "in_flight e b u" "private_of (easy_handle m) e = Inr b"
    by (rule in_multi_node)
  with a have ba: "b \<noteq> a" by auto
  let ?u = "u\<lparr>buffer := moved_from_buffer m, header_buffer := moved_from_headers m\<rparr>"
  let ?e1 = "put_node b ?u (e\<lparr>in_multi := remove1 (easy_handle m) (in_multi e)\<rparr>)"
  from r u obtain h e2 e3 q where s: "take_handler b ?e1 = Inr (h, e2)"
      "retire b (scrub_on_done u) e2 = Inr e3" and e': "e' = e3\<lparr>invoked := q\<rparr>"
    by (auto simp: complete_transfer_def Let_def and_then_Inr)
  have "untouched ?e1 e3 a t"
    by (rule take_retire_untouched [OF s, of ?u]) (use u a ba in \<open>auto simp: in_flight_def\<close>)
  then show ?thesis by (rule untouched_cong) (use ba in \<open>simp_all add: e'\<close>)
qed

lemma cancel_other:
  assumes inv: "engine_inv e" and r: "cancel i e = Inr e'"
    and a: "a \<in> set (transfers e)" "nodes e a = Some t" "tid t \<noteq> i"
  shows "untouched e e' a t"
proof -
  have ok: "nodes_ok e" using inv by (simp add: engine_inv_def engine_inv_but_def)
  from find_transfer_cases [OF ok order_refl, of i] show ?thesis
  proof (elim disjE conjE exE)
    assume "find_transfer (nodes e) i (transfers e) = Inr None"
    with r a show ?thesis by (simp add: cancel_def untouched_def)
  next
    fix b u
    assume f: "find_transfer (nodes e) i (transfers e) = Inr (Some b)"
      and u: "b \<in> set (transfers e)" "nodes e b = Some u" "tid u = i"
    have ba: "b \<noteq> a" using u a by auto
    then have eh: "eh u \<noteq> eh t" using eh_inj [OF ok u(2) a(2)] by blast
    let ?e1 = "e\<lparr>in_multi := remove1 (eh u) (in_multi e),
      running := (if running e > 0 then running e - 1 else running e)\<rparr>"
    from r f u obtain h e2 e3 q where s: "take_handler b ?e1 = Inr (h, e2)"
        "retire b True e2 = Inr e3" and e': "e' = e3\<lparr>posted := q\<rparr>"
      by (auto simp: cancel_def Let_def and_then_Inr)
    have "self u = b" using in_flightD [of "{}" e b u] inv u by (simp add: engine_inv_def in_flight_def)
    with take_retire_untouched [OF s, of u] u eh ba a have "untouched ?e1 e3 a t" by simp
    then show ?thesis by (rule untouched_cong) (simp_all add: e')
  qed
qed

lemma starting_other:
  assumes inv: "engine_inv e" and c: "start_contract ans e" and st: "starting ans r h e b u e1"
    and a: "a \<in> set (transfers e)" "nodes e a = Some t"
  shows "b \<noteq> a" "eh u \<noteq> eh t" "nodes e1 a = nodes e a" "opts e1 (eh t) = opts e (eh t)"
    "transfers e1 = b # transfers e"
proof -
  have ok: "nodes_ok e" using inv by (simp add: engine_inv_def engine_inv_but_def)
  have en: "entering e b u e1" and ac: "acquire ans e = Some e1"
    using st by (simp_all add: starting_def)
  show tr: "transfers e1 = b # transfers e" using en by (simp add: entering_def)
  have ok1: "nodes_ok e1" and d: "distinct (transfers e1)"
    using en nodes_ok_distinct [OF inv_nodes_ok] inv_nodes_ok by (fastforce simp: entering_def)+
  then show ba: "b \<noteq> a" using tr a(1) by auto
  then show n: "nodes e1 a = nodes e a" using en unfolding entering_def by metis
  then show "eh u \<noteq> eh t" using ba eh_inj [OF ok1, of b u a t] en a by (auto simp: entering_def)
  show "opts e1 (eh t) = opts e (eh t)"
  proof (cases "idle e")
    case Nil
    with ac obtain h' where h': "easy_init ans = Some h'" "opts e1 = (opts e)(h' := configure_handle (libcurl_version e))"
      by (auto simp: acquire_def split: option.splits)
    moreover have "eh t \<in> set (open_handles e)"
      using nodes_ok_handles [OF ok] nodes_ok_dom [OF ok] a by force
    ultimately show ?thesis using c by (auto simp: start_contract_def)
  next
    case (Cons x xs)
    with ac show ?thesis by (auto simp: acquire_def)
  qed
qed

lemma start_other:
  assumes inv: "engine_inv e" and c: "start_contract ans e" and r: "start ans r h e = Inr e'"
    and a: "a \<in> set (transfers e)" "nodes e a = Some t"
  shows "untouched e e' a t"
  using inv c r
proof (cases rule: start_cases)
  case no_handle
  with a show ?thesis by (simp add: untouched_def fail_def)
next
  case (added b u e1)
  with starting_other [OF inv c added(1) a] a show ?thesis by (auto simp: untouched_def prepared_log_def)
next
  case (refused b u e1 h' e2 e3)
  note so = starting_other [OF inv c refused(1) a]
  have "untouched (prepare ans r h b u e1) e3 a t"
    by (rule take_retire_untouched [OF refused(3,4), of "prepared_node ans r h b u e1"])
      (use so a in auto)
  then show ?thesis by (rule untouched_cong) (use so refused in \<open>auto simp: fail_def\<close>)
qed

section \<open>Runs that spare a transfer\<close>

fun spares :: "handle \<Rightarrow> completion_handler \<Rightarrow> engine_op \<Rightarrow> bool" where
  "spares c h (Deliver m) = (easy_handle m \<noteq> c)"
| "spares c h (Emit s) = (cancel_slot h \<noteq> Some s)"
| "spares c h _ = True"

definition received :: "transfer \<Rightarrow> engine_op list \<Rightarrow> transfer" where
  "received t ops = t\<lparr>buffer := buffer t @ concat (map (body_of (eh t)) ops),
     header_buffer := header_buffer t @ concat (map (header_of (eh t)) ops)\<rparr>"

lemma received_simps [simp]:
  "received t [] = t"
  "eh (received t ops) = eh t"
  "handler (received t ops) = handler t"
  "tid (received t ops) = tid t"
  "received (received t ops) ops' = received t (ops @ ops')"
  by (simp_all add: received_def)

lemma spared_step:
  assumes inv: "engine_inv e" and sl: "slots_ok e" and own: "own_callbacks e a t"
    and h: "handler t = Some h" and op: "spares (eh t) h op" and s: "engine_do op e = Inr e'"
  shows "own_callbacks e' a (received t [op])"
proof -
  have a: "a \<in> set (transfers e)" "nodes e a = Some t" using own by (simp_all add: own_callbacks_def)
  have other: "own_callbacks e' a t" if "untouched e e' a t"
    using that own by (simp add: untouched_def own_callbacks_def)
  have bytes: "bytes_only op \<Longrightarrow> own_callbacks e' a (received t [op])"
    using bytes_step [OF inv own] s by (simp add: engine_step_def received_def)
  have none: "received t [op] = t" if "\<not> bytes_only op"
    using that by (cases op) (simp_all add: received_def)
  show ?thesis
  proof (cases op)
    case (Start ans r h')
    with s have "untouched e e' a t" by (auto simp: expect_Inr intro: start_other [OF inv _ _ a])
    with other none Start show ?thesis by simp
  next
    case (Emit s')
    have "untouched e e' a t"
    proof (cases "slots e s'")
      case None
      with s Emit a show ?thesis by (simp add: emit_def untouched_def)
    next
      case (Some i)
      then have "tid t = i \<Longrightarrow> \<exists>h. handler t = Some h \<and> cancel_slot h = Some s'"
        using sl a unfolding slots_ok_def by blast
      then have "tid t \<noteq> i" using h op Emit by auto
      with cancel_other [OF inv _ a] s Emit Some show ?thesis by (simp add: emit_def)
    qed
    with other none Emit show ?thesis by simp
  next
    case (Deliver m)
    have "untouched e e' a t"
    proof (cases "msg_done m")
      case True
      with s op Deliver show ?thesis
        by (auto simp: expect_Inr completion_step_def message_contract_def
            intro: complete_other [OF inv _ _ a])
    next
      case False
      with s a Deliver show ?thesis by (simp add: expect_Inr completion_step_def untouched_def)
    qed
    with other none Deliver show ?thesis by simp
  next
    case (Run_posted i)
    with s a have "untouched e e' a t" by (auto simp: run_posted_def untouched_def)
    with other none Run_posted show ?thesis by simp
  next
    case (Count n)
    with s a have "untouched e e' a t" by (auto simp: expect_Inr untouched_def)
    with other none Count show ?thesis by simp
  qed (use bytes in simp_all)
qed

lemma spared_run:
  "engine_run ops e = Inr e' \<Longrightarrow> engine_inv e \<Longrightarrow> slots_ok e \<Longrightarrow> own_callbacks e a t \<Longrightarrow>
     handler t = Some h \<Longrightarrow> list_all (spares (eh t) h) ops \<Longrightarrow>
     own_callbacks e' a (received t ops) \<and> engine_inv e' \<and> slots_ok e'"
proof (induction ops arbitrary: e t)
  case Nil
  then show ?case by simp
next
  case (Cons op ops)
  then obtain e1 where e1: "engine_do op e = Inr e1" "engine_run ops e1 = Inr e'"
    by (auto simp: and_then_Inr)
  have "engine_inv e1" using engine_do_inv [of e op] Cons.prems(2) e1(1) by (simp add: safely_def)
  moreover have "slots_ok e1" using engine_do_slots_ok Cons.prems(2,3) e1(1) by blast
  moreover have "own_callbacks e1 a (received t [op])"
    using spared_step [OF Cons.prems(2-5) _ e1(1)] Cons.prems(6) by simp
  ultimately show ?case using Cons.IH [OF e1(2), of "received t [op]"] Cons.prems(5,6) by simp
qed

section \<open>From start to completion\<close>

lemma started_own_callbacks:
  assumes inv: "engine_inv e" and c: "start_contract ans e" and r: "start ans r h e = Inr e'"
    and plain: "r_curl_setup r = None" and new: "set (in_multi e') \<noteq> set (in_multi e)"
  obtains a t where "own_callbacks e' a t" "handler t = Some h" "buffer t = []" "header_buffer t = []"
    "body t = r_body r" "slist t = build_slist (slist_append ans) r"
    "in_multi e' = eh t # in_multi e"
    "opts e' (eh t) = opts e (eh t) @ start_opts a r (slist t) \<and> plain_log (libcurl_version e) (opts e (eh t)) \<or>
     opts e' (eh t) = configure_handle (libcurl_version e) @ start_opts a r (slist t)"
    "\<And>s. cancel_slot h = Some s \<Longrightarrow> slots e' s = Some (tid t)"
  using inv c r
proof (cases rule: start_cases)
  case no_handle
  with new show ?thesis by (simp add: fail_def)
next
  case (refused a t e1 h' e2 e3)
  with new refused_start [OF refused(1,3,4)] show ?thesis by (simp add: fail_def)
next
  case (added a t e1)
  have en: "entering e a t e1" and ac: "acquire ans e = Some e1"
    using added(1) by (simp_all add: starting_def)
  let ?t = "prepared_node ans r h a t e1"
  have im: "in_multi e1 = in_multi e"
    using ac by (auto simp: acquire_def split: list.splits option.splits)
  have t: "buffer t = []" "header_buffer t = []" "plain_log (libcurl_version e) (opts e1 (eh t))"
    using en unfolding entering_def by metis+
  have log: "opts e' (eh t) = opts e1 (eh t) @ start_opts a r (slist ?t)"
    using added(3) plain by (simp add: prepared_log_def prepared_node_def hook_opts_def)
  have pre: "opts e1 (eh t) = opts e (eh t) \<or> opts e1 (eh t) = configure_handle (libcurl_version e)"
    using ac by (auto simp: acquire_def split: list.splits option.splits)
  have plain': "plain_log (libcurl_version e) (opts e' (eh t))"
    using log plain_log_start [OF t(3)] by simp
  have "own_callbacks e' a ?t"
    using added(3) en plain_log_last_set [OF plain'] configure_callbacks
    by (simp add: own_callbacks_def entering_def start_options_def)
  moreover have "slots e' s = Some (tid ?t)" if "cancel_slot h = Some s" for s
    using added(3) that by (simp add: prepare_slots)
  moreover have "opts e' (eh t) = opts e (eh t) @ start_opts a r (slist ?t) \<and> plain_log (libcurl_version e) (opts e (eh t)) \<or>
      opts e' (eh t) = configure_handle (libcurl_version e) @ start_opts a r (slist ?t)"
    using log pre t(3) by auto
  ultimately show ?thesis
    using t im added(3) by (intro that [of a ?t]) (simp_all add: prepared_node_def)
qed

text \<open>The same, for a reachable engine and a start that gave handle \<open>c\<close> to the multi.\<close>

lemma plain_start:
  assumes run: "engine_run before (new_engine version max_pooled) = Inr e"
    and r: "engine_do (Start ans r h) e = Inr e'" "in_multi e' = c # in_multi e"
    and plain: "r_curl_setup r = None"
  obtains a t log where "own_callbacks e' a t" "handler t = Some h" "buffer t = []" "header_buffer t = []"
    "body t = r_body r" "slist t = build_slist (slist_append ans) r" "eh t = c"
    "opts e' c = log @ start_opts a r (slist t)" "plain_log version log"
    "\<And>s. cancel_slot h = Some s \<Longrightarrow> slots e' s = Some (tid t)"
    "engine_inv e'" "slots_ok e'"
proof -
  have inv: "engine_inv e" using run by (rule engine_run_inv)
  have inv': "engine_inv e'" using engine_do_inv [OF inv, of "Start ans r h"] r(1) by (simp add: safely_def)
  have sl: "slots_ok e'" using engine_do_slots_ok [OF reachable_slots_ok [OF run] inv r(1)] .
  have "c \<notin> set (in_multi e)" using inv' r(2) by (simp add: engine_inv_def engine_inv_but_def)
  with r(2) have new: "set (in_multi e') \<noteq> set (in_multi e)" by auto
  from r(1) have c: "start_contract ans e" "start ans r h e = Inr e'" by (simp_all add: expect_Inr)
  from inv c plain new show ?thesis
  proof (cases rule: started_own_callbacks)
    case (1 a t)
    have v: "libcurl_version e = version" using reachable_max_pooled [OF run] by simp
    have eh: "eh t = c" using 1(7) r(2) by simp
    obtain log where "opts e' c = log @ start_opts a r (slist t)" "plain_log version log"
      using 1(8) v eh by auto
    with 1 eh inv' sl that [of a t log] show ?thesis by blast
  qed
qed

text \<open>With a hook or without: the calls the hook makes come last.\<close>

lemma any_start:
  assumes run: "engine_run before (new_engine version max_pooled) = Inr e"
    and r: "engine_do (Start ans r h) e = Inr e'" "in_multi e' = c # in_multi e"
  obtains a t log where "nodes e' a = Some t" "a \<in> set (transfers e')" "eh t = c" "handler t = Some h"
    "body t = r_body r" "slist t = build_slist (slist_append ans) r"
    "opts e' c = log @ start_opts a r (slist t) @ hook_opts r" "plain_log version log"
proof -
  have inv: "engine_inv e" using run by (rule engine_run_inv)
  from r(1) have c: "start_contract ans e" "start ans r h e = Inr e'" by (simp_all add: expect_Inr)
  from inv c show ?thesis
  proof (cases rule: start_cases)
    case no_handle
    with r(2) show ?thesis by (simp add: fail_def)
  next
    case (refused a t e1 h' e2 e3)
    with refused_start [OF refused(1,3,4)] r(2) show ?thesis by (simp add: fail_def)
  next
    case (added a t e1)
    have en: "entering e a t e1" and ac: "acquire ans e = Some e1"
      using added(1) by (simp_all add: starting_def)
    have "in_multi e1 = in_multi e" using ac by (auto simp: acquire_def split: list.splits option.splits)
    with added(3) r(2) have eh: "eh t = c" by simp
    have v: "libcurl_version e1 = version" "transfers e1 = a # transfers e"
      using en reachable_max_pooled [OF run] by (simp_all add: entering_def)
    have log: "plain_log version (opts e1 (eh t))" using en v(1) unfolding entering_def by metis
    show ?thesis
      by (rule that [of a "prepared_node ans r h a t e1" "opts e1 (eh t)"])
        (use added(3) v log in \<open>simp_all add: eh prepared_log_def prepared_node_def\<close>)
  qed
qed

section \<open>Cancellation\<close>

fun rebinds :: "slot_ref \<Rightarrow> engine_op \<Rightarrow> bool" where
  "rebinds s (Start ans r h) = (cancel_slot h = Some s)"
| "rebinds s _ = False"

lemma slots_step:
  assumes inv: "engine_inv e" and op: "\<not> rebinds s op" and r: "engine_do op e = Inr e'"
  shows "slots e' s = slots e s"
proof -
  have other: "slots e' s = slots e s" if "fewer_transfers e e'"
    using that by (simp add: fewer_transfers_def)
  show ?thesis
  proof (cases op)
    case (Start ans rq h)
    with r have c: "start_contract ans e" "start ans rq h e = Inr e'" by (simp_all add: expect_Inr)
    from inv c show ?thesis
    proof (cases rule: start_cases)
      case no_handle
      then show ?thesis by (simp add: fail_def)
    next
      case (added a t e1)
      with op Start show ?thesis
        by (auto simp: prepare_slots starting_def dest: acquire_slots split: option.splits)
    next
      case (refused a t e1 h' e2 e3)
      then have "slots e3 = slots (prepare ans rq h a t e1)"
        by (auto simp: take_handler_def retire_def curl_easy_cleanup_def and_then_Inr Let_def split: option.splits if_splits)
      with refused op Start show ?thesis
        by (auto simp: fail_def prepare_slots starting_def dest: acquire_slots split: option.splits)
    qed
  qed (use r in \<open>auto simp: expect_Inr emit_def completion_step_def message_contract_def run_posted_def
      intro: other complete_transfer_fewer [OF inv] cancel_fewer [OF inv] receive_fewer [OF inv]
      split: option.splits if_splits\<close>)
qed

lemma slots_run:
  "engine_run ops e = Inr e' \<Longrightarrow> engine_inv e \<Longrightarrow> list_all (\<lambda>op. \<not> rebinds s op) ops \<Longrightarrow>
     slots e' s = slots e s"
proof (induction ops arbitrary: e)
  case (Cons op ops)
  then obtain e1 where e1: "engine_do op e = Inr e1" "engine_run ops e1 = Inr e'"
    by (auto simp: and_then_Inr)
  with Cons engine_do_inv [of e op] slots_step [of e s op e1] show ?case by (simp add: safely_def)
qed simp

lemma cancel_returns:
  assumes "engine_inv e"
  shows "\<exists>e'. cancel i e = Inr e'"
proof -
  have "retire a scrub s \<noteq> Inl Breach" "take_handler a s \<noteq> Inl Breach" for a scrub s
    by (auto simp: retire_def curl_easy_cleanup_def take_handler_def and_then_def deref_def Let_def
        split: option.splits sum.splits)
  moreover have "find_transfer ns i as \<noteq> Inl Breach" for ns as
    by (induction as) (auto simp: and_then_def deref_def split: option.splits sum.splits)
  ultimately have "cancel i e \<noteq> Inl Breach"
    by (auto simp: cancel_def and_then_def deref_def Let_def
        split: option.splits sum.splits prod.splits)
  with cancel_inv [OF assms, of i] show ?thesis
    by (cases "cancel i e"; cases "projl (cancel i e)") auto
qed

lemma emit_returns: "engine_inv e \<Longrightarrow> \<exists>e'. emit s e = Inr e'"
  by (simp add: emit_def cancel_returns split: option.split)

lemma emit_own:
  assumes inv: "engine_inv e" and a: "own_callbacks e a t" "handler t = Some h"
    and s: "slots e s = Some (tid t)"
  obtains e' where "emit s e = Inr e'" "invoked e' = invoked e" "waiting e = add_mset h (waiting e')"
    "posted e' = posted e @ [(h, Operation_aborted, error_response CURLE_ABORTED_BY_CALLBACK)]"
    "a \<notin> set (transfers e')"
proof -
  have at: "a \<in> set (transfers e)" "nodes e a = Some t" using a by (simp_all add: own_callbacks_def)
  have inj: "inj_on (tid_at e) (set (transfers e))"
    using inv by (simp add: engine_inv_def engine_inv_but_def)
  obtain e' where e': "emit s e = Inr e'" using emit_returns [OF inv] by blast
  with s have "cancel (tid t) e = Inr e'" by (simp add: emit_def)
  with inv show ?thesis
  proof (cases rule: cancel_effect)
    case 1
    with at show ?thesis by (metis imageI tid_at_Some)
  next
    case (2 b u h')
    have "b = a" using inj_onD [OF inj, of b a] 2(1-3) at by simp
    with 2 at a(2) engine_inv_distinct [OF inv] have "a \<notin> set (transfers e')" "h' = h" by auto
    with 2 e' that show ?thesis by simp
  qed
qed

section \<open>Options do not depend on history\<close>

definition pointer_options :: "curl_option set" where
  "pointer_options = {CURLOPT_WRITEDATA, CURLOPT_HEADERDATA, CURLOPT_PRIVATE, CURLOPT_POSTFIELDS}"

lemma start_opts_addr:
  "opt \<notin> pointer_options \<Longrightarrow>
     last_set (start_opts a r chunk) opt = last_set (start_opts b r chunk) opt"
  by (cases "r_method r")
    (auto simp: start_opts_def last_set_append last_set_Cons set_body_def pointer_options_def)

lemma any_start_last_set:
  assumes "plain_log version log" "opt \<in> fst ` set hook \<or>
    opt \<notin> pointer_options \<union> {CURLOPT_HTTPGET, CURLOPT_POST} \<and> (r_method r = GET \<longrightarrow> opt \<noteq> CURLOPT_POSTFIELDSIZE)"
  shows "last_set (log @ start_opts a r chunk @ hook) opt =
    last_set (configure_handle version @ start_opts 0 r chunk @ hook) opt"
proof (cases "opt \<in> fst ` set hook")
  case True
  then have "last_set hook opt \<noteq> None" by (simp add: last_set_None)
  then show ?thesis by (auto simp: last_set_append)
next
  case False
  with assms(2) have opt: "opt \<notin> pointer_options" "opt \<noteq> CURLOPT_HTTPGET" "opt \<noteq> CURLOPT_POST"
    "r_method r = GET \<Longrightarrow> opt \<noteq> CURLOPT_POSTFIELDSIZE" by auto
  have "last_set (log @ start_opts a r chunk @ hook) opt =
      last_set (configure_handle version @ start_opts a r chunk @ hook) opt"
    using assms(1) opt(2-4) by (rule recycled_last_set)
  with start_opts_addr [OF opt(1), of a r chunk 0] show ?thesis
    by (simp add: last_set_append split: option.splits)
qed

lemma any_start_kind:
  "request_kind (log @ start_opts a r chunk @ hook) =
     fold kind_after hook (if r_method r = GET then Get_request else Post_request)"
  by (simp add: request_kind_append start_opts_kind)

lemma plain_start_kind:
  "request_kind (log @ start_opts a r chunk) = (if r_method r = GET then Get_request else Post_request)"
  by (simp add: request_kind_append start_opts_kind)

lemma plain_start_verb: "wire_verb (log @ start_opts a r chunk) = verb_name (r_method r)"
  by (cases "r_method r") (simp_all add: wire_verb_def last_set_custom plain_start_kind)

end
