(* ===== verification/Transfers_Props.thy ===== *)
theory Transfers_Props
  imports Transfers_Isolation
begin

text \<open>
  The properties of requests, easy-handle options and the transfer engine. A state is reachable
  when some list of operations leads to it from the constructor's state
  (\<open>engine_run ops (new_engine version max_pooled) = Inr e\<close>). The witnesses run short
  sequences of requests on a pool of one or two nodes.
\<close>

section \<open>Sample operations\<close>

definition sample_answers :: "handle \<Rightarrow> addr \<Rightarrow> start_answers" where
  "sample_answers h a = \<lparr>easy_init = Some h, node_at = a, slist_append = (\<lambda>l s. l @ [s]),
     add_handle = CURLM_OK\<rparr>"

definition sample_handler :: "nat \<Rightarrow> completion_handler" where
  "sample_handler n = \<lparr>hid = n, cancel_slot = Some n\<rparr>"

definition sample_message :: "handle \<Rightarrow> curlcode \<Rightarrow> int \<Rightarrow> message" where
  "sample_message h code status =
     \<lparr>msg_done = True, easy_handle = h, msg_result = code, response_code = status,
      moved_from_buffer = ''?'', moved_from_headers = ''?''\<rparr>"

definition sample_run :: "engine_op list \<Rightarrow> engine" where
  "sample_run ops = projr (engine_run ops (new_engine 0x080000 1))"

definition one_get :: "engine_op list" where
  "one_get = [Start (sample_answers 7 70) (async_get ''u'') (sample_handler 1)]"

definition post_then_done :: "engine_op list" where
  "post_then_done =
     [Start (sample_answers 7 70) (async_post ''u'' ''abc'') (sample_handler 1), Count 1,
      Header_bytes 7 ''H'', Body_bytes 7 ''xy'', Body_bytes 7 ''z'', Count 0,
      Deliver (sample_message 7 CURLE_OK 200)]"

lemmas sample_defs = sample_run_def sample_answers_def sample_handler_def sample_message_def
  one_get_def post_then_done_def

lemmas engine_eval = sample_defs start_def acquire_def new_engine_def prepare_def
  start_contract_def message_contract_def completion_step_def complete_transfer_def
  private_of_def take_handler_def retire_def curl_easy_cleanup_def retired_node_def hook_ok_def hook_opts_def
  receive_body_def receive_header_def body_write_cb_def header_cb_def emit_def cancel_def
  fail_def new_transfer_def Let_def and_then_def deref_def expect_def request_entry_points
  request_setters start_opts_def set_body_def configure_handle_def last_set_def build_slist_def
  c_str_def

lemma sample_runs:
  "engine_run one_get (new_engine 0x080000 1) = Inr (sample_run one_get)"
  "engine_run post_then_done (new_engine 0x080000 1) = Inr (sample_run post_then_done)"
  by (simp_all add: engine_eval)

section \<open>Memory safety and the shape of the pool\<close>

text \<open>
  No sequence of operations makes the engine follow a dangling or null transfer pointer,
  or call an empty handler, as long as libcurl, the allocator and the callers of the escape
  hatch keep to their contracts.
\<close>

theorem engine_memory_safe: "engine_run ops (new_engine version max_pooled) \<noteq> Inl Undefined"
  by (rule eng.run_defined [OF new_engine_inv])

text \<open>
  C17: In every reachable state the idle pool stays within the cap given to the constructor,
  each node is on exactly one of the two lists, no node has leaked, the easy handles not yet
  cleaned up are exactly those of the nodes, and the multi holds exactly the in-flight ones.
\<close>

theorem engine_pool_shape:
  assumes "engine_run ops (new_engine version max_pooled) = Inr e"
  shows "length (idle e) \<le> max_pooled \<and> distinct (transfers e @ idle e) \<and>
    dom (nodes e) = set (transfers e) \<union> set (idle e) \<and>
    distinct (open_handles e) \<and> set (open_handles e) = eh_at e ` dom (nodes e) \<and>
    distinct (in_multi e) \<and> set (in_multi e) = eh_at e ` set (transfers e)"
proof -
  have inv: "engine_inv e" using assms by (rule engine_run_inv)
  then have ok: "nodes_ok e" by (simp add: engine_inv_def engine_inv_but_def)
  show ?thesis
    using inv nodes_okD [OF ok] reachable_max_pooled [OF assms]
    unfolding engine_inv_def engine_inv_but_def by simp
qed

theorem engine_pool_shape_witness: "length (idle (sample_run post_then_done)) \<le> 1"
  using engine_pool_shape [OF sample_runs(2)] by simp

text \<open>
  C18: A node in the idle pool carries nothing of the request it served: no handler, body,
  received bytes, header list or id, and the options on its handle are those of
  \<open>configure_handle\<close> except for ones that every \<open>start\<close> may set.
\<close>

theorem warm_nodes_clean:
  assumes "engine_run ops (new_engine version max_pooled) = Inr e" "a \<in> set (idle e)"
  shows "\<exists>t. nodes e a = Some t \<and> handler t = None \<and> slist t = [] \<and> body t = [] \<and>
    buffer t = [] \<and> header_buffer t = [] \<and> tid t = 0 \<and>
    (\<forall>opt. opt \<notin> start_options \<longrightarrow>
       last_set (opts e (eh t)) opt = last_set (configure_handle version) opt)"
proof -
  have inv: "engine_inv_but {} e" using engine_run_inv [OF assms(1)] by (simp add: engine_inv_def)
  have "a \<in> dom (nodes e)" using nodes_ok_dom [OF inv_nodes_ok [OF inv]] assms(2) by simp
  then obtain t where t: "nodes e a = Some t" by blast
  with warmD [OF inv assms(2)] reachable_max_pooled [OF assms(1)] show ?thesis
    by (intro exI [of _ t]) (auto simp: warm_def plain_log_last_set)
qed

theorem warm_nodes_clean_witness:
  "\<exists>t. nodes (sample_run post_then_done) 70 = Some t \<and> body t = [] \<and> buffer t = []"
proof -
  have "70 \<in> set (idle (sample_run post_then_done))" by (simp add: engine_eval)
  from warm_nodes_clean [OF sample_runs(2) this] show ?thesis by blast
qed

section \<open>Completion handlers\<close>

text \<open>
  Exactly once. In every reachable state each handler handed to \<open>start\<close> is accounted for
  with its multiplicity: waiting in an in-flight transfer, posted, or called. So none is called
  twice, none is lost, and once nothing is in flight or posted, all have been called.
\<close>

theorem handlers_called_exactly_once:
  assumes "engine_run ops (new_engine version max_pooled) = Inr e"
  shows "held_handlers e + called_handlers e = issued_handlers ops \<and>
    called_handlers e \<subseteq># issued_handlers ops \<and>
    (transfers e = [] \<and> posted e = [] \<longrightarrow> called_handlers e = issued_handlers ops)"
proof -
  have r: "runs engine_step (new_engine version max_pooled) ops e"
    using assms by (simp add: engine_run_runs)
  have b: "held_handlers e + called_handlers e = issued_handlers ops"
    using el.balance_runs [OF r new_engine_inv] by (simp add: issued_handlers_def)
  have "called_handlers e \<subseteq># issued_handlers ops"
    using el.settled_at_most_issued [OF r new_engine_inv] by (simp add: issued_handlers_def)
  moreover have "held_handlers e = {#}" if "transfers e = []" "posted e = []"
    using that by (simp add: held_handlers_def waiting_def)
  ultimately show ?thesis using b by auto
qed

theorem handlers_called_exactly_once_witness:
  "called_handlers (sample_run post_then_done) = {# sample_handler 1 #}"
proof -
  have "transfers (sample_run post_then_done) = [] \<and> posted (sample_run post_then_done) = []"
    by (simp add: engine_eval)
  with handlers_called_exactly_once [OF sample_runs(2)] show ?thesis
    by (simp add: issued_handlers_def post_then_done_def)
qed

text \<open>
  Neither starting a request nor emitting cancellation ever calls a completion handler
  inline, whatever fails on the way; completions they cause are posted.
\<close>

theorem initiation_never_calls_handlers:
  assumes "engine_run ops (new_engine version max_pooled) = Inr e"
    and "engine_do (Start ans r h) e = Inr e' \<or> engine_do (Emit s) e = Inr e'"
  shows "invoked e' = invoked e"
  using assms(2) start_ledger(2) emit_effect(1) engine_run_inv [OF assms(1)]
  by (auto simp: expect_Inr)

theorem initiation_never_calls_handlers_witness:
  "invoked (projr (engine_do (Emit 1) (sample_run one_get))) = []"
proof -
  have "engine_do (Emit 1) (sample_run one_get) = Inr (projr (engine_do (Emit 1) (sample_run one_get)))"
    "invoked (sample_run one_get) = []"
    by (simp_all add: engine_eval)
  with initiation_never_calls_handlers [OF sample_runs(1), of undefined undefined undefined _ 1]
  show ?thesis by metis
qed

text \<open>
  A request that cannot be started (no easy handle, or a handle the multi refuses) is
  completed with an error: its handler, and no other, is posted with a set curl error and the
  matching response, and nothing stays in flight for it.
\<close>

theorem failed_start_completes:
  assumes "engine_run ops (new_engine version max_pooled) = Inr e"
    and "start_contract ans e" "hook_ok (hook_opts r)"
    and "(idle e = [] \<and> easy_init ans = None) \<or>
      \<not> (idle e = [] \<and> easy_init ans = None) \<and> add_handle ans \<noteq> CURLM_OK"
  shows "\<exists>e' code. start ans r h e = Inr e' \<and> code \<in> {CURLE_FAILED_INIT, CURLE_OUT_OF_MEMORY} \<and>
    posted e' = posted e @ [(h, make_error_code code, error_response code)] \<and>
    transfers e' = transfers e \<and> in_multi e' = in_multi e"
proof -
  have inv: "engine_inv e" using assms(1) by (rule engine_run_inv)
  from start_returns [OF inv assms(2,3)] obtain e' where r: "start ans r h e = Inr e'" by blast
  from inv assms(2) r show ?thesis
  proof (cases rule: start_cases)
    case no_handle
    with r show ?thesis by (auto simp: fail_def)
  next
    case (added a t e1)
    with assms(4) show ?thesis by (auto simp: starting_def acquire_def split: list.splits)
  next
    case (refused a t e1 h' e2 e3)
    with r refused_start [OF refused(1,3,4)] show ?thesis by (auto simp: fail_def)
  qed
qed

theorem failed_start_completes_witness:
  "\<exists>e' code. start ((sample_answers 7 70)\<lparr>add_handle := CURLM_OUT_OF_MEMORY\<rparr>) (async_get ''u'')
     (sample_handler 1) (sample_run []) = Inr e' \<and> transfers e' = []"
proof -
  have "engine_run [] (new_engine 0x080000 1) = Inr (sample_run [])"
    "start_contract ((sample_answers 7 70)\<lparr>add_handle := CURLM_OUT_OF_MEMORY\<rparr>) (sample_run [])"
    "transfers (sample_run []) = []"
    by (simp_all add: engine_eval)
  moreover have "hook_ok (hook_opts (async_get ''u''))" by (simp add: engine_eval)
  ultimately show ?thesis
    using failed_start_completes [of "[]" "0x080000" 1 "sample_run []"
      "(sample_answers 7 70)\<lparr>add_handle := CURLM_OUT_OF_MEMORY\<rparr>" "async_get ''u''" "sample_handler 1"]
    by (fastforce simp: sample_answers_def)
qed

section \<open>One transfer among others\<close>

text \<open>
  C11: A request is answered with its own response. After a start on handle \<open>c\<close>, whatever
  happens to other transfers before \<open>c\<close> is reported done (other starts, completions,
  cancellations, bytes in any interleaving), the handler is called with the reported code and
  status and exactly the bytes received on \<open>c\<close>, in order.
\<close>

theorem response_is_own:
  assumes "engine_run before (new_engine version max_pooled) = Inr e0"
    and "engine_do (Start ans r h) e0 = Inr e1" "in_multi e1 = c # in_multi e0"
    and "r_curl_setup r = None" "list_all (spares c h) ops"
    and "engine_run ops e1 = Inr e2" "engine_do (Deliver m) e2 = Inr e3"
    and "msg_done m" "easy_handle m = c"
  shows "invoked e3 = invoked e2 @
    [(h, if msg_result m = CURLE_OK then No_error else make_error_code (msg_result m),
      \<lparr>curl_code = msg_result m, http_code = response_code m,
       data = concat (map (body_of c) ops), header_data = concat (map (header_of c) ops)\<rparr>)]"
proof -
  obtain a t where t: "own_callbacks e1 a t" "handler t = Some h"
      "buffer t = []" "header_buffer t = []" "eh t = c" and inv1: "engine_inv e1" "slots_ok e1"
    by (rule plain_start [OF assms(1-4)])
  from spared_run [OF assms(6) inv1 t(1,2)] assms(5) t(5)
  have own: "own_callbacks e2 a (received t ops)" and inv2: "engine_inv e2" by auto
  from assms(7,8) have c: "easy_handle m \<in> set (in_multi e2)" "complete_transfer m e2 = Inr e3"
    by (simp_all add: expect_Inr message_contract_def completion_step_def)
  from inv2 c show ?thesis
  proof (cases rule: complete_transfer_effect)
    case (1 b u k)
    have "nodes_ok e2" using inv2 by (simp add: engine_inv_def engine_inv_but_def)
    from eh_inj [OF this 1(2), of a "received t ops"] own 1(3) t(5) assms(9)
    have "u = received t ops" using 1(2) by (simp add: own_callbacks_def)
    then show ?thesis using 1 t by (simp add: received_def)
  qed
qed

definition second_get :: engine_op where
  "second_get = Start (sample_answers 8 80) (async_get ''v'') (sample_handler 2)"

definition interleaved :: "engine_op list" where
  "interleaved = [second_get, Body_bytes 7 ''x'', Body_bytes 8 ''q'', Header_bytes 7 ''H'',
     Emit 2, Body_bytes 7 ''y'']"

theorem response_is_own_witness:
  "\<exists>e2 e3. engine_run (one_get @ interleaved) (new_engine 0x080000 1) = Inr e2 \<and>
     engine_do (Deliver (sample_message 7 CURLE_OK 200)) e2 = Inr e3 \<and>
     invoked e3 = invoked e2 @ [(sample_handler 1, No_error,
       \<lparr>curl_code = CURLE_OK, http_code = 200, data = ''xy'', header_data = ''H''\<rparr>)]"
proof -
  let ?e1 = "sample_run one_get" and ?e2 = "projr (engine_run interleaved (sample_run one_get))"
  let ?m = "sample_message 7 CURLE_OK 200"
  have 1: "engine_run [] (new_engine 0x080000 1) = Inr (new_engine 0x080000 1)"
    "engine_do (Start (sample_answers 7 70) (async_get ''u'') (sample_handler 1)) (new_engine 0x080000 1)
      = Inr ?e1"
    "in_multi ?e1 = 7 # in_multi (new_engine 0x080000 1)"
    "r_curl_setup (async_get ''u'') = None" "list_all (spares 7 (sample_handler 1)) interleaved"
    by (simp_all add: engine_eval second_get_def interleaved_def)
  have 2: "engine_run interleaved ?e1 = Inr ?e2"
    "engine_do (Deliver ?m) ?e2 = Inr (projr (engine_do (Deliver ?m) ?e2))"
    by (simp_all add: engine_eval second_get_def interleaved_def)
  have 3: "msg_done ?m" "easy_handle ?m = 7" "msg_result ?m = CURLE_OK" "response_code ?m = 200"
    by (simp_all add: sample_message_def)
  have "engine_run (one_get @ interleaved) (new_engine 0x080000 1) = Inr ?e2"
    using 1(2) 2(1) by (simp add: one_get_def)
  then show ?thesis
    using response_is_own [OF 1 2 3(1,2)] 2(2) 3
    by (auto simp: interleaved_def second_get_def)
qed

text \<open>
  C12: Cancellation reaches its transfer. Emitting on the slot of a started request, at any
  later time before its completion is reported (and before the slot is bound to another
  request), aborts it: its handler is posted, not called, with \<open>operation_aborted\<close>, and it is no
  longer in flight.
\<close>

theorem cancel_reaches_transfer:
  assumes "engine_run before (new_engine version max_pooled) = Inr e0"
    and "engine_do (Start ans r h) e0 = Inr e1" "in_multi e1 = c # in_multi e0"
    and "r_curl_setup r = None" "cancel_slot h = Some s"
    and "list_all (spares c h) ops" "list_all (\<lambda>op. \<not> rebinds s op) ops"
    and "engine_run ops e1 = Inr e2"
  shows "\<exists>e3. engine_do (Emit s) e2 = Inr e3 \<and> invoked e3 = invoked e2 \<and>
    posted e3 = posted e2 @ [(h, Operation_aborted, error_response CURLE_ABORTED_BY_CALLBACK)] \<and>
    waiting e2 = add_mset h (waiting e3)"
proof -
  obtain a t where t: "own_callbacks e1 a t" "handler t = Some h" "eh t = c"
      "slots e1 s = Some (tid t)"
    and inv1: "engine_inv e1" and sl: "slots_ok e1"
    using assms(5) by (blast intro: plain_start [OF assms(1-4)])
  from spared_run [OF assms(8) inv1 sl t(1,2)] assms(6) t(3)
  have own: "own_callbacks e2 a (received t ops)" and inv2: "engine_inv e2" by auto
  have "slots e2 s = Some (tid (received t ops))"
    using slots_run [OF assms(8) inv1 assms(7)] t(4) by simp
  from emit_own [OF inv2 own _ this, of h] t(2) show ?thesis by auto
qed

theorem cancel_reaches_transfer_witness:
  "\<exists>e3. engine_do (Emit 1) (sample_run one_get) = Inr e3 \<and>
     posted e3 = [(sample_handler 1, Operation_aborted, error_response CURLE_ABORTED_BY_CALLBACK)]"
proof -
  let ?e1 = "sample_run one_get"
  have 1: "engine_run [] (new_engine 0x080000 1) = Inr (new_engine 0x080000 1)"
    "engine_do (Start (sample_answers 7 70) (async_get ''u'') (sample_handler 1)) (new_engine 0x080000 1)
      = Inr ?e1"
    "in_multi ?e1 = 7 # in_multi (new_engine 0x080000 1)"
    "r_curl_setup (async_get ''u'') = None" "cancel_slot (sample_handler 1) = Some 1"
    by (simp_all add: engine_eval)
  have 2: "engine_run [] ?e1 = Inr ?e1" "posted ?e1 = []" by (simp_all add: engine_eval)
  show ?thesis using cancel_reaches_transfer [OF 1 _ _ 2(1)] 2(2) by auto
qed

text \<open>
  C13: A cancellation that comes too late is harmless. Emitting on any slot at any time either
  changes nothing or aborts one in-flight transfer whose own handler is bound to that slot.
\<close>

theorem emit_only_own_transfer:
  assumes "engine_run ops (new_engine version max_pooled) = Inr e"
  shows "\<exists>e'. engine_do (Emit s) e = Inr e' \<and>
    (e' = e \<or> (\<exists>h. cancel_slot h = Some s \<and> waiting e = add_mset h (waiting e') \<and>
      invoked e' = invoked e \<and>
      posted e' = posted e @ [(h, Operation_aborted, error_response CURLE_ABORTED_BY_CALLBACK)]))"
proof -
  have inv: "engine_inv e" using assms by (rule engine_run_inv)
  from emit_returns [OF inv, of s] obtain e' where e': "emit s e = Inr e'" by blast
  show ?thesis
  proof (cases "slots e s")
    case None
    then show ?thesis by (simp add: emit_def)
  next
    case (Some i)
    with e' have r: "cancel i e = Inr e'" by (simp add: emit_def)
    from inv r show ?thesis
    proof (cases rule: cancel_effect)
      case 1
      with e' show ?thesis by simp
    next
      case (2 a t h)
      then have "\<exists>h. handler t = Some h \<and> cancel_slot h = Some s"
        using reachable_slots_ok [OF assms] Some unfolding slots_ok_def by blast
      with 2 e' show ?thesis by auto
    qed
  qed
qed

theorem emit_only_own_transfer_witness:
  "\<exists>e'. engine_do (Emit 1) (sample_run post_then_done) = Inr e' \<and> posted e' = []"
proof -
  have "posted (sample_run post_then_done) = []" "waiting (sample_run post_then_done) = {#}"
    by (simp_all add: engine_eval waiting_def)
  with emit_only_own_transfer [OF sample_runs(2), of 1] show ?thesis by auto
qed

section \<open>What goes on the wire\<close>

text \<open>
  C19: Requests do not depend on the past, with one exception. Two clients with any histories, one
  of which may draw a recycled handle and the other a fresh one, leave the same value of an option
  on the handle for the same request, with or without a hook, if the hook sets the option, or if it
  is none of the pointers into the node and not \<open>POSTFIELDSIZE\<close> on a GET, which keeps the value of
  an earlier request (\<open>HTTPGET\<close> and \<open>POST\<close> count by the kind of request they choose). The
  kind of request and the method on the wire are the same too; without a hook the method is the one
  the request names.
\<close>

theorem request_independent_of_history:
  assumes "engine_run ops (new_engine version m1) = Inr e" "engine_run ops' (new_engine version m2) = Inr f"
    and "engine_do (Start ans r h) e = Inr e'" "in_multi e' = c # in_multi e"
    and "engine_do (Start ans' r h') f = Inr f'" "in_multi f' = d # in_multi f"
    and "slist_append ans = slist_append ans'"
    and "opt \<in> fst ` set (hook_opts r) \<or>
      opt \<notin> pointer_options \<union> {CURLOPT_HTTPGET, CURLOPT_POST} \<and> (r_method r = GET \<longrightarrow> opt \<noteq> CURLOPT_POSTFIELDSIZE)"
  shows "last_set (opts e' c) opt = last_set (opts f' d) opt \<and>
    request_kind (opts e' c) = request_kind (opts f' d) \<and>
    wire_verb (opts e' c) = wire_verb (opts f' d) \<and>
    (r_curl_setup r = None \<longrightarrow> wire_verb (opts e' c) = verb_name (r_method r))"
proof -
  obtain l1 a1 where 1: "opts e' c = l1 @ start_opts a1 r (build_slist (slist_append ans) r) @ hook_opts r"
    "plain_log version l1" by (rule any_start [OF assms(1,3,4)]) simp
  obtain l2 a2 where 2: "opts f' d = l2 @ start_opts a2 r (build_slist (slist_append ans) r) @ hook_opts r"
    "plain_log version l2" by (rule any_start [OF assms(2,5,6)]) (simp add: assms(7))
  have same: "last_set (opts e' c) o' = last_set (opts f' d) o'" if "o' \<in> fst ` set (hook_opts r) \<or>
      o' \<notin> pointer_options \<union> {CURLOPT_HTTPGET, CURLOPT_POST} \<and> (r_method r = GET \<longrightarrow> o' \<noteq> CURLOPT_POSTFIELDSIZE)" for o'
    unfolding 1(1) 2(1) by (simp only: any_start_last_set [OF 1(2) that] any_start_last_set [OF 2(2) that])
  have kind: "request_kind (opts e' c) = request_kind (opts f' d)" by (simp add: 1(1) 2(1) any_start_kind)
  have verb: "last_set (opts e' c) CURLOPT_CUSTOMREQUEST = last_set (opts f' d) CURLOPT_CUSTOMREQUEST"
    by (rule same) (simp add: pointer_options_def)
  have "wire_verb (opts e' c) = wire_verb (opts f' d)" unfolding wire_verb_def kind verb ..
  moreover have "wire_verb (opts e' c) = verb_name (r_method r)" if "r_curl_setup r = None"
    using that by (simp add: 1(1) hook_opts_def plain_start_verb)
  ultimately show ?thesis using same [OF assms(8)] kind by blast
qed

theorem request_independent_of_history_witness:
  "\<exists>e'. engine_do (Start (sample_answers 9 90) (async_get ''v'') (sample_handler 2))
       (sample_run post_then_done) = Inr e' \<and>
     wire_verb (opts e' 7) = ''GET'' \<and>
     last_set (opts e' 7) CURLOPT_CUSTOMREQUEST = last_set (opts (sample_run one_get) 7) CURLOPT_CUSTOMREQUEST"
proof -
  let ?n = "new_engine 0x080000 1" and ?g = "sample_run post_then_done"
  let ?op = "Start (sample_answers 9 90) (async_get ''v'') (sample_handler 2)"
  have 1: "engine_run [] ?n = Inr ?n"
    "engine_do ?op ?g = Inr (projr (engine_do ?op ?g))"
    "in_multi (projr (engine_do ?op ?g)) = 7 # in_multi ?g"
    "engine_do (Start (sample_answers 7 70) (async_get ''v'') (sample_handler 1)) ?n
      = Inr (projr (engine_do (Start (sample_answers 7 70) (async_get ''v'') (sample_handler 1)) ?n))"
    "in_multi (projr (engine_do (Start (sample_answers 7 70) (async_get ''v'') (sample_handler 1)) ?n))
      = 7 # in_multi ?n"
    by (simp_all add: engine_eval)
  have 2: "slist_append (sample_answers 9 90) = slist_append (sample_answers 7 70)"
    "CURLOPT_CUSTOMREQUEST \<in> fst ` set (hook_opts (async_get ''v'')) \<or>
      CURLOPT_CUSTOMREQUEST \<notin> pointer_options \<union> {CURLOPT_HTTPGET, CURLOPT_POST} \<and>
      (r_method (async_get ''v'') = GET \<longrightarrow> CURLOPT_CUSTOMREQUEST \<noteq> CURLOPT_POSTFIELDSIZE)"
    "r_curl_setup (async_get ''v'') = None" "r_method (async_get ''v'') = GET"
    by (simp_all add: engine_eval pointer_options_def)
  have 3: "last_set (opts (projr (engine_do (Start (sample_answers 7 70) (async_get ''v'')
      (sample_handler 1)) ?n)) 7) CURLOPT_CUSTOMREQUEST
    = last_set (opts (sample_run one_get) 7) CURLOPT_CUSTOMREQUEST"
    by (simp add: engine_eval)
  from request_independent_of_history [OF sample_runs(2) 1(1,2,3,4,5) 2(1,2)] 1(2) 2(3,4) 3
  show ?thesis by auto
qed

end
