(* ===== verification/Request_Props.thy ===== *)
theory Request_Props
  imports Transfers_Props
begin

text \<open>
  Properties of what \<open>start\<close> sets up for a request, of the builder, and of three places where
  the client does not do what its documentation says: the size of a previous body that stays on
  a recycled handle, \<open>pending_requests()\<close>, and a hook that overrides \<open>CURLOPT_PRIVATE\<close>.
\<close>

section \<open>Setting up a request\<close>

lemma start_opts_values:
  "last_set (log @ start_opts a r chunk) CURLOPT_URL = Some (Str (c_str (r_url r)))"
  "last_set (log @ start_opts a r chunk) CURLOPT_PRIVATE = Some (Transfer_ptr a)"
  "last_set (log @ start_opts a r chunk) CURLOPT_TIMEOUT_MS = Some (Long (r_timeout r))"
  "last_set (log @ start_opts a r chunk) CURLOPT_FOLLOWLOCATION =
     Some (Long (if r_max_redirects r \<noteq> 0 then 1 else 0))"
  "last_set (log @ start_opts a r chunk) CURLOPT_MAXREDIRS = Some (Long (r_max_redirects r))"
  "last_set (log @ start_opts a r chunk) CURLOPT_HTTPHEADER =
     Some (if chunk = [] then Null else Slist chunk)"
  "r_method r = GET \<Longrightarrow> last_set (log @ start_opts a r chunk) CURLOPT_POSTFIELDS = Some Null"
  "r_method r \<noteq> GET \<Longrightarrow> last_set (log @ start_opts a r chunk) CURLOPT_POSTFIELDS = Some (Body_ptr a)"
  "r_method r \<noteq> GET \<Longrightarrow> last_set (log @ start_opts a r chunk) CURLOPT_POSTFIELDSIZE =
     Some (Long (int (length (r_body r))))"
  "last_set (log @ start_opts a r chunk) CURLOPT_WRITEDATA = Some (Transfer_ptr a)"
  "last_set (log @ start_opts a r chunk) CURLOPT_HEADERDATA = Some (Header_buffer_ptr a)"
  by (cases "r_method r"; simp add: start_opts_def last_set_append last_set_Cons set_body_def)+

lemma build_slist_append: "build_slist (\<lambda>l s. l @ [s]) r = map c_str (r_headers r)"
proof -
  have "foldl (\<lambda>l s. l @ [c_str s]) xs hs = xs @ map c_str hs" for xs hs
    by (induction hs arbitrary: xs) simp_all
  then show ?thesis by (simp add: build_slist_def)
qed

text \<open>A handle is told the value \<open>v\<close> of an option, unless the hook of the request says otherwise.\<close>

definition told :: "request \<Rightarrow> setopt list \<Rightarrow> curl_option \<Rightarrow> opt_value \<Rightarrow> bool" where
  "told r log opt v \<longleftrightarrow> last_set log opt =
     Some (case last_set (hook_opts r) opt of None \<Rightarrow> v | Some w \<Rightarrow> w)"

text \<open>
  C20: A started request reaches its handle whole, recycled or fresh: URL, timeout, whether to follow
  redirects and how many, headers in order, the verb, the body (pointer and size), and the node the
  callbacks write to are those of the request; the body pointer leads to the node that owns the
  copy, and so does \<open>CURLOPT_PRIVATE\<close>. Where the request has a hook that sets one of these options,
  the hook's last value counts.
\<close>

theorem start_sets_up_request:
  assumes "engine_run ops (new_engine version max_pooled) = Inr e"
    and "engine_do (Start ans r h) e = Inr e'" "in_multi e' = c # in_multi e"
    and "slist_append ans = (\<lambda>l s. l @ [s])"
  shows "\<exists>a t. nodes e' a = Some t \<and> a \<in> set (transfers e') \<and> eh t = c \<and> handler t = Some h \<and>
    body t = r_body r \<and> slist t = map c_str (r_headers r) \<and>
    told r (opts e' c) CURLOPT_PRIVATE (Transfer_ptr a) \<and>
    told r (opts e' c) CURLOPT_WRITEDATA (Transfer_ptr a) \<and>
    told r (opts e' c) CURLOPT_HEADERDATA (Header_buffer_ptr a) \<and>
    told r (opts e' c) CURLOPT_URL (Str (c_str (r_url r))) \<and>
    told r (opts e' c) CURLOPT_TIMEOUT_MS (Long (r_timeout r)) \<and>
    told r (opts e' c) CURLOPT_FOLLOWLOCATION (Long (if r_max_redirects r = 0 then 0 else 1)) \<and>
    told r (opts e' c) CURLOPT_MAXREDIRS (Long (r_max_redirects r)) \<and>
    told r (opts e' c) CURLOPT_HTTPHEADER
      (if r_headers r = [] then Null else Slist (map c_str (r_headers r))) \<and>
    told r (opts e' c) CURLOPT_POSTFIELDS (if r_method r = GET then Null else Body_ptr a) \<and>
    (r_method r \<noteq> GET \<longrightarrow> told r (opts e' c) CURLOPT_POSTFIELDSIZE (Long (int (length (body t))))) \<and>
    (r_curl_setup r = None \<longrightarrow> wire_verb (opts e' c) = verb_name (r_method r))"
proof -
  obtain a t log where t: "nodes e' a = Some t" "a \<in> set (transfers e')" "eh t = c" "handler t = Some h"
      "body t = r_body r" "slist t = build_slist (slist_append ans) r"
      "opts e' c = log @ start_opts a r (slist t) @ hook_opts r"
    by (rule any_start [OF assms(1-3)])
  then have s: "slist t = map c_str (r_headers r)" by (simp add: assms(4) build_slist_append)
  have told: "told r (opts e' c) opt v" if "last_set (log @ start_opts a r (slist t)) opt = Some v" for opt v
    using that last_set_append [of "log @ start_opts a r (slist t)" "hook_opts r" opt]
    by (auto simp: told_def t(7) split: option.split)
  have "wire_verb (opts e' c) = verb_name (r_method r)" if "r_curl_setup r = None"
    using that by (simp add: t(7) hook_opts_def plain_start_verb)
  then show ?thesis
    by (intro exI [of _ a] exI [of _ t] conjI told impI) (simp_all add: t(1-5) s start_opts_values)
qed

theorem start_sets_up_request_witness:
  "\<exists>e' a t. engine_do (Start (sample_answers 9 90) (async_post ''v'' ''body!'') (sample_handler 2))
      (sample_run post_then_done) = Inr e' \<and> nodes e' a = Some t \<and> body t = ''body!'' \<and>
    last_set (opts e' 7) CURLOPT_POSTFIELDS = Some (Body_ptr a) \<and>
    last_set (opts e' 7) CURLOPT_POSTFIELDSIZE = Some (Long 5)"
proof -
  let ?g = "sample_run post_then_done" and ?r = "async_post ''v'' ''body!''"
  let ?op = "Start (sample_answers 9 90) ?r (sample_handler 2)"
  have 1: "engine_do ?op ?g = Inr (projr (engine_do ?op ?g))"
    "in_multi (projr (engine_do ?op ?g)) = 7 # in_multi ?g"
    "slist_append (sample_answers 9 90) = (\<lambda>l s. l @ [s])"
    "r_method ?r \<noteq> GET" "r_body ?r = ''body!''" "hook_opts ?r = []"
    by (simp_all add: engine_eval hook_opts_def)
  obtain a t where "nodes (projr (engine_do ?op ?g)) a = Some t" "body t = ''body!''"
    "last_set (opts (projr (engine_do ?op ?g)) 7) CURLOPT_POSTFIELDS = Some (Body_ptr a)"
    "last_set (opts (projr (engine_do ?op ?g)) 7) CURLOPT_POSTFIELDSIZE = Some (Long (int (length (body t))))"
    using start_sets_up_request [OF sample_runs(2) 1(1-3)] 1(4-6) by (auto simp: told_def)
  with 1(1) show ?thesis by (intro exI [of _ "projr (engine_do ?op ?g)"] exI [of _ a] exI [of _ t]) simp
qed

text \<open>
  The fluent builder is the plain API in another order: setters applied through it, in any
  order and with any verb, give the request the setters of \<open>Request\<close> build, so that
  \<open>request(url).body(b).post()\<close> is \<open>async_post(url, b)\<close> and \<open>request(url).get()\<close> is
  \<open>async_get(url)\<close>; the verb counts, not the method the request had.
\<close>

theorem builder_is_request:
  "builder_perform m (builder_curl fn (builder_follow_redirects n (builder_timeout tm
       (builder_body b (builder_headers hs (Builder r)))))) =
     set_headers hs (set_request_body b (set_timeout tm (follow_redirects n (set_curl fn
       (set_method m r))))) \<and>
   builder_perform m (Builder (set_method m' r)) = builder_perform m (Builder r) \<and>
   builder_post (builder_body b (request_builder u)) = async_post u b \<and>
   builder_get (request_builder u) = async_get u"
  by (simp add: request_setters request_entry_points)

section \<open>Divergences\<close>

text \<open>
  The size of an earlier body stays. A GET started on a recycled handle keeps whatever
  \<open>POSTFIELDSIZE\<close> the last request with a body set there, so a hook that turns it into an
  upload by setting \<open>POSTFIELDS\<close> sends that many bytes.
\<close>

theorem get_keeps_stale_body_size:
  assumes "engine_run ops (new_engine version max_pooled) = Inr e"
    and "idle e = a # rest" "nodes e a = Some t"
    and "engine_do (Start ans r h) e = Inr e'" "add_handle ans = CURLM_OK"
    and "r_method r = GET" "CURLOPT_POSTFIELDSIZE \<notin> fst ` set (hook_opts r)"
  shows "last_set (opts e' (eh t)) CURLOPT_POSTFIELDSIZE = last_set (opts e (eh t)) CURLOPT_POSTFIELDSIZE"
proof -
  have inv: "engine_inv e" using assms(1) by (rule engine_run_inv)
  from assms(4) have c: "start_contract ans e" "start ans r h e = Inr e'" by (simp_all add: expect_Inr)
  have no: "last_set (start_opts b r ch @ hook_opts r) CURLOPT_POSTFIELDSIZE = None" for b ch
    using assms(6,7) by (simp add: last_set_None image_Un start_opts_names)
  from inv c show ?thesis
  proof (cases rule: start_cases)
    case (added b u e1)
    with assms(2,3) have "opts e1 = opts e" "b = a" "eh u = eh t"
      by (auto simp: starting_def acquire_def entering_def)
    with added(3) show ?thesis
      by (simp add: prepared_log_def last_set_append [of "opts e (eh t)"] no)
  qed (use assms in simp_all)
qed

definition hooked_get :: request where
  "hooked_get = set_curl (Some [(CURLOPT_POSTFIELDS, Str ''long body'')]) (async_get ''v'')"

theorem get_keeps_stale_body_size_witness:
  "\<exists>e'. engine_do (Start (sample_answers 9 90) hooked_get (sample_handler 2))
       (sample_run post_then_done) = Inr e' \<and>
     last_set (opts e' 7) CURLOPT_POSTFIELDSIZE = Some (Long 3)"
proof -
  let ?g = "sample_run post_then_done"
  let ?op = "Start (sample_answers 9 90) hooked_get (sample_handler 2)"
  have 1: "idle ?g = [70]" "engine_do ?op ?g = Inr (projr (engine_do ?op ?g))"
    "add_handle (sample_answers 9 90) = CURLM_OK" "r_method hooked_get = GET"
    "CURLOPT_POSTFIELDSIZE \<notin> fst ` set (hook_opts hooked_get)"
    "last_set (opts ?g 7) CURLOPT_POSTFIELDSIZE = Some (Long 3)"
    by (simp_all add: engine_eval hooked_get_def)
  have 2: "nodes ?g 70 = Some (retired_node ((new_transfer 7)\<lparr>self := 70\<rparr>))" by (simp add: engine_eval)
  from get_keeps_stale_body_size [OF sample_runs(2) 1(1) 2 1(2-5)] 1(2,6) show ?thesis
    by (auto simp: retired_node_def new_transfer_def)
qed

lemma retire_running: "retire a scrub e = Inr e' \<Longrightarrow> running e' = running e"
  by (auto simp: retire_def curl_easy_cleanup_def and_then_Inr Let_def split: if_splits)

lemma cancel_running:
  "cancel i e = Inr e' \<Longrightarrow> e' = e \<or> running e' = (if running e > 0 then running e - 1 else running e)"
  by (auto simp: cancel_def take_handler_def and_then_Inr Let_def dest!: retire_running
      split: option.splits)

text \<open>
  \<open>pending_requests()\<close> is not the number of transfers in flight. Starting a request does
  not change it, and cancelling that request lowers it, although as many transfers are in
  flight after the two as before.
\<close>

theorem start_cancel_miscounts:
  assumes "engine_run ops (new_engine version max_pooled) = Inr e" "pending_requests e > 0"
    and "engine_do (Start ans r h) e = Inr e1" "in_multi e1 = c # in_multi e"
    and "r_curl_setup r = None" "cancel_slot h = Some s" "engine_do (Emit s) e1 = Inr e2"
  shows "pending_requests e1 = pending_requests e \<and> pending_requests e2 = pending_requests e - 1 \<and>
    size (waiting e2) = size (waiting e)"
proof -
  have inv: "engine_inv e" using assms(1) by (rule engine_run_inv)
  from assms(3) have c: "start_contract ans e" "start ans r h e = Inr e1" by (simp_all add: expect_Inr)
  obtain a t where t: "own_callbacks e1 a t" "handler t = Some h" "slots e1 s = Some (tid t)"
      and inv1: "engine_inv e1"
    using assms(6) by (blast intro: plain_start [OF assms(1,3,4,5)])
  from inv1 t obtain e2' where "emit s e1 = Inr e2'" "waiting e1 = add_mset h (waiting e2')"
    by (rule emit_own)
  with assms(7) have w: "waiting e1 = add_mset h (waiting e2)" by simp
  then have "e2 \<noteq> e1" by auto
  with assms(7) t(3) have r2: "running e2 = (if running e1 > 0 then running e1 - 1 else running e1)"
    by (auto simp: emit_def dest: cancel_running)
  from inv c have "running e1 = running e \<and> waiting e1 = add_mset h (waiting e)"
  proof (cases rule: start_effect)
    case added
    then show ?thesis by simp
  next
    case (failed code)
    from inv c show ?thesis
    proof (cases rule: start_cases)
      case (added b u e0)
      with failed(4) show ?thesis by (simp add: starting_def entering_def)
    next
      case (refused b u e0 h' e3 e4)
      with refused_start [OF refused(1,3,4)] assms(4) show ?thesis by (simp add: fail_def)
    next
      case no_handle
      with assms(4) show ?thesis by (simp add: fail_def)
    qed
  qed
  with r2 w assms(2) show ?thesis by (simp add: pending_requests_def)
qed

theorem start_cancel_miscounts_witness:
  "\<exists>e. engine_run [second_get, Emit 2] (projr (engine_do (Count 1) (sample_run one_get))) = Inr e \<and>
     pending_requests e = 0 \<and> size (waiting e) = 1"
proof -
  let ?op = "Start (sample_answers 8 80) (async_get ''v'') (sample_handler 2)"
  let ?e = "projr (engine_do (Count 1) (sample_run one_get))" and ?e1 = "projr (engine_do ?op
    (projr (engine_do (Count 1) (sample_run one_get))))"
  have 1: "engine_run (one_get @ [Count 1]) (new_engine 0x080000 1) = Inr ?e" "pending_requests ?e = 1"
    "size (waiting ?e) = 1"
    by (simp_all add: engine_eval pending_requests_def waiting_def)
  have 2: "engine_do ?op ?e = Inr ?e1" "in_multi ?e1 = 8 # in_multi ?e"
    "r_curl_setup (async_get ''v'') = None" "cancel_slot (sample_handler 2) = Some 2"
    "engine_do (Emit 2) ?e1 = Inr (projr (engine_do (Emit 2) ?e1))"
    by (simp_all add: engine_eval)
  have "pending_requests (projr (engine_do (Emit 2) ?e1)) = 0 \<and>
      size (waiting (projr (engine_do (Emit 2) ?e1))) = 1"
    using start_cancel_miscounts [OF 1(1) _ 2] 1(2,3) by linarith
  moreover have "engine_run [second_get, Emit 2] ?e = Inr (projr (engine_do (Emit 2) ?e1))"
    unfolding second_get_def run_all.simps by (subst 2(1), simp only: and_then_simps, subst 2(5)) simp
  ultimately show ?thesis by blast
qed

text \<open>
  The escape hatch cannot override every option. A hook that sets \<open>CURLOPT_PRIVATE\<close> makes
  the client follow a wrong pointer when the transfer completes.
\<close>

theorem private_override_is_undefined:
  assumes "engine_run ops (new_engine version max_pooled) = Inr e" "start_contract ans e"
    and "start ans r h e = Inr e'" "in_multi e' = c # in_multi e" "easy_handle m = c"
    and "last_set (hook_opts r) CURLOPT_PRIVATE = Some v" "\<And>a. v \<noteq> Transfer_ptr a"
  shows "complete_transfer m e' = Inl Undefined"
proof -
  have inv: "engine_inv e" using assms(1) by (rule engine_run_inv)
  from inv assms(2,3) show ?thesis
  proof (cases rule: start_cases)
    case (added a t e1)
    then have "in_multi e1 = in_multi e"
      by (auto simp: starting_def acquire_def split: list.splits option.splits)
    with added assms(4) have "c = eh t" by simp
    with added(3) have "last_set (opts e' c) CURLOPT_PRIVATE = Some v"
      using assms(6) by (simp add: prepared_log_def last_set_append)
    with assms(5,7) show ?thesis
      by (simp add: complete_transfer_def private_of_def split: opt_value.split)
  next
    case (refused b u e0 h' e3 e4)
    with refused_start [OF refused(1,3,4)] assms(4) show ?thesis by (simp add: fail_def)
  next
    case no_handle
    with assms(4) show ?thesis by (simp add: fail_def)
  qed
qed

theorem private_override_is_undefined_witness:
  "\<exists>e'. start (sample_answers 7 70) (set_curl (Some [(CURLOPT_PRIVATE, Null)]) (async_get ''u''))
       (sample_handler 1) (sample_run []) = Inr e' \<and>
     complete_transfer (sample_message 7 CURLE_OK 200) e' = Inl Undefined"
proof -
  let ?e = "sample_run []" and ?r = "set_curl (Some [(CURLOPT_PRIVATE, Null)]) (async_get ''u'')"
  let ?e' = "projr (start (sample_answers 7 70) ?r (sample_handler 1) ?e)"
  have 1: "engine_run [] (new_engine 0x080000 1) = Inr ?e" "start_contract (sample_answers 7 70) ?e"
    "start (sample_answers 7 70) ?r (sample_handler 1) ?e = Inr ?e'"
    "in_multi ?e' = 7 # in_multi ?e" "easy_handle (sample_message 7 CURLE_OK 200) = 7"
    "last_set (hook_opts ?r) CURLOPT_PRIVATE = Some Null"
    by (simp_all add: engine_eval)
  from private_override_is_undefined [OF 1] 1(3) show ?thesis by blast
qed

end
