(* ===== verification/Client_Observe.thy ===== *)
theory Client_Observe
  imports Client_Loop
begin

text \<open>
  Facts of the engine that last through events of the client, whatever sockets and timer do: the
  locale \<open>observed\<close> carries a predicate from the engine's operations, and from what users may do,
  over a whole event, and over a run.
\<close>

section \<open>What users do in an event\<close>

definition reaction_ops :: "reaction \<Rightarrow> user_op list" where
  "reaction_ops r = concat (map (\<lambda>it. snd (snd it)) (messages r))"

fun ops_of :: "event \<Rightarrow> user_op list" where
  "ops_of (User op) = [op]"
| "ops_of (Socket_event i r) = reaction_ops r"
| "ops_of (Tick_event i r) = reaction_ops r"
| "ops_of (Kick_event r) = reaction_ops r"
| "ops_of (Posted_event i ops) = ops"
| "ops_of ev = []"

section \<open>Observed facts\<close>

locale observed =
  fixes P :: "client \<Rightarrow> bool" and allowed :: "user_op \<Rightarrow> bool"
  assumes engine_step: "P c \<Longrightarrow> issued_by op = {#} \<Longrightarrow> yields P (on_eng (engine_do op) c)"
    and user_step: "P c \<Longrightarrow> allowed u \<Longrightarrow> yields P (do_user u c)"
    and frame: "P (c\<lparr>socks := s\<rparr>) = P c" "P (c\<lparr>tmr := t\<rparr>) = P c"
begin

lemmas follows = yields_and_then [where Q = P and P = P]

lemma run_step:
  "P c \<Longrightarrow> (\<And>l c. l \<in> set ls \<Longrightarrow> P c \<Longrightarrow> yields P (act l c)) \<Longrightarrow> yields P (run_all act ls c)"
  by (induction ls arbitrary: c) (auto intro!: follows)

lemma part_step: "P c \<Longrightarrow> yields P (on_socks f c)" "P c \<Longrightarrow> yields P (on_tmr g c)"
  by (auto simp: yields_def on_socks_def on_tmr_def and_then_Inr frame)

lemma act_step: "P c \<Longrightarrow> yields P (do_act a c)"
  by (cases a) (simp_all add: engine_step part_step del: engine_do.simps)

lemma users_step: "P c \<Longrightarrow> \<forall>op\<in>set ops. allowed op \<Longrightarrow> yields P (user_ops ops c)"
  by (rule run_step) (auto intro: user_step)

lemma deliver_step: "P c \<Longrightarrow> yields P (on_eng (engine_do (Deliver m)) c)"
  by (rule engine_step) simp_all

lemma iteration_step:
  assumes c: "P c" and ops: "\<forall>op\<in>set (snd (snd it)). allowed op"
  shows "yields P (completion it c)"
proof -
  obtain m acts ops where it: "it = (m, acts, ops)" by (cases it)
  have "yields P (and_then (curl_acts acts d) (user_ops ops))" if "P d" for d
    by (rule follows [OF run_step users_step]) (use that assms in \<open>simp_all add: it act_step\<close>)
  then have "yields P (if \<not> msg_done m then Inr d else and_then (curl_acts acts d) (user_ops ops))"
    if "P d" for d
    using that by simp
  with follows [OF deliver_step [OF c]] show ?thesis by (simp add: completion_def it del: engine_do.simps)
qed

lemma reaction_step:
  assumes c: "P c" and ops: "\<forall>op\<in>set (reaction_ops r). allowed op"
  shows "yields P (act_and_check r c)"
proof -
  have count: "yields P (on_eng (engine_do (Count (running_count r))) d)" if "P d" for d
    using that by (rule engine_step) simp
  have each: "\<forall>op\<in>set (snd (snd it)). allowed op" if "it \<in> set (messages r)" for it
    using ops that by (simp add: reaction_ops_def)
  have "yields P (curl_acts (acts r) c)" by (rule run_step [OF c]) (rule act_step)
  from follows [OF this count] have "yields P (socket_action (acts r) (running_count r) c)"
    by (simp only: socket_action_def)
  moreover have "yields P (check_completions (messages r) d)" if "P d" for d
    using that by (rule run_step) (rule iteration_step [OF _ each])
  ultimately show ?thesis unfolding act_and_check_def by (rule follows)
qed

lemma rearm_step:
  assumes "P c" "\<forall>op\<in>set (reaction_ops r). allowed op"
  shows "yields P (and_then (act_and_check r c) (\<lambda>d. and_then (on_socks (rearm x) d) (on_socks (drop_event x))))"
  by (intro follows reaction_step assms part_step)

lemma timer_step:
  assumes "P c" "\<forall>op\<in>set (reaction_ops r). allowed op"
  shows "yields P (timer_event begin r c)"
  using assms by (auto simp: timer_event_def Let_def frame split: prod.split
      intro!: yields_after reaction_step)

lemma event_step:
  assumes c: "P c" and ops: "\<forall>op\<in>set (ops_of ev). allowed op" and live: "\<not> destroys ev"
  shows "yields P (client_do ev c)"
proof (cases ev)
  case (Socket_event i r)
  then have "yields P (and_then (act_and_check r d) (\<lambda>d. and_then (on_socks (rearm x) d) (on_socks (drop_event x))))"
    if "P d" for d x
    using rearm_step [OF that] ops by simp
  with Socket_event c show ?thesis
    by (auto simp: socket_event_def Let_def frame split: prod.split intro!: yields_after part_step)
next
  case (Posted_event i us)
  have "yields P (on_eng (engine_do (Run_posted i)) c)" using c by (rule engine_step) simp
  moreover have "yields P (user_ops us d)" if "P d" for d
    using that ops Posted_event by (simp add: users_step)
  ultimately have "yields P (and_then (on_eng (engine_do (Run_posted i)) c) (user_ops us))" by (rule follows)
  with Posted_event c show ?thesis by (simp add: posted_event_def del: engine_do.simps)
qed (use assms in \<open>auto intro: user_step timer_step part_step simp: frame\<close>)

lemma events_step:
  "P c \<Longrightarrow> (\<And>ev. ev \<in> set evs \<Longrightarrow> \<not> destroys ev \<and> (\<forall>op\<in>set (ops_of ev). allowed op)) \<Longrightarrow>
     yields P (client_run evs c)"
  by (rule run_step) (auto intro: event_step)

end

section \<open>The log of calls only grows\<close>

definition logging :: "completion list \<Rightarrow> client \<Rightarrow> bool" where
  "logging xs c \<longleftrightarrow> engine_inv (eng c) \<and> (\<exists>ys. invoked (eng c) = xs @ ys)"

lemma engine_do_logs:
  assumes inv: "engine_inv e" and d: "engine_do op e = Inr e'"
  shows "\<exists>ys. invoked e' = invoked e @ ys"
proof (cases op)
  case (Start ans r h)
  with d start_ledger [OF inv, of ans r h e'] show ?thesis by (simp add: expect_Inr)
next
  case (Emit s)
  with d emit_effect [OF inv, of s e'] show ?thesis by simp
next
  case (Deliver m)
  with d have m: "message_contract m e" "completion_step m e = Inr e'" by (simp_all add: expect_Inr)
  show ?thesis
  proof (cases "msg_done m")
    case True
    with m have "easy_handle m \<in> set (in_multi e)" "complete_transfer m e = Inr e'"
      by (simp_all add: message_contract_def completion_step_def)
    with inv show ?thesis by (cases rule: complete_transfer_effect) simp_all
  qed (use m in \<open>simp add: completion_step_def\<close>)
next
  case (Body_bytes h bytes)
  with d bytes_effect [OF inv, of h bytes e'] show ?thesis by (simp add: expect_Inr)
next
  case (Header_bytes h bytes)
  with d bytes_effect [OF inv, of h bytes e'] show ?thesis by (simp add: expect_Inr)
qed (use d in \<open>auto simp: run_posted_def expect_Inr\<close>)

lemma logging_frame [simp]:
  "logging xs (c\<lparr>socks := s\<rparr>) = logging xs c"
  "logging xs (c\<lparr>tmr := t\<rparr>) = logging xs c"
  "logging xs (c\<lparr>started := hs\<rparr>) = logging xs c"
  by (simp_all add: logging_def)

lemmas logs_and_then = yields_and_then [where Q = "logging xs" and P = "logging xs" for xs]

lemmas logs_run = yields_run [where P = "logging xs" for xs]

lemma on_eng_logs:
  assumes c: "logging xs c"
  shows "yields (logging xs) (on_eng (engine_do op) c)"
  unfolding yields_def
proof (intro allI impI)
  fix c' assume "on_eng (engine_do op) c = Inr c'"
  then obtain e where e: "engine_do op (eng c) = Inr e" "c' = c\<lparr>eng := e\<rparr>"
    by (auto simp: on_eng_def and_then_Inr simp del: engine_do.simps)
  from c engine_do_inv [of "eng c" op] e(1) have "engine_inv e" by (simp add: logging_def safely_def)
  moreover from c have "engine_inv (eng c)" by (simp add: logging_def)
  from engine_do_logs [OF this e(1)] c have "\<exists>ys. invoked e = xs @ ys" by (auto simp: logging_def)
  ultimately show "logging xs c'" by (simp add: logging_def e(2))
qed

lemma user_logs:
  assumes c: "logging xs c"
  shows "yields (logging xs) (do_user op c)"
proof -
  have acts: "yields (logging xs) (do_act a d)" if "logging xs d" for a d
    using that on_eng_logs [OF that]
    by (cases a) (auto simp: yields_def on_socks_def on_tmr_def and_then_Inr simp del: engine_do.simps)
  have run: "yields (logging xs) (and_then (on_eng (engine_do eop) d) (curl_acts as))"
    if "logging xs d" for eop d as
    by (intro logs_and_then on_eng_logs logs_run acts that)
  show ?thesis
    using c by (cases op) (auto intro!: yields_expect run simp del: engine_do.simps)
qed

interpretation log: observed "logging xs" "\<lambda>_. True" for xs
  by unfold_locales (simp_all add: on_eng_logs user_logs del: engine_do.simps)

section \<open>Nodes only come from \<open>start\<close>\<close>

text \<open>\<open>D\<close> bounds the nodes, hence the easy handles, that exist.\<close>

definition nodes_within :: "addr set \<Rightarrow> engine \<Rightarrow> bool" where
  "nodes_within D e \<longleftrightarrow> dom (nodes e) \<subseteq> D"

lemma yields_deref: "(\<And>t. m a = Some t \<Longrightarrow> yields P (f t)) \<Longrightarrow> yields P (and_then (deref m a) f)"
  by (cases "m a") (simp_all add: deref_def)

lemma retire_within: "nodes_within D e \<Longrightarrow> yields (nodes_within D) (retire a scrub e)"
  unfolding retire_def curl_easy_cleanup_def by (rule yields_deref) (auto simp: Let_def nodes_within_def)

lemma take_handler_within:
  "nodes_within D e \<Longrightarrow> yields (\<lambda>(h, e'). nodes_within D e') (take_handler a e)"
  unfolding take_handler_def by (rule yields_deref) (auto simp: nodes_within_def split: option.split)

lemma take_retire_within:
  assumes "nodes_within D e" and "\<And>h e. nodes_within D e \<Longrightarrow> yields (nodes_within D) (f h e)"
  shows "yields (nodes_within D) (and_then (take_handler a e) (\<lambda>(h, e). and_then (retire a scrub e) (f h)))"
  by (rule yields_and_then [OF take_handler_within [OF assms(1)]])
    (auto intro: yields_and_then [OF retire_within] assms(2))

lemma complete_within: "nodes_within D e \<Longrightarrow> yields (nodes_within D) (complete_transfer m e)"
  unfolding complete_transfer_def Let_def
  by (rule yields_after, rule yields_deref, rule take_retire_within) (auto simp: nodes_within_def)

lemma cancel_within: "nodes_within D e \<Longrightarrow> yields (nodes_within D) (cancel i e)"
  unfolding cancel_def Let_def
  by (rule yields_after) (auto simp: nodes_within_def split: option.split intro!: yields_deref take_retire_within)

lemma receive_within:
  "nodes_within D e \<Longrightarrow> yields (nodes_within D) (receive_body h bytes e)"
  "nodes_within D e \<Longrightarrow> yields (nodes_within D) (receive_header h bytes e)"
  unfolding receive_body_def receive_header_def body_write_cb_def header_cb_def
  by (auto simp: nodes_within_def yields_def and_then_Inr deref_def split: option.splits opt_value.splits if_splits)

lemma engine_within:
  assumes e: "nodes_within D e" and op: "issued_by op = {#}"
  shows "yields (nodes_within D) (engine_do op e)"
proof -
  have "nodes_within D (run_posted i e)" "nodes_within D (e\<lparr>running := n\<rparr>)" for i n
    using e by (simp_all add: nodes_within_def run_posted_def)
  with e op show ?thesis
    by (cases op) (auto simp: emit_def completion_step_def split: option.split
        intro!: yields_expect complete_within cancel_within receive_within)
qed

lemma start_within:
  assumes "nodes_within D e" "\<And>e1. acquire ans e = Some e1 \<Longrightarrow> nodes_within D e1"
  shows "yields (nodes_within D) (start ans r h e)"
proof (cases "acquire ans e")
  case None
  with assms show ?thesis by (simp add: start_def fail_def nodes_within_def)
next
  case (Some e1)
  have p: "nodes_within D (prepare ans r h a t e1)" if "nodes e1 a = Some t" for a t
    using assms(2) [OF Some] that by (auto simp: nodes_within_def prepare_def Let_def split: option.split)
  show ?thesis
    by (auto simp: start_def Some Let_def split: list.split intro!: yields_deref take_retire_within p)
      (use p in \<open>auto simp: nodes_within_def fail_def\<close>)
qed

text \<open>\<open>quiet_since st D\<close>: nobody has started a request since \<open>st\<close> were started.\<close>

definition quiet_since :: "completion_handler list \<Rightarrow> addr set \<Rightarrow> client \<Rightarrow> bool" where
  "quiet_since st D c \<longleftrightarrow> started c = st \<and> nodes_within D (eng c)"

interpretation pool: observed "quiet_since st D" "\<lambda>_. False" for st D
proof unfold_locales
  fix c op assume "quiet_since st D c" "issued_by op = {#}"
  with engine_within [of D "eng c" op] show "yields (quiet_since st D) (on_eng (engine_do op) c)"
    by (auto simp: quiet_since_def on_eng_def yields_def and_then_Inr)
qed (simp_all add: quiet_since_def)

end
