(* ===== verification/Io_Context.thy ===== *)
theory Io_Context
  imports Client_Props Client_Observe
begin

text \<open>
  \<open>io_context::run\<close> over the model of the client: it processes events while work is outstanding and
  returns when there is none. The property is what every program that ends in \<open>io.run()\<close> rests on:
  the loop does not run dry while a request is unanswered.
\<close>

section \<open>Work\<close>

text \<open>
  What the client has given the loop to wait for or to run: waits on sockets, the wait of the
  timer, posted kicks and posted completions.
\<close>

definition out_of_work :: "client \<Rightarrow> bool" where
  "out_of_work c \<longleftrightarrow> pending_waits (socks c) = [] \<and> queued_waits (socks c) = [] \<and>
     pending_ticks (tmr c) = 0 \<and> queued_ticks (tmr c) = [] \<and> posted_kicks (tmr c) = 0 \<and>
     posted (eng c) = []"

text \<open>
  The contract of libcurl's event interface: while a handle is in the multi, libcurl wants a call
  at some deadline, or an event on a descriptor it was able to have watched.
\<close>

definition multi_waits :: "client \<Rightarrow> bool" where
  "multi_waits c \<longleftrightarrow> (in_multi (eng c) \<noteq> [] \<longrightarrow> wanted (tmr c) \<noteq> None \<or>
     list_ex (\<lambda>(fd, x). user_ptr (socks c) fd = Some x \<and>
       (case interest (socks c) fd of None \<Rightarrow> False
        | Some w \<Rightarrow> wants w CURL_POLL_IN \<or> wants w CURL_POLL_OUT)) (table (socks c)))"

lemma idle_waiting:
  assumes c: "idle_client e0 c" and e: "(fd, x) \<in> set (table (socks c))"
    and i: "user_ptr (socks c) fd = Some x" "interest (socks c) fd = Some w"
    and w: "wants w CURL_POLL_IN \<or> wants w CURL_POLL_OUT"
  shows "outstanding (socks c) \<noteq> []"
proof -
  from c have inv: "table_ok (socks c)" "waits_ok (socks c)" "sock_live {} (socks c)"
    by (simp_all add: idle_client_def sock_inv_def sock_safe_def)
  from table_object [OF inv(1) e] obtain st where st: "objects (socks c) x = Some st" .
  with inv(3) e i have "interest (socks c) fd = Some (watch st)" "armed_ok st"
    unfolding sock_live_def by fastforce+
  with w i have "read_armed st \<or> write_armed st" by (auto simp: armed_ok_def)
  moreover have "object_waits (socks c) x st" using inv(2) st unfolding waits_ok_def by blast
  ultimately show ?thesis by (auto simp: object_waits_def split: if_splits)
qed

lemma in_multi_work:
  assumes c: "idle_client e0 c" and w: "multi_waits c" "out_of_work c"
  shows "transfers (eng c) = []"
proof -
  from w(2) have none: "outstanding (socks c) = []" "wanted (tmr c) = None"
    using c by (auto simp: out_of_work_def outstanding_def idle_client_def timer_inv_def covered_def)
  have "in_multi (eng c) = []"
  proof (rule ccontr)
    assume "in_multi (eng c) \<noteq> []"
    with w(1) none(2) obtain fd x where "(fd, x) \<in> set (table (socks c))" "user_ptr (socks c) fd = Some x"
      "case interest (socks c) fd of None \<Rightarrow> False
        | Some w \<Rightarrow> wants w CURL_POLL_IN \<or> wants w CURL_POLL_OUT"
      by (auto simp: multi_waits_def list_ex_iff)
    with idle_waiting [OF c] none(1) show False by (auto split: option.splits)
  qed
  moreover have "set (in_multi (eng c)) = eh_at (eng c) ` set (transfers (eng c))"
    using busy_engine_inv [OF idle_busy [OF c]] by (simp add: engine_inv_def engine_inv_but_def)
  ultimately show ?thesis by simp
qed

section \<open>The loop\<close>

text \<open>
  The events of a run: nothing but the loop acts on the client, as its thread is inside \<open>run\<close>. A
  list of events that stops early, or goes on after the end, is not a run.
\<close>

fun loop_event :: "event \<Rightarrow> bool" where
  "loop_event (User op) = False"
| "loop_event (Destroy removal cleanup) = False"
| "loop_event ev = True"

definition io_step :: "event \<Rightarrow> client \<Rightarrow> client outcome" where
  "io_step ev c = expect (loop_event ev \<and> \<not> out_of_work c) (client_do ev c)"

definition io_run :: "event list \<Rightarrow> client \<Rightarrow> client outcome" where
  "io_run evs c = and_then (run_all io_step evs c) (\<lambda>c. expect (out_of_work c \<and> multi_waits c) (Inr c))"

lemma loop_event_live: "loop_event ev \<Longrightarrow> \<not> destroys ev"
  by (cases ev) simp_all

lemma io_steps_client: "run_all io_step evs c = Inr c' \<Longrightarrow>
    client_run evs c = Inr c' \<and> (\<forall>ev\<in>set evs. loop_event ev)"
  by (induction evs arbitrary: c) (auto simp: and_then_Inr io_step_def expect_Inr)

lemma io_run_client: "io_run evs c = Inr c' \<Longrightarrow>
    client_run evs c = Inr c' \<and> (\<forall>ev\<in>set evs. loop_event ev) \<and> out_of_work c' \<and> multi_waits c'"
  by (auto simp: io_run_def and_then_Inr expect_Inr io_steps_client)

lemma io_run_idle:
  assumes "idle_client e0 c" "io_run evs c = Inr c'"
  shows "idle_client e0 c' \<and> transfers (eng c') = [] \<and> posted (eng c') = []"
proof -
  note r = io_run_client [OF assms(2)]
  then have "idle_client e0 c'"
    using live_run [OF assms(1), of evs] loop_event_live by (auto simp: safely_def)
  with r in_multi_work show ?thesis by (auto simp: out_of_work_def)
qed

section \<open>Property\<close>

text \<open>
  C4: \<open>io.run()\<close> returns only when every request has been answered: whatever was started before
  the loop ran, or by handlers while it ran, each handler has been called exactly once, nothing is
  in flight, and the pool is the only thing left holding handles.
\<close>

theorem run_answers_all:
  assumes "client_run evs (new_client version max_pooled now) = Inr c" "alive (tmr c)"
    and "io_run loop c = Inr c'"
  shows "called_handlers (eng c') = mset (started c') \<and> transfers (eng c') = [] \<and> in_multi (eng c') = [] \<and>
    length (open_handles (eng c')) = length (idle (eng c'))"
proof -
  have "idle_client (new_engine version max_pooled) c"
    by (rule alive_idle [OF reachable_client [OF assms(1)] assms(2)])
  from io_run_idle [OF this assms(3)] have c': "idle_client (new_engine version max_pooled) c'"
    "transfers (eng c') = []" "posted (eng c') = []" by simp_all
  have "client_run (evs @ loop) (new_client version max_pooled now) = Inr c'"
    using assms(1) io_run_client [OF assms(3)] by (simp add: run_all_append)
  from client_ledger [OF this] c' have called: "called_handlers (eng c') = mset (started c')"
    by (simp add: idle_client_def held_handlers_def waiting_def)
  have inv: "engine_inv_but {} (eng c')" and n: "nodes_ok (eng c')"
    using busy_engine_inv [OF idle_busy [OF c'(1)]] by (simp_all add: engine_inv_def engine_inv_but_def)
  have "length (open_handles (eng c')) = card (eh_at (eng c') ` set (idle (eng c')))"
    using distinct_card [OF nodes_okD(5) [OF n]] nodes_okD(2,3) [OF n] c'(2) by simp
  also have "\<dots> = length (idle (eng c'))"
    using nodes_okD(1,3,4) [OF n] c'(2) by (simp add: card_image distinct_card)
  finally have "length (open_handles (eng c')) = length (idle (eng c'))" .
  moreover have "in_multi (eng c') = []" using inv c'(2) by (simp add: engine_inv_but_def)
  ultimately show ?thesis using called c'(2) by simp
qed

text \<open>The session whose last handler starts a second request, and the rest of it.\<close>

definition rest_of_session :: "event list" where
  "rest_of_session = [Kick_event \<lparr>acts = [Header_act 7 ''H'', Timeout_act (-1) 3], running_count = 0,
     messages = [(sample_message 7 CURLE_OK 200, [], [])]\<rparr>,
   Tick_event 0 quiet, Wait_completes 0 True, Socket_event 0 quiet]"

theorem run_answers_all_witness:
  "\<exists>c'. io_run rest_of_session (sample_client sample_session) = Inr c' \<and>
     called_handlers (eng c') = {# sample_handler 1, sample_handler 2 #}"
proof -
  let ?c' = "projr (io_run rest_of_session (sample_client sample_session))"
  have 1: "io_run rest_of_session (sample_client sample_session) = Inr ?c'"
    and 2: "mset (started ?c') = {# sample_handler 1, sample_handler 2 #}"
    by (simp_all add: io_run_def io_step_def out_of_work_def multi_waits_def rest_of_session_def
      begin_tick_def tick_handler_def client_eval)
  from run_answers_all [OF session_runs 1] 1 2 show ?thesis by auto
qed

end
