(* ===== verification/Programs.thy ===== *)
theory Programs
  imports Prelude
begin

text \<open>
  Programs over an asynchronous client: a state, the requests made at first, and what each
  completion does to the state and which requests it makes. \<open>hosts\<close> runs a program on a client:
  what the client calls are the program's completions, and the requests of the client's events are
  those the program makes. The locale \<open>host\<close> is what a client provides, \<open>program_contract\<close> what a
  program keeps; \<open>hosted\<close> puts them together.
\<close>

section \<open>Programs\<close>

text \<open>\<open>'d\<close> are the completions and \<open>'r\<close> the requests of the client, \<open>'p\<close> is the state.\<close>

record ('d, 'r, 'p) program =
  first :: "'p \<times> 'r list"
  react :: "'d \<Rightarrow> 'p \<Rightarrow> 'p \<times> 'r list"

fun react_all :: "('d, 'r, 'p) program \<Rightarrow> 'd list \<Rightarrow> 'p \<Rightarrow> 'p \<times> 'r list" where
  "react_all prog [] p = (p, [])"
| "react_all prog (d # ds) p = (case react prog d p of (p1, rs1) \<Rightarrow>
     case react_all prog ds p1 of (p2, rs2) \<Rightarrow> (p2, rs1 @ rs2))"

text \<open>Where the program is after the completions \<open>ds\<close>, and all it has asked for by then.\<close>

definition outcome_after :: "('d, 'r, 'p) program \<Rightarrow> 'd list \<Rightarrow> 'p \<times> 'r list" where
  "outcome_after prog ds = (case first prog of (p, rs) \<Rightarrow>
     case react_all prog ds p of (p', rs') \<Rightarrow> (p', rs @ rs'))"

lemma react_all_append:
  "react_all prog (ds @ ds') p = (case react_all prog ds p of (p1, rs1) \<Rightarrow>
     case react_all prog ds' p1 of (p2, rs2) \<Rightarrow> (p2, rs1 @ rs2))"
  by (induction ds arbitrary: p) (simp_all split: prod.splits)

lemma outcome_append:
  "outcome_after prog ds = (p, rs) \<Longrightarrow> react_all prog ds' p = (p', rs') \<Longrightarrow>
     outcome_after prog (ds @ ds') = (p', rs @ rs')"
  by (auto simp: outcome_after_def react_all_append split: prod.splits)

section \<open>What a client provides\<close>

inductive hosts :: "('s \<Rightarrow> 'e \<Rightarrow> 's \<Rightarrow> bool) \<Rightarrow> ('s \<Rightarrow> 'd list) \<Rightarrow> ('e \<Rightarrow> 'r list) \<Rightarrow>
    ('d, 'r, 'p) program \<Rightarrow> 's \<Rightarrow> 's \<Rightarrow> 'p \<Rightarrow> bool"
  for step log asks prog s0 where
  hosts_start: "runs step s0 evs s \<Longrightarrow> log s = [] \<Longrightarrow> concat (map asks evs) = snd (first prog) \<Longrightarrow>
     hosts step log asks prog s0 s (fst (first prog))"
| hosts_event: "hosts step log asks prog s0 s p \<Longrightarrow> step s ev t \<Longrightarrow>
     react_all prog (drop (length (log s)) (log t)) p = (p', asks ev) \<Longrightarrow>
     hosts step log asks prog s0 t p'"

lemma runs_snoc: "runs step s ls t \<Longrightarrow> step t l u \<Longrightarrow> runs step s (ls @ [l]) u"
  by (induction rule: runs.induct) (auto intro: runs.intros)

lemma hosts_runs: "hosts step log asks prog s0 s p \<Longrightarrow> \<exists>evs. runs step s0 evs s"
  by (induction rule: hosts.induct) (blast intro: runs_snoc)+

text \<open>
  \<open>held\<close> are the handlers a client holds, \<open>log\<close> its calls in order; \<open>key\<close> is the handler of a
  request and \<open>called_by\<close> that of a call.
\<close>

locale host =
  fixes step :: "'s \<Rightarrow> 'e \<Rightarrow> 's \<Rightarrow> bool"
    and inv :: "'s \<Rightarrow> bool"
    and log :: "'s \<Rightarrow> 'd list"
    and asks :: "'e \<Rightarrow> 'r list"
    and held :: "'s \<Rightarrow> 'h multiset"
    and key :: "'r \<Rightarrow> 'h"
    and called_by :: "'d \<Rightarrow> 'h"
  assumes inv_step: "inv s \<Longrightarrow> step s ev t \<Longrightarrow> inv t"
    and log_step: "inv s \<Longrightarrow> step s ev t \<Longrightarrow> \<exists>ds. log t = log s @ ds"
    and balance_step: "inv s \<Longrightarrow> step s ev t \<Longrightarrow> held t + mset (map called_by (log t)) =
      held s + mset (map called_by (log s)) + mset (map key (asks ev))"
begin

abbreviation fresh :: "'s \<Rightarrow> bool" where
  "fresh s \<equiv> inv s \<and> log s = [] \<and> held s = {#}"

lemma runs_inv: "runs step s evs t \<Longrightarrow> inv s \<Longrightarrow> inv t"
  by (induction rule: runs.induct) (auto intro: inv_step)

lemma runs_balance: "runs step s evs t \<Longrightarrow> inv s \<Longrightarrow> held t + mset (map called_by (log t)) =
    held s + mset (map called_by (log s)) + mset (map key (concat (map asks evs)))"
proof (induction rule: runs.induct)
  case (runs_cons s ev t evs u)
  from runs_cons.hyps(1) runs_cons.prems have "inv t"
    "held t + mset (map called_by (log t)) = held s + mset (map called_by (log s)) + mset (map key (asks ev))"
    by (rule inv_step [rotated], rule balance_step [rotated])
  with runs_cons.IH show ?case by (simp add: ac_simps)
qed simp

lemma hosts_result:
  assumes "hosts step log asks prog s0 s p" "fresh s0"
  shows "inv s \<and> fst (outcome_after prog (log s)) = p \<and>
    held s + mset (map called_by (log s)) = mset (map key (snd (outcome_after prog (log s))))"
  using assms
proof (induction rule: hosts.induct)
  case (hosts_start evs s)
  with runs_inv [OF hosts_start(1)] runs_balance [OF hosts_start(1)] show ?case
    by (simp add: outcome_after_def split: prod.splits)
next
  case (hosts_event s p ev t p')
  note s = hosts_event.IH [OF hosts_event.prems]
  from s log_step [OF _ hosts_event.hyps(2)] obtain ds where ds: "log t = log s @ ds" by blast
  obtain rs where rs: "outcome_after prog (log s) = (p, rs)" using s by (metis prod.collapse)
  have "react_all prog ds p = (p', asks ev)" using hosts_event.hyps(3) ds by simp
  from outcome_append [OF rs this] have "outcome_after prog (log t) = (p', rs @ asks ev)" by (simp add: ds)
  with s rs inv_step [OF _ hosts_event.hyps(2)] balance_step [OF _ hosts_event.hyps(2)] show ?case
    by (simp add: ac_simps)
qed

end

section \<open>What a program keeps\<close>

text \<open>
  \<open>pending\<close> is the number of requests the program believes in flight. A completion that comes
  when it believes there are none leaves it alone; on a client that does its accounts there is no
  such completion.
\<close>

locale program_contract =
  fixes prog :: "('d, 'r, 'p) program"
    and good :: "'p \<Rightarrow> bool"
    and pending :: "'p \<Rightarrow> nat"
  assumes first_good: "good (fst (first prog))" "pending (fst (first prog)) = length (snd (first prog))"
    and react_busy: "good p \<Longrightarrow> 0 < pending p \<Longrightarrow> react prog d p = (p', rs) \<Longrightarrow>
      good p' \<and> pending p' + 1 = pending p + length rs"
    and react_idle: "pending p = 0 \<Longrightarrow> react prog d p = (p, [])"
begin

lemma react_all_idle: "pending p = 0 \<Longrightarrow> react_all prog ds p = (p, [])"
  by (induction ds) (simp_all add: react_idle)

lemma react_all_good:
  "good p \<Longrightarrow> react_all prog ds p = (p', rs) \<Longrightarrow> length ds \<le> pending p + length rs \<Longrightarrow>
     good p' \<and> pending p' + length ds = pending p + length rs"
proof (induction ds arbitrary: p rs)
  case (Cons d ds)
  show ?case
  proof (cases "pending p = 0")
    case True
    with Cons.prems(2,3) react_all_idle [OF True, of "d # ds"] show ?thesis by simp
  next
    case False
    obtain p1 rs1 where 1: "react prog d p = (p1, rs1)" by (cases "react prog d p")
    obtain rs2 where 2: "react_all prog ds p1 = (p', rs2)" "rs = rs1 @ rs2"
      using Cons.prems(2) 1 by (auto split: prod.splits)
    from react_busy [OF Cons.prems(1) _ 1] False have g: "good p1" "pending p1 + 1 = pending p + length rs1" by simp_all
    then have "length ds \<le> pending p1 + length rs2" using Cons.prems(3) 2(2) by simp
    with Cons.IH [OF g(1) 2(1)] g(2) 2(2) show ?thesis by simp
  qed
qed simp

text \<open>
  Induction over the completions of a program whose accounts are in order: each comes while a
  request is pending.
\<close>

lemma accounted_induct [consumes 3, case_names none_left completion]:
  assumes "react_all prog ds p = (p', rs)" "good p" "length ds + pending p' = pending p + length rs"
    and none_left: "\<And>p. good p \<Longrightarrow> R p [] p []"
    and completion: "\<And>p d p1 rs1 ds p' rs2. good p \<Longrightarrow> 0 < pending p \<Longrightarrow> react prog d p = (p1, rs1) \<Longrightarrow>
      good p1 \<Longrightarrow> react_all prog ds p1 = (p', rs2) \<Longrightarrow> good p' \<Longrightarrow> R p1 ds p' rs2 \<Longrightarrow> R p (d # ds) p' (rs1 @ rs2)"
  shows "R p ds p' rs"
  using assms(1-3)
proof (induction ds arbitrary: p rs)
  case Nil
  then show ?case by (simp add: none_left)
next
  case (Cons d ds)
  show ?case
  proof (cases "0 < pending p")
    case False
    with react_all_idle [of p "d # ds"] Cons.prems show ?thesis by simp
  next
    case True
    obtain p1 rs1 rs2 where 1: "react prog d p = (p1, rs1)" "react_all prog ds p1 = (p', rs2)" "rs = rs1 @ rs2"
      using Cons.prems(1) by (auto split: prod.splits)
    from react_busy [OF Cons.prems(2) True 1(1)] Cons.prems(3) 1(3)
    have p1: "good p1" "length ds + pending p' = pending p1 + length rs2" by simp_all
    then have "good p'" using react_all_good [OF p1(1) 1(2)] by simp
    with completion [OF Cons.prems(2) True 1(1) p1(1) 1(2) _ Cons.IH [OF 1(2) p1]] 1(3) show ?thesis by simp
  qed
qed

lemma outcome_good:
  assumes "outcome_after prog ds = (p, rs)" "length ds \<le> length rs"
  shows "good p \<and> pending p + length ds = length rs"
proof -
  obtain rs' where "react_all prog ds (fst (first prog)) = (p, rs')" "rs = snd (first prog) @ rs'"
    using assms(1) by (auto simp: outcome_after_def split: prod.splits)
  with react_all_good [OF first_good(1) this(1)] first_good(2) assms(2) show ?thesis by simp
qed

lemma outcome_accounted:
  assumes "outcome_after prog ds = (p, rs)" "length ds \<le> length rs"
  obtains rs' where "react_all prog ds (fst (first prog)) = (p, rs')" "rs = snd (first prog) @ rs'"
    "length ds + pending p = pending (fst (first prog)) + length rs'"
proof -
  obtain rs' where "react_all prog ds (fst (first prog)) = (p, rs')" "rs = snd (first prog) @ rs'"
    using assms(1) by (auto simp: outcome_after_def split: prod.splits)
  with that outcome_good [OF assms] first_good(2) show thesis by simp
qed

end

section \<open>A program on a client\<close>

locale hosted = host step inv log asks held key called_by + program_contract prog good pending
  for step :: "'s \<Rightarrow> 'e \<Rightarrow> 's \<Rightarrow> bool" and inv and log :: "'s \<Rightarrow> 'd list" and asks :: "'e \<Rightarrow> 'r list"
    and held :: "'s \<Rightarrow> 'h multiset" and key and called_by
    and prog :: "('d, 'r, 'p) program" and good and pending
begin

lemma hosted_good:
  assumes "hosts step log asks prog s0 s p" "fresh s0"
  shows "good p \<and> pending p = size (held s) \<and>
    length (snd (outcome_after prog (log s))) = size (held s) + length (log s)"
proof -
  note r = hosts_result [OF assms]
  then have n: "length (snd (outcome_after prog (log s))) = size (held s) + length (log s)"
    by (metis length_map size_mset size_union)
  obtain rs where rs: "outcome_after prog (log s) = (p, rs)" using r by (metis prod.collapse)
  from outcome_good [OF rs] n rs show ?thesis by simp
qed

end

end
