(* ===== verification/Program_Client.thy ===== *)
theory Program_Client
  imports Io_Context Programs
begin

text \<open>
  Programs on the model of the client: what a program is told are the calls of completion handlers,
  what it asks for are requests with their handlers. The client is a \<open>host\<close>, so that whatever a
  program does, the client answers each of its requests once.
\<close>

section \<open>The client as a host\<close>

fun ask_of :: "user_op \<Rightarrow> (request \<times> completion_handler) option" where
  "ask_of (Start_request ans r h as) = Some (r, h)"
| "ask_of (Emit_cancel s as) = None"

definition asks_of :: "event \<Rightarrow> (request \<times> completion_handler) list" where
  "asks_of ev = List.map_filter ask_of (ops_of ev)"

text \<open>An event in which all that handlers do is carried out.\<close>

definition client_step :: "client \<Rightarrow> event \<Rightarrow> client \<Rightarrow> bool" where
  "client_step c ev c' \<longleftrightarrow> client_do ev c = Inr c' \<and> \<not> destroys ev \<and>
     started c' = started c @ map snd (asks_of ev)"

definition calls_of :: "client \<Rightarrow> completion list" where
  "calls_of c = invoked (eng c)"

definition hosting :: "client \<Rightarrow> bool" where
  "hosting c \<longleftrightarrow> (\<exists>e0. fresh_engine e0 \<and> idle_client e0 c)"

lemma hosting_ledger: "hosting c \<Longrightarrow> held_handlers (eng c) + called_handlers (eng c) = mset (started c)"
  by (auto simp: hosting_def fresh_engine_def idle_client_def intro: engine_reached_ledger)

lemma hosting_step: "hosting c \<Longrightarrow> client_step c ev c' \<Longrightarrow> hosting c'"
  using live_event by (fastforce simp: hosting_def client_step_def safely_def)

lemma hosting_logs:
  assumes "hosting c" "client_step c ev c'"
  shows "\<exists>ds. calls_of c' = calls_of c @ ds"
proof -
  from assms(1) have "logging (invoked (eng c)) c"
    using busy_engine_inv [OF idle_busy] by (auto simp: logging_def hosting_def)
  from log.event_step [OF this, of ev] assms(2) have "logging (invoked (eng c)) c'"
    by (auto simp: client_step_def dest: yieldsD)
  then show ?thesis by (simp add: logging_def calls_of_def)
qed

interpretation on_client: host client_step hosting calls_of asks_of "\<lambda>c. held_handlers (eng c)" snd fst
proof unfold_locales
  fix c ev c' assume c: "hosting c" "client_step c ev c'"
  from c show "hosting c'" by (rule hosting_step)
  from c show "\<exists>ds. calls_of c' = calls_of c @ ds" by (rule hosting_logs)
  have "held_handlers (eng c') + called_handlers (eng c') =
      held_handlers (eng c) + called_handlers (eng c) + mset (map snd (asks_of ev))"
    using hosting_ledger [OF c(1)] hosting_ledger [OF hosting_step [OF c]] c(2) by (simp add: client_step_def)
  then show "held_handlers (eng c') + mset (map fst (calls_of c')) =
      held_handlers (eng c) + mset (map fst (calls_of c)) + mset (map snd (asks_of ev))"
    by (simp add: called_handlers_def calls_of_def)
qed

lemma new_client_hosting: "on_client.fresh (new_client version max_pooled now)"
proof -
  have "idle_client (new_engine version max_pooled) (new_client version max_pooled now)"
    by (rule alive_idle [OF new_client_inv]) (simp add: new_client_def new_timer_def)
  with new_engine_fresh show ?thesis
    by (auto simp: hosting_def calls_of_def new_client_def new_engine_def held_handlers_def waiting_def)
qed

text \<open>When the loop has run out of work, nothing is held any more.\<close>

lemma drained:
  assumes "hosting c" "out_of_work c" "multi_waits c"
  shows "held_handlers (eng c) = {#}"
proof -
  from assms(1) obtain e0 where "idle_client e0 c" by (auto simp: hosting_def)
  from in_multi_work [OF this assms(3,2)] assms(2) show ?thesis
    by (simp add: held_handlers_def waiting_def out_of_work_def)
qed

text \<open>
  The handlers of programs, made by \<open>asio::use_future\<close> or plain lambdas: nothing can cancel them. \<open>n\<close>
  tells those of a program apart.
\<close>

definition plain_handler :: "nat \<Rightarrow> completion_handler" where
  "plain_handler n = \<lparr>hid = n, cancel_slot = None\<rparr>"

lemma plain_handler_eq [simp]: "plain_handler m = plain_handler n \<longleftrightarrow> m = n"
  by (simp add: plain_handler_def)

lemma hid_plain [simp]: "hid (plain_handler n) = n"
  by (simp add: plain_handler_def)

text \<open>A program on a client of its own, from the start to the state \<open>c\<close> of the client and \<open>p\<close> of the program.\<close>

definition runs_on :: "(completion, request \<times> completion_handler, 'p) program \<Rightarrow> client \<Rightarrow> 'p \<Rightarrow> bool" where
  "runs_on prog c p \<longleftrightarrow> (\<exists>version max_pooled now.
     hosts client_step calls_of asks_of prog (new_client version max_pooled now) c p)"

lemma client_steps_run: "runs client_step c evs c' \<Longrightarrow> client_run evs c = Inr c'"
  by (induction rule: runs.induct) (simp_all add: client_step_def)

lemma runs_on_result:
  assumes "runs_on prog c p"
  shows "hosting c \<and> fst (outcome_after prog (calls_of c)) = p \<and>
    held_handlers (eng c) + mset (map fst (calls_of c)) = mset (map snd (snd (outcome_after prog (calls_of c))))"
proof -
  from assms obtain version max_pooled now where
    "hosts client_step calls_of asks_of prog (new_client version max_pooled now) c p" by (auto simp: runs_on_def)
  from on_client.hosts_result [OF this new_client_hosting] show ?thesis by simp
qed

text \<open>
  C5: Whatever a program does with its completions, the client serves it: the program is where
  the calls of its handlers have brought it, the handlers called are those of requests it made,
  each at most once, the others are still held; and when the loop has run out of work every
  request has been answered.
\<close>

theorem programs_served:
  assumes "runs_on prog c p"
  shows "p = fst (outcome_after prog (calls_of c)) \<and>
    mset (map fst (calls_of c)) \<subseteq># mset (map snd (snd (outcome_after prog (calls_of c)))) \<and>
    held_handlers (eng c) = mset (map snd (snd (outcome_after prog (calls_of c)))) - mset (map fst (calls_of c)) \<and>
    (out_of_work c \<and> multi_waits c \<longrightarrow>
       mset (map fst (calls_of c)) = mset (map snd (snd (outcome_after prog (calls_of c)))))"
proof -
  let ?A = "mset (map snd (snd (outcome_after prog (calls_of c))))" and ?C = "mset (map fst (calls_of c))"
  have r: "hosting c" "p = fst (outcome_after prog (calls_of c))" "held_handlers (eng c) + ?C = ?A"
    using runs_on_result [OF assms] by simp_all
  then have "?C \<subseteq># ?A" "held_handlers (eng c) = ?A - ?C" by (metis mset_subset_eq_add_right, metis add_diff_cancel_right')
  moreover have "?C = ?A" if "out_of_work c" "multi_waits c" using drained [OF r(1) that] r(3) by simp
  ultimately show ?thesis using r(2) by blast
qed

text \<open>A program that, when its request has failed, tries another.\<close>

definition retry_program :: "(completion, request \<times> completion_handler, nat) program" where
  "retry_program = \<lparr>first = (0, [(async_get ''u'', sample_handler 1)]),
     react = (\<lambda>(h, ec, res) tries. if ec_set ec then (tries + 1, [(async_get ''v'', sample_handler 2)]) else (tries, []))\<rparr>"

definition failing_kick :: event where
  "failing_kick = Kick_event \<lparr>acts = [], running_count = 0,
     messages = [(sample_message 7 CURLE_OPERATION_TIMEDOUT 0, [],
       [Start_request (sample_answers 8 80) (async_get ''v'') (sample_handler 2) [Timeout_act 0 0]])]\<rparr>"

theorem programs_served_witness:
  "\<exists>c. runs_on retry_program c 1 \<and> held_handlers (eng c) = {# sample_handler 2 #}"
proof -
  let ?c0 = "new_client 0x080000 1 0" and ?c1 = "sample_client [first_request]"
    and ?c2 = "sample_client [first_request, failing_kick]"
  have 1: "runs client_step ?c0 [first_request] ?c1" "calls_of ?c1 = []"
    by (auto intro!: runs.intros simp: client_step_def asks_of_def calls_of_def map_filter_simps client_eval)
  have 2: "client_step ?c1 failing_kick ?c2" "drop (length (calls_of ?c1)) (calls_of ?c2) =
      [(sample_handler 1, make_error_code CURLE_OPERATION_TIMEDOUT, snd (snd (hd (calls_of ?c2))))]"
    "calls_of ?c2 = [(sample_handler 1, make_error_code CURLE_OPERATION_TIMEDOUT, snd (snd (hd (calls_of ?c2))))]"
    by (simp_all add: client_step_def asks_of_def calls_of_def map_filter_simps reaction_ops_def failing_kick_def
        client_eval)
  have asks: "asks_of first_request = [(async_get ''u'', sample_handler 1)]"
    "asks_of failing_kick = [(async_get ''v'', sample_handler 2)]"
    by (simp_all add: asks_of_def map_filter_simps first_request_def failing_kick_def reaction_ops_def)
  have "hosts client_step calls_of asks_of retry_program ?c0 ?c1 0"
    using hosts_start [where log = calls_of, OF 1, of asks_of retry_program] asks by (simp add: retry_program_def)
  from hosts_event [OF this 2(1)] have "hosts client_step calls_of asks_of retry_program ?c0 ?c2 1"
    unfolding 2(2) asks by (simp add: retry_program_def make_error_code_def)
  then have p: "runs_on retry_program ?c2 1" unfolding runs_on_def by blast
  have o: "outcome_after retry_program (calls_of ?c2) = (1, [(async_get ''u'', sample_handler 1), (async_get ''v'', sample_handler 2)])"
    by (subst 2(3)) (simp add: outcome_after_def retry_program_def make_error_code_def)
  have "mset (map fst (calls_of ?c2)) = {# sample_handler 1 #}" by (subst 2(3)) simp
  with programs_served [OF p] o p show ?thesis by auto
qed

section \<open>A sample client\<close>

text \<open>One request, and its answer in the first event.\<close>

definition lone_get :: event where
  "lone_get = User (Start_request (sample_answers 7 70) (async_get ''u/'') (plain_handler 0) [Timeout_act 0 0])"

definition lone_answer :: event where
  "lone_answer = Kick_event \<lparr>acts = [Header_act 7 ''H'', Body_act 7 ''xy''], running_count = 0,
     messages = [(sample_message 7 CURLE_OK 200, [], [])]\<rparr>"

definition lone_client :: client where
  "lone_client = sample_client [lone_get, lone_answer]"

definition lone_completion :: completion where
  "lone_completion = (plain_handler 0, No_error,
     \<lparr>curl_code = CURLE_OK, http_code = 200, data = ''xy'', header_data = ''H''\<rparr>)"

lemma lone_client_state [simp]:
  "calls_of lone_client = [lone_completion]" "out_of_work lone_client" "multi_waits lone_client"
  "held_handlers (eng lone_client) = {#}"
  by (simp_all add: lone_client_def lone_get_def lone_answer_def lone_completion_def calls_of_def out_of_work_def
      multi_waits_def plain_handler_def held_handlers_def waiting_def client_eval)

lemma lone_served:
  assumes "snd (first prog) = [(async_get ''u/'', plain_handler 0)]"
    and "react prog lone_completion (fst (first prog)) = (p', [])"
  shows "runs_on prog lone_client p'"
proof -
  let ?c0 = "new_client 0x080000 1 0" and ?c1 = "sample_client [lone_get]"
  have 1: "runs client_step ?c0 [lone_get] ?c1" "calls_of ?c1 = []"
    by (auto intro!: runs.intros simp: lone_get_def plain_handler_def client_step_def asks_of_def calls_of_def map_filter_simps client_eval)
  have 2: "client_step ?c1 lone_answer lone_client"
    by (simp add: lone_get_def plain_handler_def lone_client_def lone_answer_def client_step_def asks_of_def map_filter_simps
        reaction_ops_def client_eval)
  have asks: "asks_of lone_get = [(async_get ''u/'', plain_handler 0)]" "asks_of lone_answer = []"
    by (simp_all add: asks_of_def map_filter_simps lone_get_def lone_answer_def reaction_ops_def)
  have "hosts client_step calls_of asks_of prog ?c0 ?c1 (fst (first prog))"
    using hosts_start [where log = calls_of, OF 1, of asks_of prog] asks assms(1) by simp
  from hosts_event [OF this 2, of p'] asks assms(2) 1(2)
  have "hosts client_step calls_of asks_of prog ?c0 lone_client p'" by simp
  then show ?thesis unfolding runs_on_def by blast
qed

end
