(* ===== verification/Coroutines.thy ===== *)
theory Coroutines
  imports Programs
begin

text \<open>
  Linear code that waits for one request at a time: C++ coroutines, and loops that block on each
  request. A coroutine is a tree of what it does next; its suspension points take the completion
  they wait for. As a program it keeps what is left of it between two completions.
\<close>

section \<open>Coroutines\<close>

text \<open>
  \<open>'q\<close> are the requests, \<open>'d\<close> the completions, \<open>'x\<close> the exceptions, \<open>'p\<close> the variables that
  outlive the coroutine.
\<close>

datatype ('q, 'd, 'x, 'p) coro =
    Finished
  | Threw 'x
  | Act "'p \<Rightarrow> 'p" "('q, 'd, 'x, 'p) coro"
  | Await 'q "'d \<Rightarrow> ('q, 'd, 'x, 'p) coro"

primrec run_acts :: "('q, 'd, 'x, 'p) coro \<Rightarrow> 'p \<Rightarrow> 'p \<times> ('q, 'd, 'x, 'p) coro" where
  "run_acts Finished p = (p, Finished)"
| "run_acts (Threw x) p = (p, Threw x)"
| "run_acts (Act f co) p = run_acts co (f p)"
| "run_acts (Await q k) p = (p, Await q k)"

fun waits :: "('q, 'd, 'x, 'p) coro \<Rightarrow> bool" where
  "waits (Await q k) = True"
| "waits co = False"

text \<open>The coroutine run to its end on the answers \<open>ds\<close>, with those it did not wait for.\<close>

primrec run_coro :: "('q, 'd, 'x, 'p) coro \<Rightarrow> 'd list \<Rightarrow> 'p \<Rightarrow> 'p \<times> ('q, 'd, 'x, 'p) coro \<times> 'd list" where
  "run_coro Finished ds p = (p, Finished, ds)"
| "run_coro (Threw x) ds p = (p, Threw x, ds)"
| "run_coro (Act f co) ds p = run_coro co ds (f p)"
| "run_coro (Await q k) ds p = (case ds of [] \<Rightarrow> (p, Await q k, []) | d # ds \<Rightarrow> run_coro (k d) ds p)"

lemma run_coro_acts: "run_coro co ds p = (case run_acts co p of (p', co') \<Rightarrow> run_coro co' ds p')"
  by (induction co arbitrary: p) simp_all

fun at_rest :: "('q, 'd, 'x, 'p) coro \<Rightarrow> bool" where
  "at_rest (Act f co) = False"
| "at_rest co = True"

lemma run_acts_at_rest: "run_acts co p = (p', co') \<Longrightarrow> at_rest co'"
  by (induction co arbitrary: p) auto

lemma run_coro_at_rest: "at_rest co \<Longrightarrow> run_coro co [] p = (p, co, [])"
  by (cases co) simp_all

section \<open>As a program\<close>

text \<open>\<open>key n q\<close> is the \<open>n\<close>th request, for \<open>q\<close>, as the client takes it.\<close>

record ('q, 'd, 'x, 'p) coro_state =
  shared :: 'p
  rest :: "('q, 'd, 'x, 'p) coro"
  awaits :: nat

definition resume :: "(nat \<Rightarrow> 'q \<Rightarrow> 'r) \<Rightarrow> ('q, 'd, 'x, 'p) coro \<Rightarrow> 'p \<Rightarrow> nat \<Rightarrow>
    ('q, 'd, 'x, 'p) coro_state \<times> 'r list" where
  "resume key co p n = (case run_acts co p of (p', co') \<Rightarrow>
     (case co' of Await q k \<Rightarrow> (\<lparr>shared = p', rest = co', awaits = n + 1\<rparr>, [key n q])
      | _ \<Rightarrow> (\<lparr>shared = p', rest = co', awaits = n\<rparr>, [])))"

definition coro_program :: "(nat \<Rightarrow> 'q \<Rightarrow> 'r) \<Rightarrow> ('q, 'd, 'x, 'p) coro \<Rightarrow> 'p \<Rightarrow>
    ('d, 'r, ('q, 'd, 'x, 'p) coro_state) program" where
  "coro_program key co p = \<lparr>first = resume key co p 0,
     react = (\<lambda>d s. case rest s of Await q k \<Rightarrow> resume key (k d) (shared s) (awaits s) | _ \<Rightarrow> (s, []))\<rparr>"

definition suspended :: "('q, 'd, 'x, 'p) coro_state \<Rightarrow> nat" where
  "suspended s = (if waits (rest s) then 1 else 0)"

lemma resume_suspended: "resume key co p n = (s, rs) \<Longrightarrow> suspended s = length rs"
  by (auto simp: resume_def suspended_def split: prod.splits coro.splits)

lemma coro_first: "suspended (fst (first (coro_program key co p))) = length (snd (first (coro_program key co p)))"
  by (simp add: coro_program_def) (metis prod.collapse resume_suspended)

lemma coro_react:
  "suspended s = 0 \<Longrightarrow> react (coro_program key co p) d s = (s, [])"
  "0 < suspended s \<Longrightarrow> react (coro_program key co p) d s = (s', rs) \<Longrightarrow> suspended s' + 1 = suspended s + length rs"
  by (auto simp: coro_program_def suspended_def dest: resume_suspended [unfolded suspended_def]
      split: coro.splits if_splits)

interpretation cor: program_contract "coro_program key co p" "\<lambda>_. True" suspended for key co p
  by unfold_locales (use coro_react(2) in \<open>auto simp: coro_first coro_react(1)\<close>)

text \<open>What the program has done is what the coroutine does on the answers it got.\<close>

lemma resume_run:
  "resume key co p n = (s, rs) \<Longrightarrow> run_coro co ds p = run_coro (rest s) ds (shared s) \<and>
     at_rest (rest s) \<and> awaits s = n + length rs"
  by (auto simp: resume_def run_coro_acts [of co] dest: run_acts_at_rest split: prod.splits coro.splits)

lemma react_coro:
  assumes "react_all (coro_program key co0 p0) ds s = (s', rs)" "at_rest (rest s)"
    and "length ds + suspended s' = suspended s + length rs"
  shows "run_coro (rest s) ds (shared s) = (shared s', rest s', []) \<and> awaits s' = awaits s + length rs"
  using assms(1) TrueI assms(3,2)
proof (induction rule: cor.accounted_induct)
  case (completion s d s1 rs1 ds s' rs2)
  then obtain q k where q: "rest s = Await q k" "resume key (k d) (shared s) (awaits s) = (s1, rs1)"
    by (cases "rest s") (auto simp: suspended_def coro_program_def)
  with resume_run [OF q(2)] completion show ?case by simp
qed (simp add: run_coro_at_rest)

lemma outcome_coro:
  assumes "outcome_after (coro_program key co p) ds = (s, rs)" "length ds \<le> length rs"
  shows "run_coro co ds p = (shared s, rest s, []) \<and> suspended s + length ds = length rs \<and> awaits s = length rs"
proof -
  obtain s0 rs0 where 0: "resume key co p 0 = (s0, rs0)" by (cases "resume key co p 0")
  from cor.outcome_accounted [OF assms] 0 obtain rs' where
    1: "react_all (coro_program key co p) ds s0 = (s, rs')" "rs = rs0 @ rs'"
      "length ds + suspended s = suspended s0 + length rs'"
    by (auto simp: coro_program_def)
  from react_coro [OF 1(1) _ 1(3)] resume_run [OF 0] 1(2) cor.outcome_good [OF assms] show ?thesis by simp
qed

end
