(* ===== verification/Bench_Drivers.thy ===== *)
theory Bench_Drivers
  imports Prelude "HOL-Library.Signed_Division"
begin

text \<open>
  The logic of the benchmark drivers (\<open>bench/\<close>): the \<open>refill\<close> loop that keeps a number of
  requests in flight (\<open>bench_cofetch.cpp\<close>, \<open>bench_epoll.cpp\<close>), the split of the work over event
  loops, the chains of dependent requests, and the command line (\<open>bench_util.h\<close>).

  The client is not part of this theory (\<open>Bench_Client\<close> adds it): a completion is a step with a flag that says whether
  \<open>ec || !res.is_ok()\<close> was false. That no completion happens inside the call that starts a
  request is \<open>initiation_never_calls_handlers\<close> for the one client, and the epoll client calls
  back from \<open>poll\<close> only. The argument \<open>total\<close> of the code is \<open>tot\<close> here.
\<close>

section \<open>Keeping requests in flight\<close>

record driver =
  in_flight :: int
  launched :: int
  finished :: int
  failed :: int

definition new_driver :: driver where
  "new_driver = \<lparr>in_flight = 0, launched = 0, finished = 0, failed = 0\<rparr>"

function refill :: "int \<Rightarrow> int \<Rightarrow> driver \<Rightarrow> driver" where
  "refill tot concurrency s =
     (if in_flight s < concurrency \<and> launched s < tot
      then refill tot concurrency (s\<lparr>in_flight := in_flight s + 1, launched := launched s + 1\<rparr>)
      else s)"
  by pat_completeness auto
termination
  by (relation "measure (\<lambda>(tot, concurrency, s). nat (tot - launched s))") auto

declare refill.simps [simp del]

text \<open>The completion handler; it runs for a request that is in flight.\<close>

definition on_done :: "int \<Rightarrow> int \<Rightarrow> bool \<Rightarrow> driver \<Rightarrow> driver outcome" where
  "on_done tot concurrency ok s = expect (in_flight s > 0)
     (Inr (refill tot concurrency (s\<lparr>in_flight := in_flight s - 1, finished := finished s + 1,
        failed := (if ok then failed s else failed s + 1)\<rparr>)))"

definition run_throughput :: "int \<Rightarrow> int \<Rightarrow> bool list \<Rightarrow> driver outcome" where
  "run_throughput tot concurrency oks =
     run_all (on_done tot concurrency) oks (refill tot concurrency new_driver)"

text \<open>What the loop establishes, and what completions keep.\<close>

definition driving :: "int \<Rightarrow> int \<Rightarrow> driver \<Rightarrow> bool" where
  "driving tot concurrency s \<longleftrightarrow> 0 \<le> in_flight s \<and> launched s = in_flight s + finished s \<and>
     launched s \<le> max 0 tot \<and> in_flight s \<le> max 0 concurrency"

lemma refill_driving: "driving tot concurrency s \<Longrightarrow> driving tot concurrency (refill tot concurrency s)"
proof (induction tot concurrency s rule: refill.induct)
  case (1 tot concurrency s)
  show ?case
  proof (cases "in_flight s < concurrency \<and> launched s < tot")
    case True
    then have "driving tot concurrency (s\<lparr>in_flight := in_flight s + 1, launched := launched s + 1\<rparr>)"
      using "1.prems" by (auto simp: driving_def)
    with "1.IH" [OF True] True show ?thesis by (subst refill.simps) simp
  next
    case False
    with "1.prems" show ?thesis by (subst refill.simps) auto
  qed
qed

lemma new_driving [simp]: "driving tot concurrency new_driver"
  by (simp add: driving_def new_driver_def)

lemma refill_frame [simp]:
  "finished (refill tot concurrency s) = finished s \<and> failed (refill tot concurrency s) = failed s"
proof (induction tot concurrency s rule: refill.induct)
  case (1 tot concurrency s)
  then show ?case by (subst (1 2) refill.simps) auto
qed

lemma refill_full:
  "in_flight (refill tot concurrency s) \<ge> concurrency \<or> launched (refill tot concurrency s) \<ge> tot"
proof (induction tot concurrency s rule: refill.induct)
  case (1 tot concurrency s)
  then show ?case by (subst (1 2) refill.simps) auto
qed

definition driver_inv :: "int \<Rightarrow> int \<Rightarrow> driver \<Rightarrow> bool" where
  "driver_inv tot concurrency s \<longleftrightarrow> driving tot concurrency s \<and>
     (in_flight s \<ge> concurrency \<or> launched s \<ge> tot)"

lemma on_done_inv: "driver_inv tot concurrency s \<Longrightarrow> safely (driver_inv tot concurrency) (on_done tot concurrency ok s)"
  unfolding on_done_def
proof (rule safely_expect)
  let ?s = "s\<lparr>in_flight := in_flight s - 1, finished := finished s + 1,
      failed := (if ok then failed s else failed s + 1)\<rparr>"
  assume "driver_inv tot concurrency s" "0 < in_flight s"
  then have "driving tot concurrency ?s" by (simp add: driver_inv_def driving_def)
  then show "safely (driver_inv tot concurrency) (Inr (refill tot concurrency ?s))"
    by (simp add: driver_inv_def refill_driving refill_full)
qed

interpretation drv: component "on_done tot concurrency" "driver_inv tot concurrency"
  for tot concurrency
  by unfold_locales (rule on_done_inv)

lemma throughput_inv: "run_throughput tot concurrency oks = Inr s \<Longrightarrow> driver_inv tot concurrency s"
  unfolding run_throughput_def
  by (rule drv.run_inv [rotated], assumption)
    (simp add: driver_inv_def refill_driving refill_full)

lemma throughput_counts:
  "run_all (on_done tot concurrency) oks s = Inr s' \<Longrightarrow>
     finished s' = finished s + int (length oks) \<and> failed s' = failed s + int (length (filter Not oks))"
  by (induction oks arbitrary: s) (auto simp: and_then_Inr on_done_def expect_Inr)

text \<open>
  The throughput drivers launch what they were told and no more: at most \<open>concurrency\<close>
  requests are in flight at any time, at most \<open>total\<close> are launched, each completion is counted
  once, and while work is left some request is in flight, so that waiting for it makes sense; no
  counter exceeds its bound, so none overflows.
\<close>

theorem throughput_driver:
  assumes "run_throughput tot concurrency oks = Inr s" "0 \<le> tot" "0 < concurrency"
  shows "finished s = int (length oks) \<and> failed s = int (length (filter Not oks)) \<and>
    launched s = min tot (finished s + concurrency) \<and> in_flight s = launched s - finished s \<and>
    0 \<le> in_flight s \<and> in_flight s \<le> concurrency \<and> (finished s < tot \<longrightarrow> 0 < in_flight s)"
  using throughput_inv [OF assms(1)] throughput_counts [OF assms(1) [unfolded run_throughput_def]] assms(2,3)
  by (auto simp: driver_inv_def driving_def new_driver_def)

theorem throughput_driver_witness:
  "launched (projr (run_throughput 5 2 [True, False])) = 4 \<and> in_flight (projr (run_throughput 5 2 [True, False])) = 2"
proof -
  have "run_throughput 5 2 [True, False] = Inr (projr (run_throughput 5 2 [True, False]))"
    by (simp add: run_throughput_def on_done_def new_driver_def refill.simps)
  from throughput_driver [OF this] show ?thesis by simp
qed

section \<open>Splitting the work over event loops\<close>

text \<open>\<open>share\<close> of thread \<open>t\<close>, with the division of C++, and the concurrency each loop gets.\<close>

definition share :: "int \<Rightarrow> int \<Rightarrow> int \<Rightarrow> int" where
  "share tot loops t = tot sdiv loops + (if t < tot smod loops then 1 else 0)"

definition loop_concurrency :: "int \<Rightarrow> int \<Rightarrow> int" where
  "loop_concurrency concurrency loops = concurrency sdiv loops"

lemma signed_div_nonneg:
  "0 \<le> (a :: int) \<Longrightarrow> 0 < b \<Longrightarrow> a sdiv b = a div b"
  "0 \<le> (a :: int) \<Longrightarrow> 0 < b \<Longrightarrow> a smod b = a mod b"
  by (auto simp: signed_divide_int_def signed_modulo_int_def sgn_if minus_div_mult_eq_mod)

lemma sum_first: "int (card {t. t < n \<and> int t < m}) = min (int n) (max 0 m)"
proof -
  have "{t. t < n \<and> int t < m} = {..<min n (nat m)}" by auto
  then show ?thesis by simp
qed

lemma shares_add_up:
  assumes "0 \<le> tot" "0 < loops"
  shows "(\<Sum>t<loops. share tot (int loops) (int t)) = tot"
proof -
  have sh: "share tot (int loops) t = tot div int loops + (if t < tot mod int loops then 1 else 0)" for t
    using assms by (simp add: share_def signed_div_nonneg)
  have "(\<Sum>t<loops. if int t < tot mod int loops then 1 else 0 :: int) =
      int (card {t. t < loops \<and> int t < tot mod int loops})"
    by (simp add: sum.If_cases Int_def lessThan_def)
  also have "\<dots> = tot mod int loops"
    using assms pos_mod_bound [of "int loops" tot] unfolding sum_first by simp
  finally show ?thesis unfolding sh by (simp add: sum.distrib)
qed

text \<open>
  The threads run one after the other or interleaved: they share the atomic sum of failures only.
  A thread's share is done when \<open>io.run()\<close> returns, with nothing in flight any more, which
  \<open>throughput_over_client\<close> shows of the client. \<open>oks t\<close> are the completions of thread \<open>t\<close>.
\<close>

definition run_share :: "int \<Rightarrow> int \<Rightarrow> bool list \<Rightarrow> driver outcome" where
  "run_share tot concurrency oks = and_then (run_throughput tot concurrency oks)
     (\<lambda>s. expect (in_flight s = 0) (Inr s))"

fun run_loops :: "int \<Rightarrow> int \<Rightarrow> int \<Rightarrow> (nat \<Rightarrow> bool list) \<Rightarrow> nat list \<Rightarrow> int \<Rightarrow> int outcome" where
  "run_loops tot concurrency loops oks [] failed_sum = Inr failed_sum"
| "run_loops tot concurrency loops oks (t # ts) failed_sum =
     and_then (run_share (share tot loops (int t)) (loop_concurrency concurrency loops) (oks t))
       (\<lambda>s. run_loops tot concurrency loops oks ts (failed_sum + failed s))"

definition throughput_main :: "int \<Rightarrow> int \<Rightarrow> int \<Rightarrow> (nat \<Rightarrow> bool list) \<Rightarrow> int outcome" where
  "throughput_main tot concurrency loops oks =
     (if loops > 1 then run_loops tot concurrency loops oks [0..<nat loops] 0
      else and_then (run_share tot concurrency (oks 0)) (\<lambda>s. Inr (failed s)))"

lemma run_share_result:
  assumes "run_share tot concurrency oks = Inr s" "0 \<le> tot" "0 < concurrency"
  shows "int (length oks) = tot \<and> failed s = int (length (filter Not oks))"
proof -
  from assms(1) have s: "run_throughput tot concurrency oks = Inr s" "in_flight s = 0"
    by (auto simp: run_share_def and_then_Inr expect_Inr)
  from throughput_inv [OF s(1)] throughput_counts [OF s(1) [unfolded run_throughput_def]] assms(2,3) s(2)
  show ?thesis by (auto simp: driver_inv_def driving_def new_driver_def)
qed

lemma share_nonneg: "0 \<le> tot \<Longrightarrow> 0 < loops \<Longrightarrow> 0 \<le> share tot loops t"
  by (simp add: share_def signed_div_nonneg pos_imp_zdiv_nonneg_iff)

lemma run_loops_result:
  assumes "0 \<le> tot" "0 < loops" "loops \<le> concurrency"
  shows "run_loops tot concurrency loops oks ts f = Inr f' \<Longrightarrow>
    int (length (concat (map oks ts))) = sum_list (map (\<lambda>t. share tot loops (int t)) ts) \<and>
    f' = f + int (length (filter Not (concat (map oks ts))))"
proof (induction ts arbitrary: f)
  case (Cons t ts)
  from Cons.prems obtain s where
    s: "run_share (share tot loops (int t)) (loop_concurrency concurrency loops) (oks t) = Inr s"
      "run_loops tot concurrency loops oks ts (f + failed s) = Inr f'"
    by (auto simp: and_then_Inr)
  have "0 < loop_concurrency concurrency loops"
    using assms by (simp add: loop_concurrency_def signed_div_nonneg pos_imp_zdiv_pos_iff)
  with run_share_result [OF s(1)] share_nonneg [OF assms(1,2)] Cons.IH [OF s(2)] show ?case by simp
qed simp

text \<open>
  The throughput driver over any number of event loops makes exactly \<open>total\<close> requests, none
  twice, and the failures it sums up, which decide its exit code, are the bad answers of all loops
  together, as long as there is concurrency for each loop.
\<close>

theorem loops_do_total:
  assumes "throughput_main tot concurrency loops oks = Inr f" "0 \<le> tot" "0 < concurrency" "loops \<le> concurrency"
  shows "int (length (concat (map oks [0..<max 1 (nat loops)]))) = tot \<and>
    f = int (length (filter Not (concat (map oks [0..<max 1 (nat loops)]))))"
proof (cases "loops > 1")
  case True
  then have r: "run_loops tot concurrency loops oks [0..<nat loops] 0 = Inr f"
    using assms(1) by (simp add: throughput_main_def)
  have "sum_list (map (\<lambda>t. share tot loops (int t)) [0..<nat loops]) = (\<Sum>t<nat loops. share tot loops (int t))"
    by (simp add: interv_sum_list_conv_sum_set_nat atLeast0LessThan)
  also have "\<dots> = tot" using shares_add_up [of tot "nat loops"] assms(2) True by simp
  finally show ?thesis
    using run_loops_result [OF assms(2) _ assms(4) r] True by (simp add: max_absorb2)
next
  case False
  then obtain s where "run_share tot concurrency (oks 0) = Inr s" "f = failed s"
    using assms(1) by (auto simp: throughput_main_def and_then_Inr)
  moreover have "max 1 (nat loops) = 1" using False by linarith
  ultimately show ?thesis using run_share_result [OF _ assms(2,3)] by simp
qed

theorem loops_do_total_witness:
  "\<exists>oks. throughput_main 3 2 2 oks = Inr 2 \<and> int (length (concat (map oks [0..<max 1 (nat 2)]))) = 3"
proof -
  let ?oks = "\<lambda>t::nat. if t = 0 then [True, False] else [False]"
  have 1: "throughput_main 3 2 2 ?oks = Inr 2"
    by (simp add: throughput_main_def upt_rec run_share_def run_throughput_def share_def loop_concurrency_def
        signed_divide_int_def signed_modulo_int_def on_done_def new_driver_def refill.simps)
  have "int (length (concat (map ?oks [0..<max 1 (nat 2)]))) = 3 \<and>
      2 = int (length (filter Not (concat (map ?oks [0..<max 1 (nat 2)]))))"
    by (rule loops_do_total [OF 1]) simp_all
  with 1 show ?thesis by blast
qed

text \<open>
  With more loops than concurrency each loop gets a concurrency of zero and launches nothing:
  the driver then reports no failures for work it has not done, or, polling, waits for ever.
\<close>

theorem too_many_loops_launch_nothing:
  assumes "0 \<le> concurrency" "concurrency < loops"
  shows "refill tot (loop_concurrency concurrency loops) new_driver = new_driver \<and>
    (\<forall>oks s. run_throughput tot (loop_concurrency concurrency loops) oks = Inr s \<longrightarrow> s = new_driver)"
proof -
  have z: "loop_concurrency concurrency loops = 0"
    using assms by (simp add: loop_concurrency_def signed_div_nonneg)
  have r: "refill tot 0 new_driver = new_driver" by (subst refill.simps) (simp add: new_driver_def)
  have "s = new_driver" if "run_throughput tot 0 oks = Inr s" for oks s
  proof (cases oks)
    case (Cons ok oks')
    with that show ?thesis
      by (simp add: run_throughput_def r on_done_def) (simp add: new_driver_def)
  qed (use that in \<open>simp add: run_throughput_def r\<close>)
  then show ?thesis by (simp add: z r)
qed

theorem too_many_loops_launch_nothing_witness: "launched (refill 100 (loop_concurrency 4 8) new_driver) = 0"
  using too_many_loops_launch_nothing [of 4 8 100] by (simp add: new_driver_def)

section \<open>Chains\<close>

text \<open>The callback chain: \<open>next()\<close> is called once, then by each completion while \<open>--remaining > 0\<close>.\<close>

record chain_state =
  remaining :: int
  sent :: nat
  chain_failed :: nat

definition chain_next :: "chain_state \<Rightarrow> chain_state" where
  "chain_next s = s\<lparr>sent := sent s + 1\<rparr>"

definition chain_done :: "bool \<Rightarrow> chain_state \<Rightarrow> chain_state" where
  "chain_done ok s = (let s = s\<lparr>chain_failed := (if ok then chain_failed s else chain_failed s + 1),
                             remaining := remaining s - 1\<rparr>
     in if remaining s > 0 then chain_next s else s)"

text \<open>
  A schedule, not code: the requests are answered one after the other, well if \<open>ok\<close> of their number.
\<close>

function callback_chain :: "(nat \<Rightarrow> bool) \<Rightarrow> nat \<Rightarrow> chain_state \<Rightarrow> chain_state" where
  "callback_chain ok completed s =
     (if completed < sent s \<and> (completed = 0 \<or> remaining s > 0)
      then callback_chain ok (completed + 1) (chain_done (ok completed) s) else s)"
  by pat_completeness auto
termination
proof (relation "measure (\<lambda>(ok, completed, s). nat (remaining s) + (if completed = 0 then 1 else 0))")
  fix ok :: "nat \<Rightarrow> bool" and completed and s :: chain_state
  assume "completed < sent s \<and> (completed = 0 \<or> remaining s > 0)"
  then show "((ok, completed + 1, chain_done (ok completed) s), (ok, completed, s))
      \<in> measure (\<lambda>(ok, completed, s). nat (remaining s) + (if completed = 0 then 1 else 0))"
    by (auto simp: chain_done_def chain_next_def Let_def)
qed simp

declare callback_chain.simps [simp del]

text \<open>
  The coroutine's \<open>for\<close> loop over \<open>i\<close>, and the number of failures it counts. A transport error
  is thrown out of \<open>co_await\<close>, which ends the coroutine; \<open>detached\<close> drops the exception.
\<close>

datatype answer = Answered bool | Transport_error

function coroutine_chain :: "(nat \<Rightarrow> answer) \<Rightarrow> int \<Rightarrow> int \<Rightarrow> chain_state \<Rightarrow> chain_state" where
  "coroutine_chain ans tot i s =
     (if i < tot
      then (case ans (sent s) of
          Answered ok \<Rightarrow> coroutine_chain ans tot (i + 1) (s\<lparr>sent := sent s + 1,
            chain_failed := (if ok then chain_failed s else chain_failed s + 1)\<rparr>)
        | Transport_error \<Rightarrow> s\<lparr>sent := sent s + 1\<rparr>)
      else s)"
  by pat_completeness auto
termination
  by (relation "measure (\<lambda>(ans, tot, i, s). nat (tot - i))") auto

declare coroutine_chain.simps [simp del]

text \<open>The callback chain counts both kinds of failure: \<open>ec || !res.is_ok()\<close>.\<close>

definition good :: "answer \<Rightarrow> bool" where
  "good a \<longleftrightarrow> a = Answered True"

definition new_chain :: "int \<Rightarrow> chain_state" where
  "new_chain tot = \<lparr>remaining = tot, sent = 0, chain_failed = 0\<rparr>"

definition failures :: "(nat \<Rightarrow> bool) \<Rightarrow> nat \<Rightarrow> nat" where
  "failures ok n = length (filter (\<lambda>i. \<not> ok i) [0..<n])"

lemma failures_simps [simp]:
  "failures ok 0 = 0"
  "failures ok (Suc n) = (if ok n then failures ok n else failures ok n + 1)"
  by (simp_all add: failures_def)

lemma callback_chain_result:
  "sent s = completed + 1 \<Longrightarrow> chain_failed s = failures ok completed \<Longrightarrow> completed = 0 \<or> remaining s > 0 \<Longrightarrow>
     sent (callback_chain ok completed s) = completed + max 1 (nat (remaining s)) \<and>
     chain_failed (callback_chain ok completed s) = failures ok (completed + max 1 (nat (remaining s)))"
proof (induction ok completed s rule: callback_chain.induct)
  case (1 ok completed s)
  let ?s = "chain_done (ok completed) s"
  have step: "callback_chain ok completed s = callback_chain ok (completed + 1) ?s"
    using "1.prems" by (subst callback_chain.simps) simp
  show ?case
  proof (cases "remaining s > 1")
    case True
    then have "sent ?s = completed + 1 + 1" "chain_failed ?s = failures ok (completed + 1)"
      "remaining ?s = remaining s - 1" "remaining ?s > 0"
      using "1.prems" by (simp_all add: chain_done_def chain_next_def)
    with "1.IH" "1.prems" True show ?thesis unfolding step by (auto simp: nat_diff_distrib)
  next
    case False
    then have s: "sent ?s = completed + 1" "chain_failed ?s = failures ok (completed + 1)"
      using "1.prems" by (simp_all add: chain_done_def chain_next_def)
    have "callback_chain ok (completed + 1) ?s = ?s" using s by (subst callback_chain.simps) simp
    moreover have "nat (remaining s) \<le> 1" using False by linarith
    then have "max 1 (nat (remaining s)) = 1" by simp
    ultimately show ?thesis unfolding step using s by simp
  qed
qed

text \<open>The coroutine sends the requests \<open>a, a + 1, ...\<close> up to the first transport error or the end.\<close>

lemma coroutine_chain_result:
  assumes "chain_failed s = failures (good \<circ> ans) (sent s)"
    and "\<And>j. sent s \<le> j \<Longrightarrow> j < k \<Longrightarrow> ans j \<noteq> Transport_error" "sent s \<le> k"
    and "i + int (k - sent s) \<le> tot"
  shows "coroutine_chain ans tot i s =
    coroutine_chain ans tot (i + int (k - sent s)) (s\<lparr>sent := k, chain_failed := failures (good \<circ> ans) k\<rparr>)"
  using assms
proof (induction "k - sent s" arbitrary: i s)
  case 0
  then have "s\<lparr>sent := k, chain_failed := failures (good \<circ> ans) k\<rparr> = s" by (cases s) (simp add: comp_def)
  with 0 show ?case by (simp only:) simp
next
  case (Suc n)
  let ?s = "s\<lparr>sent := sent s + 1, chain_failed := failures (good \<circ> ans) (sent s + 1)\<rparr>"
  from Suc.hyps(2) have k: "n = k - sent ?s" "sent s < k" "int (k - sent s) = 1 + int (k - sent ?s)" by auto
  obtain ok where ok: "ans (sent s) = Answered ok"
    using Suc.prems(2) [of "sent s"] k(2) by (cases "ans (sent s)") auto
  have "coroutine_chain ans tot i s = coroutine_chain ans tot (i + 1) ?s"
    using Suc.prems(1,4) k(2) ok by (subst coroutine_chain.simps) (simp add: good_def)
  also have "\<dots> = coroutine_chain ans tot (i + 1 + int (k - sent ?s))
      (?s\<lparr>sent := k, chain_failed := failures (good \<circ> ans) k\<rparr>)"
    by (rule Suc.hyps(1) [OF k(1)]) (use Suc.prems k in auto)
  finally show ?case using k(3) by (simp add: add.assoc)
qed

text \<open>
  The two chain drivers measure the same work when there is any and nothing goes wrong on the
  wire: for a positive count both send that many requests, one after the other, and count the
  same failures. For a count of zero or less the callback chain still sends one.
\<close>

theorem chains_agree:
  assumes "\<And>j. j < nat tot \<Longrightarrow> ans j \<noteq> Transport_error"
  shows "sent (callback_chain (good \<circ> ans) 0 (chain_next (new_chain tot))) = max 1 (nat tot) \<and>
   sent (coroutine_chain ans tot 0 (new_chain tot)) = nat tot \<and>
   (0 < tot \<longrightarrow> chain_failed (callback_chain (good \<circ> ans) 0 (chain_next (new_chain tot))) =
      chain_failed (coroutine_chain ans tot 0 (new_chain tot)))"
proof -
  have c: "coroutine_chain ans tot 0 (new_chain tot) =
      (new_chain tot)\<lparr>sent := nat tot, chain_failed := failures (good \<circ> ans) (nat tot)\<rparr>"
  proof (cases "0 \<le> tot")
    case True
    have "coroutine_chain ans tot 0 (new_chain tot) = coroutine_chain ans tot (0 + int (nat tot - sent (new_chain tot)))
        ((new_chain tot)\<lparr>sent := nat tot, chain_failed := failures (good \<circ> ans) (nat tot)\<rparr>)"
      by (rule coroutine_chain_result) (use True assms in \<open>auto simp: new_chain_def\<close>)
    then show ?thesis using True by (subst (asm) (2) coroutine_chain.simps) (simp add: new_chain_def)
  next
    case False
    then show ?thesis by (subst coroutine_chain.simps) (simp add: new_chain_def)
  qed
  from callback_chain_result [of "chain_next (new_chain tot)" 0 "good \<circ> ans"] show ?thesis
    unfolding c by (auto simp: chain_next_def new_chain_def max_def)
qed

theorem chains_agree_witness:
  "chain_failed (callback_chain (good \<circ> (\<lambda>i. Answered (i = 0))) 0 (chain_next (new_chain 3))) =
     chain_failed (coroutine_chain (\<lambda>i. Answered (i = 0)) 3 0 (new_chain 3))"
  using chains_agree [of 3 "\<lambda>i. Answered (i = 0)"] by simp

text \<open>
  C40: A transport error ends the coroutine chain unnoticed: the requests after it are never sent,
  and the error is not counted, so that a chain whose answers were good up to it reports no
  failure. The callback chain counts the error and goes on to the end.
\<close>

theorem coroutine_drops_errors:
  assumes "k < nat tot" "ans k = Transport_error" "\<And>j. j < k \<Longrightarrow> ans j = Answered True"
  shows "sent (coroutine_chain ans tot 0 (new_chain tot)) = k + 1 \<and>
    chain_failed (coroutine_chain ans tot 0 (new_chain tot)) = 0 \<and>
    sent (callback_chain (good \<circ> ans) 0 (chain_next (new_chain tot))) = nat tot \<and>
    0 < chain_failed (callback_chain (good \<circ> ans) 0 (chain_next (new_chain tot)))"
proof -
  have none: "failures (good \<circ> ans) j = 0" if "j \<le> k" for j
    using that assms(3) by (induction j) (simp_all add: good_def)
  have "coroutine_chain ans tot 0 (new_chain tot) = coroutine_chain ans tot (0 + int (k - sent (new_chain tot)))
      ((new_chain tot)\<lparr>sent := k, chain_failed := failures (good \<circ> ans) k\<rparr>)"
    by (rule coroutine_chain_result) (use assms in \<open>auto simp: new_chain_def\<close>)
  moreover have "coroutine_chain ans tot (int k) ((new_chain tot)\<lparr>sent := k, chain_failed := 0\<rparr>) =
      (new_chain tot)\<lparr>sent := k + 1, chain_failed := 0\<rparr>"
    using assms(1,2) by (subst coroutine_chain.simps) simp
  ultimately have c: "coroutine_chain ans tot 0 (new_chain tot) = (new_chain tot)\<lparr>sent := k + 1, chain_failed := 0\<rparr>"
    using none by (simp add: new_chain_def)
  have "failures (good \<circ> ans) (nat tot) = length (filter (\<lambda>i. \<not> good (ans i)) [0..<nat tot])"
    by (simp add: failures_def)
  moreover have "k \<in> set (filter (\<lambda>i. \<not> good (ans i)) [0..<nat tot])" using assms(1,2) by (simp add: good_def)
  then have "0 < length (filter (\<lambda>i. \<not> good (ans i)) [0..<nat tot])" by (rule length_pos_if_in_set)
  ultimately show ?thesis
    using callback_chain_result [of "chain_next (new_chain tot)" 0 "good \<circ> ans"] assms(1)
    unfolding c by (auto simp: chain_next_def new_chain_def max_def)
qed

theorem coroutine_drops_errors_witness:
  "chain_failed (coroutine_chain (\<lambda>i. if i = 1 then Transport_error else Answered True) 5 0 (new_chain 5)) = 0"
  using coroutine_drops_errors [of 1 5 "\<lambda>i. if i = 1 then Transport_error else Answered True"] by simp

section \<open>The command line\<close>

text \<open>
  \<open>std::atoi\<close>: white space, a sign, decimal digits up to the first other character. Values
  outside the range of \<open>int\<close> are undefined in C++ and not considered.
\<close>

definition is_space :: "char \<Rightarrow> bool" where
  "is_space c \<longleftrightarrow> c \<in> {CHR '' '', CHR 0x09, CHR 0x0A, CHR 0x0B, CHR 0x0C, CHR 0x0D}"

definition is_digit :: "char \<Rightarrow> bool" where
  "is_digit c \<longleftrightarrow> 48 \<le> (of_char c :: nat) \<and> (of_char c :: nat) \<le> 57"

fun digits_value :: "int \<Rightarrow> string \<Rightarrow> int" where
  "digits_value acc [] = acc"
| "digits_value acc (c # cs) = (if is_digit c then digits_value (10 * acc + (of_char c - 48)) cs else acc)"

definition atoi :: "string \<Rightarrow> int" where
  "atoi s = (case dropWhile is_space s of
     [] \<Rightarrow> 0
   | c # cs \<Rightarrow> (if c = CHR ''-'' then - digits_value 0 cs
       else if c = CHR ''+'' then digits_value 0 cs else digits_value 0 (c # cs)))"

record args =
  scenario :: string
  base_url :: string
  total_arg :: int
  concurrency_arg :: int

text \<open>\<open>parse\<close>; \<open>None\<close> is the usage message and \<open>exit(2)\<close>.\<close>

definition parse :: "string list \<Rightarrow> args option" where
  "parse argv = (if length argv < 4 then None
     else Some \<lparr>scenario = argv ! 1, base_url = argv ! 2, total_arg = atoi (argv ! 3),
       concurrency_arg = (if length argv > 4 then atoi (argv ! 4) else 1)\<rparr>)"

text \<open>Decimal notation, as \<open>%d\<close> prints it in \<open>report\<close>.\<close>

fun decimal_nat :: "nat \<Rightarrow> string" where
  "decimal_nat n = (if n < 10 then [char_of (48 + n)] else decimal_nat (n div 10) @ [char_of (48 + n mod 10)])"

declare decimal_nat.simps [simp del]

definition decimal :: "int \<Rightarrow> string" where
  "decimal i = (if i < 0 then CHR ''-'' # decimal_nat (nat (- i)) else decimal_nat (nat i))"

lemma digit_char:
  assumes n: "n < 10"
  shows "is_digit (char_of (48 + n)) \<and> (of_char (char_of (48 + n) :: char) :: int) = 48 + int n"
proof -
  have c: "(of_char (char_of (48 + n) :: char) :: nat) = 48 + n" using n by simp
  then have "(of_char (char_of (48 + n) :: char) :: int) = int (48 + n)"
    by (metis of_nat_of_char)
  with n c show ?thesis by (simp add: is_digit_def)
qed

lemma digits_value_snoc:
  "\<forall>c\<in>set cs. is_digit c \<Longrightarrow> digits_value acc (cs @ cs') = digits_value (digits_value acc cs) cs'"
  by (induction cs arbitrary: acc) auto

lemma decimal_nat_value: "(\<forall>c\<in>set (decimal_nat n). is_digit c) \<and> decimal_nat n \<noteq> [] \<and> digits_value 0 (decimal_nat n) = int n"
proof (induction n rule: decimal_nat.induct)
  case (1 n)
  show ?case
  proof (cases "n < 10")
    case True
    then show ?thesis using digit_char [OF True] by (subst (1 2 3) decimal_nat.simps) simp
  next
    case False
    then have d: "decimal_nat n = decimal_nat (n div 10) @ [char_of (48 + n mod 10)]"
      by (subst decimal_nat.simps) simp
    have "n mod 10 < 10" by simp
    note c = digit_char [OF this]
    from "1.IH" [OF False] c show ?thesis
      unfolding d by (simp add: digits_value_snoc) presburger
  qed
qed

text \<open>
  The numbers a driver is given are the numbers it uses: an \<open>int\<close> written in decimal on the
  command line is read back by \<open>parse\<close> as the same value, with a concurrency of one by default.
\<close>

theorem parse_roundtrip:
  "parse [prog, scen, url, decimal n, decimal c] =
     Some \<lparr>scenario = scen, base_url = url, total_arg = n, concurrency_arg = c\<rparr> \<and>
   parse [prog, scen, url, decimal n] =
     Some \<lparr>scenario = scen, base_url = url, total_arg = n, concurrency_arg = 1\<rparr>"
proof -
  have atoi: "atoi (decimal i) = i" for i
  proof (cases "i < 0")
    case True
    then show ?thesis using decimal_nat_value [of "nat (- i)"] by (simp add: atoi_def decimal_def is_space_def)
  next
    case False
    obtain x xs where x: "decimal_nat (nat i) = x # xs" "is_digit x"
      using decimal_nat_value [of "nat i"] by (cases "decimal_nat (nat i)") auto
    then have "\<not> is_space x" "x \<noteq> CHR ''-''" "x \<noteq> CHR ''+''" by (auto simp: is_space_def is_digit_def)
    with False x show ?thesis using decimal_nat_value [of "nat i"]
      by (simp add: atoi_def decimal_def split: if_splits)
  qed
  show ?thesis by (simp add: parse_def atoi)
qed

end
