(* ===== verification/Driver_Programs.thy ===== *)
theory Driver_Programs
  imports Coroutines Bench_Drivers
begin

text \<open>
  The benchmark drivers as programs, for any client: the \<open>refill\<close> loop with its completion handler,
  the chain of callbacks, and the chains that wait for each request. \<open>well d\<close> says whether the
  completion \<open>d\<close> is a good answer, \<open>req n\<close> is the \<open>n\<close>th request.
\<close>

section \<open>The \<open>refill\<close> loop\<close>

definition throughput_program :: "('d \<Rightarrow> bool) \<Rightarrow> (nat \<Rightarrow> 'r) \<Rightarrow> int \<Rightarrow> int \<Rightarrow> ('d, 'r, driver) program" where
  "throughput_program well req tot concurrency =
     \<lparr>first = (let s = refill tot concurrency new_driver in (s, map req [0..<nat (launched s)])),
      react = (\<lambda>d s. case on_done tot concurrency (well d) s of Inl _ \<Rightarrow> (s, [])
        | Inr s' \<Rightarrow> (s', map req [nat (launched s)..<nat (launched s')]))\<rparr>"

definition refilling :: "int \<Rightarrow> int \<Rightarrow> driver \<Rightarrow> bool" where
  "refilling tot concurrency s \<longleftrightarrow> driver_inv tot concurrency s \<and> 0 \<le> finished s"

lemma new_driver_zero [simp]: "finished new_driver = 0" "failed new_driver = 0"
  by (simp_all add: new_driver_def)

lemma refill_launches: "launched s \<le> launched (refill tot concurrency s)"
proof (induction tot concurrency s rule: refill.induct)
  case (1 tot concurrency s)
  then show ?case by (subst refill.simps) auto
qed

lemma refilling_launched: "refilling tot concurrency s \<Longrightarrow> launched s = in_flight s + finished s \<and> 0 \<le> in_flight s \<and> 0 \<le> finished s"
  by (simp add: refilling_def driver_inv_def driving_def)

lemma on_done_refills:
  assumes "refilling tot concurrency s" "on_done tot concurrency ok s = Inr s'"
  shows "refilling tot concurrency s' \<and> finished s' = finished s + 1 \<and> launched s \<le> launched s'"
proof -
  have "driver_inv tot concurrency s'"
    using on_done_inv [of tot concurrency s ok] assms by (simp add: refilling_def safely_def)
  moreover have "finished s' = finished s + 1" "launched s \<le> launched s'"
    using assms(2) refill_launches by (auto simp: on_done_def expect_Inr intro: order_trans [OF _ refill_launches])
  ultimately show ?thesis using assms(1) by (simp add: refilling_def)
qed

lemma run_launches:
  "run_all (on_done tot concurrency) oks s = Inr s' \<Longrightarrow> refilling tot concurrency s \<Longrightarrow> launched s \<le> launched s'"
proof (induction oks arbitrary: s)
  case (Cons ok oks)
  then obtain s1 where "on_done tot concurrency ok s = Inr s1" "run_all (on_done tot concurrency) oks s1 = Inr s'"
    by (auto simp: and_then_Inr)
  with on_done_refills [OF Cons.prems(2)] Cons.IH show ?case by fastforce
qed simp

lemma map_upt_append: "a \<le> b \<Longrightarrow> b \<le> c \<Longrightarrow> map f [a..<b] @ map f [b..<c] = map f [a..<c]"
  by (metis map_append le_Suc_ex upt_add_eq_append)

lemma requests_append:
  "a \<le> b \<Longrightarrow> b \<le> c \<Longrightarrow> map req [nat a..<nat b] @ map req [nat b..<nat c] = map req [nat a..<nat c]"
  by (rule map_upt_append) (simp_all add: nat_mono)

lemma refill_first: "refilling tot concurrency (refill tot concurrency new_driver)"
  by (simp add: refilling_def driver_inv_def refill_driving refill_full)

interpretation thr: program_contract "throughput_program well req tot concurrency"
  "refilling tot concurrency" "\<lambda>s. nat (in_flight s)" for well req tot concurrency
proof unfold_locales
  let ?prog = "throughput_program well req tot concurrency"
  show "refilling tot concurrency (fst (first ?prog))"
    by (simp add: throughput_program_def Let_def refill_first)
  show "nat (in_flight (fst (first ?prog))) = length (snd (first ?prog))"
    using refilling_launched [OF refill_first] by (simp add: throughput_program_def Let_def)
next
  fix s d s' rs
  assume s: "refilling tot concurrency s" "0 < nat (in_flight s)"
    "react (throughput_program well req tot concurrency) d s = (s', rs)"
  then have 1: "on_done tot concurrency (well d) s = Inr s'" "rs = map req [nat (launched s)..<nat (launched s')]"
    by (auto simp: throughput_program_def on_done_def)
  from on_done_refills [OF s(1) 1(1)] refilling_launched [OF s(1)] refilling_launched [of tot concurrency s'] s(2)
  show "refilling tot concurrency s' \<and> nat (in_flight s') + 1 = nat (in_flight s) + length rs"
    unfolding 1(2) by auto
qed (simp add: throughput_program_def on_done_def)

text \<open>The program is \<open>run_throughput\<close> on what the answers are worth.\<close>

lemma react_throughput:
  assumes "react_all (throughput_program well req tot concurrency) ds s = (s', rs)" "refilling tot concurrency s"
    and "length ds + nat (in_flight s') = nat (in_flight s) + length rs"
  shows "run_all (on_done tot concurrency) (map well ds) s = Inr s' \<and> rs = map req [nat (launched s)..<nat (launched s')]"
  using assms
proof (induction rule: thr.accounted_induct)
  case (completion s d s1 rs1 ds s' rs2)
  then have d: "on_done tot concurrency (well d) s = Inr s1" "rs1 = map req [nat (launched s)..<nat (launched s1)]"
    by (auto simp: throughput_program_def on_done_def)
  have "launched s \<le> launched s1" "launched s1 \<le> launched s'"
    using on_done_refills [OF completion(1) d(1)] run_launches [OF _ completion(4)] completion(7) by auto
  with completion(7) d show ?case by (simp add: requests_append)
qed simp

lemma outcome_throughput:
  assumes "outcome_after (throughput_program well req tot concurrency) ds = (s, rs)" "length ds \<le> length rs"
  shows "run_throughput tot concurrency (map well ds) = Inr s \<and> rs = map req [0..<nat (launched s)] \<and>
    nat (in_flight s) + length ds = length rs"
proof -
  let ?s0 = "refill tot concurrency new_driver"
  from thr.outcome_accounted [OF assms] obtain rs' where
    1: "react_all (throughput_program well req tot concurrency) ds ?s0 = (s, rs')" "rs = map req [0..<nat (launched ?s0)] @ rs'"
      "length ds + nat (in_flight s) = nat (in_flight ?s0) + length rs'"
    by (auto simp: throughput_program_def Let_def)
  from react_throughput [OF 1(1) refill_first 1(3)] have r: "run_throughput tot concurrency (map well ds) = Inr s"
    "rs' = map req [nat (launched ?s0)..<nat (launched s)]" by (simp_all add: run_throughput_def)
  have "0 \<le> launched ?s0" "launched ?s0 \<le> launched s"
    using refilling_launched [OF refill_first] run_launches [OF r(1) [unfolded run_throughput_def] refill_first] by simp_all
  then have "rs = map req [nat 0..<nat (launched s)]" unfolding 1(2) r(2) using requests_append by fastforce
  with r(1) thr.outcome_good [OF assms] show ?thesis by simp
qed

section \<open>The chain of callbacks\<close>

text \<open>
  \<open>next()\<close> sends a request, whose handler calls it again while \<open>--remaining > 0\<close>. What \<open>remaining\<close>
  has lost are the completions so far.
\<close>

definition links_pending :: "int \<Rightarrow> chain_state \<Rightarrow> nat" where
  "links_pending tot s = sent s - nat (tot - remaining s)"

definition callback_program :: "('d \<Rightarrow> bool) \<Rightarrow> (nat \<Rightarrow> 'r) \<Rightarrow> int \<Rightarrow> ('d, 'r, chain_state) program" where
  "callback_program well req tot =
     \<lparr>first = (chain_next (new_chain tot), [req 0]),
      react = (\<lambda>d s. if links_pending tot s = 0 then (s, [])
        else let s' = chain_done (well d) s in (s', map req [sent s..<sent s']))\<rparr>"

definition chained :: "int \<Rightarrow> chain_state \<Rightarrow> bool" where
  "chained tot s \<longleftrightarrow> remaining s \<le> tot \<and> int (sent s) \<ge> tot - remaining s \<and>
     int (sent s) \<le> tot - remaining s + 1 \<and> (0 < remaining s \<longrightarrow> int (sent s) = tot - remaining s + 1) \<and>
     (int (sent s) = tot - remaining s + 1 \<longrightarrow> remaining s = tot \<or> 0 < remaining s)"

lemma chained_done:
  assumes "chained tot s" "0 < links_pending tot s"
  shows "chained tot (chain_done ok s) \<and> sent s \<le> sent (chain_done ok s) \<and>
    links_pending tot (chain_done ok s) + 1 = links_pending tot s + (sent (chain_done ok s) - sent s) \<and>
    nat (tot - remaining (chain_done ok s)) = nat (tot - remaining s) + 1 \<and> sent s = nat (tot - remaining s) + 1"
  using assms by (auto simp: chained_def links_pending_def chain_done_def chain_next_def Let_def)

interpretation cbc: program_contract "callback_program well req tot" "chained tot" "links_pending tot" for well req tot
proof unfold_locales
  fix s d s' rs
  assume s: "chained tot s" "0 < links_pending tot s" "react (callback_program well req tot) d s = (s', rs)"
  then have "s' = chain_done (well d) s" "rs = map req [sent s..<sent s']" by (auto simp: callback_program_def Let_def)
  with chained_done [OF s(1,2), of "well d"]
  show "chained tot s' \<and> links_pending tot s' + 1 = links_pending tot s + length rs" by simp
qed (simp_all add: callback_program_def chained_def links_pending_def chain_next_def new_chain_def)

lemma callback_chain_done:
  assumes "chained tot s" "0 < links_pending tot s"
  shows "callback_chain ok (nat (tot - remaining s)) s =
    callback_chain ok (nat (tot - remaining s) + 1) (chain_done (ok (nat (tot - remaining s))) s)"
  using assms chained_done [OF assms] by (subst callback_chain.simps) (auto simp: chained_def links_pending_def)

lemma react_callbacks:
  assumes "react_all (callback_program well req tot) ds s = (s', rs)" "chained tot s"
    and "length ds + links_pending tot s' = links_pending tot s + length rs"
    and "\<And>j. j < length ds \<Longrightarrow> ok (nat (tot - remaining s) + j) = well (ds ! j)"
  shows "callback_chain ok (nat (tot - remaining s)) s = callback_chain ok (nat (tot - remaining s')) s' \<and>
    nat (tot - remaining s') = nat (tot - remaining s) + length ds \<and> sent s \<le> sent s' \<and> rs = map req [sent s..<sent s']"
  using assms
proof (induction rule: cbc.accounted_induct)
  case (completion s d s1 rs1 ds s' rs2)
  have s1: "s1 = chain_done (well d) s" "rs1 = map req [sent s..<sent s1]"
    using completion(2,3) by (auto simp: callback_program_def Let_def)
  note linked = chained_done [OF completion(1,2), of "well d"]
  have ok: "ok (nat (tot - remaining s)) = well d" using completion(8) [of 0] by simp
  have "ok (nat (tot - remaining s1) + j) = well (ds ! j)" if "j < length ds" for j
    using completion(8) [of "Suc j"] that linked s1 by simp
  from completion(7) [OF this] callback_chain_done [OF completion(1,2), of ok] linked s1 ok show ?case
    by (simp add: map_upt_append)
qed simp

lemma outcome_callbacks:
  assumes "outcome_after (callback_program well req tot) ds = (s, rs)" "length ds \<le> length rs"
  shows "rs = map req [0..<sent s] \<and> links_pending tot s + length ds = length rs \<and>
    (links_pending tot s = 0 \<longrightarrow> s = callback_chain (\<lambda>j. well (ds ! j)) 0 (chain_next (new_chain tot)))"
proof -
  let ?s0 = "chain_next (new_chain tot)" and ?ok = "\<lambda>j. well (ds ! j)"
  from cbc.outcome_accounted [OF assms] obtain rs' where
    1: "react_all (callback_program well req tot) ds ?s0 = (s, rs')" "rs = req 0 # rs'"
      "length ds + links_pending tot s = links_pending tot ?s0 + length rs'"
    by (auto simp: callback_program_def)
  have 0: "chained tot ?s0" "sent ?s0 = 1" "remaining ?s0 = tot"
    by (simp_all add: chained_def chain_next_def new_chain_def)
  have r: "callback_chain ?ok (nat (tot - remaining ?s0)) ?s0 = callback_chain ?ok (nat (tot - remaining s)) s"
    "nat (tot - remaining s) = length ds" "1 \<le> sent s" "rs' = map req [1..<sent s]"
    using react_callbacks [OF 1(1) 0(1) 1(3), of ?ok] 0 by simp_all
  have "callback_chain ?ok (length ds) s = s" if "links_pending tot s = 0"
    using that r(2) by (subst callback_chain.simps) (simp add: links_pending_def)
  moreover have "rs = map req [0..<sent s]" using r(3,4) 1(2) by (simp add: upt_conv_Cons)
  ultimately show ?thesis using r 0 cbc.outcome_good [OF assms] by simp
qed

section \<open>Chains that wait\<close>

text \<open>
  The loop over \<open>i\<close> that waits for each answer, in the coroutine, in the loop that polls, and with
  the blocking libraries. \<open>thrown d\<close> is the exception that waiting throws for \<open>d\<close>.
\<close>

function chain_loop :: "'q \<Rightarrow> ('d \<Rightarrow> 'x option) \<Rightarrow> ('d \<Rightarrow> bool) \<Rightarrow> int \<Rightarrow> int \<Rightarrow> ('q, 'd, 'x, nat) coro" where
  "chain_loop q thrown ok tot i =
     (if i < tot
      then Await q (\<lambda>d. case thrown d of Some x \<Rightarrow> Threw x
        | None \<Rightarrow> Act (\<lambda>failed. if ok d then failed else failed + 1) (chain_loop q thrown ok tot (i + 1)))
      else Finished)"
  by pat_completeness auto
termination
  by (relation "measure (\<lambda>(q, thrown, ok, tot, i). nat (tot - i))") auto

declare chain_loop.simps [simp del]

definition answer_of :: "('d \<Rightarrow> 'x option) \<Rightarrow> ('d \<Rightarrow> bool) \<Rightarrow> 'd \<Rightarrow> answer" where
  "answer_of thrown ok d = (case thrown d of Some x \<Rightarrow> Transport_error | None \<Rightarrow> Answered (ok d))"

lemma chain_loop_run:
  "run_coro (chain_loop q thrown ok tot i) ds f = (f', co, []) \<Longrightarrow> \<not> waits co \<Longrightarrow> chain_failed s = f \<Longrightarrow>
     (\<And>j. j < length ds \<Longrightarrow> ans (sent s + j) = answer_of thrown ok (ds ! j)) \<Longrightarrow>
     coroutine_chain ans tot i s = s\<lparr>sent := sent s + length ds, chain_failed := f'\<rparr>"
proof (induction ds arbitrary: i f s)
  case Nil
  then have "\<not> i < tot" by (auto simp: chain_loop.simps [of q thrown ok tot i])
  with Nil show ?case by (subst coroutine_chain.simps) (cases s; simp add: chain_loop.simps)
next
  case (Cons d ds)
  show ?case
  proof (cases "i < tot")
    case False
    with Cons.prems(1) show ?thesis by (simp add: chain_loop.simps)
  next
    case True
    have a: "ans (sent s) = answer_of thrown ok d" using Cons.prems(4) [of 0] by simp
    show ?thesis
    proof (cases "thrown d")
      case (Some x)
      with True Cons.prems(1,3) a show ?thesis
        by (subst coroutine_chain.simps) (simp add: chain_loop.simps [of q] answer_of_def)
    next
      case None
      let ?f = "if ok d then f else f + 1"
      let ?s = "s\<lparr>sent := sent s + 1, chain_failed := ?f\<rparr>"
      have "ans (sent ?s + j) = answer_of thrown ok (ds ! j)" if "j < length ds" for j
        using Cons.prems(4) [of "Suc j"] that by simp
      moreover have "run_coro (chain_loop q thrown ok tot (i + 1)) ds ?f = (f', co, [])"
        using Cons.prems(1) True None by (simp add: chain_loop.simps [of q thrown ok tot i])
      ultimately have "coroutine_chain ans tot (i + 1) ?s = ?s\<lparr>sent := sent ?s + length ds, chain_failed := f'\<rparr>"
        using Cons.IH [of "i + 1" ?f ?s] Cons.prems(2) by simp
      then show ?thesis
        using True None a Cons.prems(3) by (subst coroutine_chain.simps) (simp add: answer_of_def split: if_splits)
    qed
  qed
qed

text \<open>
  The loop counts the bad answers, and ends after \<open>tot\<close> of them in all, or with the first exception,
  which it does not count.
\<close>

lemma chain_loop_ends:
  "run_coro (chain_loop q thrown ok tot i) ds f = (f', co, []) \<Longrightarrow> \<not> waits co \<Longrightarrow>
     f' = f + length (filter (\<lambda>d. thrown d = None \<and> \<not> ok d) ds) \<and> length ds \<le> nat (tot - i) \<and>
     (if \<exists>d\<in>set ds. thrown d \<noteq> None
      then (\<forall>d\<in>set (butlast ds). thrown d = None) \<and> co = Threw (the (thrown (last ds)))
      else co = Finished \<and> length ds = nat (tot - i))"
proof (induction ds arbitrary: i f)
  case Nil
  then show ?case by (auto simp: chain_loop.simps [of q thrown ok tot i] split: if_splits)
next
  case (Cons d ds)
  then have i: "i < tot" by (auto simp: chain_loop.simps [of q thrown ok tot i] split: if_splits)
  show ?case
  proof (cases "thrown d")
    case (Some x)
    with Cons.prems i show ?thesis by (auto simp: chain_loop.simps [of q thrown ok tot i])
  next
    case None
    with Cons.prems i have "run_coro (chain_loop q thrown ok tot (i + 1)) ds (if ok d then f else f + 1) = (f', co, [])"
      by (simp add: chain_loop.simps [of q thrown ok tot i])
    from Cons.IH [OF this Cons.prems(2)] i None show ?thesis by (auto split: if_splits)
  qed
qed

text \<open>Without exceptions the loop counts the bad answers, and ends after \<open>tot\<close> of them in all.\<close>

lemma chain_loop_counts:
  "run_coro (chain_loop q (\<lambda>d. None) ok tot i) ds f = (f', co, []) \<Longrightarrow>
     f' = f + length (filter (\<lambda>d. \<not> ok d) ds) \<and> length ds \<le> nat (tot - i) \<and> (waits co \<longleftrightarrow> length ds < nat (tot - i))"
proof (induction ds arbitrary: i f)
  case Nil
  then show ?case by (auto simp: chain_loop.simps [of q "\<lambda>d. None" ok tot i] split: if_splits)
next
  case (Cons d ds)
  then have i: "i < tot" by (auto simp: chain_loop.simps [of q "\<lambda>d. None" ok tot i] split: if_splits)
  with Cons.prems have "run_coro (chain_loop q (\<lambda>d. None) ok tot (i + 1)) ds (if ok d then f else f + 1) = (f', co, [])"
    by (simp add: chain_loop.simps [of q "\<lambda>d. None" ok tot i])
  from Cons.IH [OF this] i show ?case by auto
qed

end
