(* ===== verification/Bench_Client.thy ===== *)
theory Bench_Client
  imports Program_Client Bench_Drivers
begin

text \<open>
  \<open>run_throughput\<close> of \<open>bench/bench_cofetch.cpp\<close> over the model of the client: the driver's
  \<open>refill\<close> and completion handler on one side, a run of the client on the other, with the handlers
  the client calls as the driver's completions and the requests the driver launches as the
  client's. The client is whatever \<open>Client_Loop\<close> allows: sockets, timers, failures to start.
\<close>

section \<open>The driver and its client\<close>

text \<open>What the completion handler makes of its arguments: \<open>!(ec || !res.is_ok())\<close>.\<close>

definition went_well :: "completion \<Rightarrow> bool" where
  "went_well d = (case d of (h, ec, res) \<Rightarrow> \<not> (ec_set ec \<or> \<not> is_ok res))"

text \<open>The handlers an event of the client called, in order.\<close>

definition newly_called :: "client \<Rightarrow> client \<Rightarrow> completion list" where
  "newly_called c c' = drop (length (invoked (eng c))) (invoked (eng c'))"

text \<open>
  The driver starts its requests before the loop runs. Then the client's events drive it: each
  handler called is a completion, and the requests that an event starts are those the
  completions launched. The client lives as long as the loop runs.
\<close>

inductive driven :: "int \<Rightarrow> int \<Rightarrow> client \<Rightarrow> driver \<Rightarrow> bool" for tot concurrency :: int where
  driven_start: "client_run (map User ops) (new_client version max_pooled now) = Inr c \<Longrightarrow>
     invoked (eng c) = [] \<Longrightarrow> s = refill tot concurrency new_driver \<Longrightarrow>
     alive (tmr c) \<Longrightarrow> int (length (started c)) = launched s \<Longrightarrow> driven tot concurrency c s"
| driven_event: "driven tot concurrency c s \<Longrightarrow> client_do ev c = Inr c' \<Longrightarrow>
     alive (tmr c') \<Longrightarrow>
     run_all (on_done tot concurrency) (map went_well (newly_called c c')) s = Inr s' \<Longrightarrow>
     int (length (started c')) - int (length (started c)) = launched s' - launched s \<Longrightarrow>
     driven tot concurrency c' s'"

text \<open>What the two sides have counted.\<close>

definition in_step :: "int \<Rightarrow> int \<Rightarrow> client \<Rightarrow> driver \<Rightarrow> bool" where
  "in_step tot concurrency c s \<longleftrightarrow> driver_inv tot concurrency s \<and>
     launched s = int (length (started c)) \<and> finished s = int (length (invoked (eng c))) \<and>
     failed s = int (length (filter (\<lambda>d. \<not> went_well d) (invoked (eng c))))"

lemma driven_reachable: "driven tot concurrency c s \<Longrightarrow>
    alive (tmr c) \<and> (\<exists>evs version max_pooled now. client_run evs (new_client version max_pooled now) = Inr c)"
proof (induction rule: driven.induct)
  case (driven_event c s ev c' s')
  then obtain evs version max_pooled now where "client_run evs (new_client version max_pooled now) = Inr c" by blast
  with driven_event.hyps(2) have "client_run (evs @ [ev]) (new_client version max_pooled now) = Inr c'"
    by (simp add: run_all_append)
  with driven_event.hyps(3) show ?case by blast
qed blast

lemma destroyed_dead:
  assumes "client_run evs (new_client version max_pooled now) = Inr c" "client_do (Destroy r k) c = Inr c'"
  shows "\<not> alive (tmr c')"
proof -
  from assms(2) have "alive (tmr c)" "destroy r k c = Inr c'" by (simp_all add: expect_Inr)
  with destroy_dead [OF alive_idle [OF reachable_client [OF assms(1)]], of r k] show ?thesis
    by (simp add: safely_def dead_client_def released_def)
qed

lemma driven_calls:
  assumes d: "driven tot concurrency c s" and e: "client_do ev c = Inr c'" "alive (tmr c')"
  shows "invoked (eng c') = invoked (eng c) @ newly_called c c'"
proof -
  from driven_reachable [OF d] obtain evs version max_pooled now where
    run: "client_run evs (new_client version max_pooled now) = Inr c" "alive (tmr c)" by blast
  have "idle_client (new_engine version max_pooled) c" by (rule alive_idle [OF reachable_client [OF run(1)] run(2)])
  then have "logging (invoked (eng c)) c"
    using busy_engine_inv [OF idle_busy] by (simp add: logging_def)
  moreover have "\<not> destroys ev" using destroyed_dead [OF run(1)] e by (cases ev) simp_all
  ultimately have "logging (invoked (eng c)) c'" using log.event_step e(1) by (auto dest: yieldsD)
  then show ?thesis by (auto simp: logging_def newly_called_def)
qed

lemma driven_in_step: "driven tot concurrency c s \<Longrightarrow> in_step tot concurrency c s"
proof (induction rule: driven.induct)
  case (driven_start ops version max_pooled now c s)
  have "driver_inv tot concurrency s"
    unfolding driven_start(3) by (simp add: driver_inv_def refill_driving refill_full)
  then show ?case using driven_start by (simp add: in_step_def new_driver_def)
next
  case (driven_event c s ev c' s')
  note calls = driven_calls [OF driven_event.hyps(1-3)]
  have "driver_inv tot concurrency s'"
    using drv.run_inv driven_event.hyps(4) driven_event.IH unfolding in_step_def by blast
  then show ?case
    using driven_event.IH driven_event.hyps(5) throughput_counts [OF driven_event.hyps(4)] calls
    by (simp add: in_step_def filter_map comp_def)
qed

section \<open>Properties\<close>

text \<open>
  The throughput benchmark does its work: at any time the requests the driver
  believes in flight are exactly those whose handlers the client still holds, never more than
  \<open>concurrency\<close>; and when the loop has run out of work, so that \<open>io.run()\<close> returns,
  all \<open>total\<close> requests have been made and answered, and \<open>failed\<close> counts the bad answers.
\<close>

theorem throughput_over_client:
  assumes "driven tot concurrency c s" "0 \<le> tot" "0 < concurrency"
  shows "in_flight s = int (size (held_handlers (eng c))) \<and> in_flight s \<le> concurrency \<and>
    (out_of_work c \<and> multi_waits c \<longrightarrow>
       finished s = tot \<and> int (length (started c)) = tot \<and>
       failed s = int (length (filter (\<lambda>d. \<not> went_well d) (invoked (eng c)))))"
proof -
  from driven_reachable [OF assms(1)] obtain evs version max_pooled now where
    run: "client_run evs (new_client version max_pooled now) = Inr c" "alive (tmr c)" by blast
  have st: "in_step tot concurrency c s" by (rule driven_in_step [OF assms(1)])
  from client_ledger [OF run]
  have "size (held_handlers (eng c)) + size (called_handlers (eng c)) = length (started c)"
    by (metis size_mset size_union)
  moreover have "size (called_handlers (eng c)) = length (invoked (eng c))"
    by (simp add: called_handlers_def)
  ultimately have held: "in_flight s = int (size (held_handlers (eng c)))"
    using st by (simp add: in_step_def driver_inv_def driving_def)
  moreover have "in_flight s \<le> concurrency" using st assms(3) by (simp add: in_step_def driver_inv_def driving_def)
  moreover have "finished s = tot" if w: "out_of_work c" "multi_waits c"
  proof -
    have "transfers (eng c) = []"
      by (rule in_multi_work [OF alive_idle [OF reachable_client [OF run(1)] run(2)] w(2,1)])
    moreover have "posted (eng c) = []" using w(1) by (simp add: out_of_work_def)
    ultimately have "in_flight s = 0" using held by (simp add: held_handlers_def waiting_def)
    then show ?thesis using st assms(2,3) by (simp add: in_step_def driver_inv_def driving_def)
  qed
  ultimately show ?thesis
    using st by (auto simp: in_step_def driver_inv_def driving_def held)
qed

text \<open>One request, of one: it is sent, and answered in the first event.\<close>

definition lone_start :: user_op where
  "lone_start = Start_request (sample_answers 7 70) (async_get ''u'') (sample_handler 1) [Timeout_act 0 0]"

theorem throughput_over_client_witness:
  "\<exists>c s. driven 1 1 c s \<and> finished s = 1 \<and> failed s = 0"
proof -
  let ?c = "sample_client [User lone_start]" and ?c' = "sample_client [User lone_start, lone_answer]"
  let ?s = "refill 1 1 new_driver" and ?s' = "projr (on_done 1 1 True (refill 1 1 new_driver))"
  have "client_run (map User [lone_start]) (new_client 0x080000 1 0) = Inr ?c"
    "invoked (eng ?c) = []" "alive (tmr ?c)" "int (length (started ?c)) = launched ?s"
    by (simp_all add: lone_start_def client_eval refill.simps new_driver_def)
  from driven_start [OF this(1,2) refl this(3,4)] have 1: "driven 1 1 ?c ?s" .
  have 2: "client_do lone_answer ?c = Inr ?c'" "alive (tmr ?c')" "map went_well (newly_called ?c ?c') = [True]"
    "int (length (started ?c')) - int (length (started ?c)) = launched ?s' - launched ?s"
    "out_of_work ?c'" "multi_waits ?c'" "filter (\<lambda>d. \<not> went_well d) (invoked (eng ?c')) = []"
    by (simp_all add: lone_start_def lone_answer_def client_eval refill.simps new_driver_def on_done_def
        newly_called_def went_well_def is_ok_def out_of_work_def multi_waits_def)
  have "run_all (on_done 1 1) (map went_well (newly_called ?c ?c')) ?s = Inr ?s'"
    unfolding 2(3) by (simp add: refill.simps new_driver_def on_done_def)
  from driven_event [OF 1 2(1,2) this 2(4)] have "driven 1 1 ?c' ?s'" .
  with throughput_over_client [OF this] 2(5-7) show ?thesis by auto
qed

end
