(* ===== verification/Drivers_Client.thy ===== *)
theory Drivers_Client
  imports Program_Client Driver_Programs Bench_Client
begin

text \<open>
  The programs of \<open>bench/bench_cofetch.cpp\<close> and coroutines on the model of the client. A client
  serves every program that keeps a \<open>program_contract\<close> (\<open>client_program\<close>); the \<open>refill\<close> loop, the
  chain of callbacks and coroutines do.
\<close>

section \<open>Programs with a contract\<close>

locale client_program = program_contract prog good pending
  for prog :: "(completion, request \<times> completion_handler, 'p) program" and good and pending

sublocale client_program \<subseteq> srv: hosted client_step hosting calls_of asks_of "\<lambda>c. held_handlers (eng c)" snd fst
  prog good pending
  by unfold_locales

context client_program
begin

lemma served:
  assumes "runs_on prog c p"
  obtains rs where "outcome_after prog (calls_of c) = (p, rs)" "length (calls_of c) \<le> length rs" "good p"
    "pending p = size (held_handlers (eng c))" "out_of_work c \<Longrightarrow> multi_waits c \<Longrightarrow> pending p = 0"
    "held_handlers (eng c) + mset (map fst (calls_of c)) = mset (map snd rs)"
proof -
  from assms obtain version max_pooled now where
    h: "hosts client_step calls_of asks_of prog (new_client version max_pooled now) c p" by (auto simp: runs_on_def)
  obtain rs where rs: "outcome_after prog (calls_of c) = (p, rs)"
    using runs_on_result [OF assms] by (metis prod.collapse)
  with runs_on_result [OF assms] srv.hosted_good [OF h new_client_hosting] drained [of c] that show thesis
    by (simp add: rs)
qed

end

section \<open>Coroutines\<close>

text \<open>
  What is awaited is a request, and the slot its handler can be cancelled by. \<open>use_awaitable\<close> throws
  the error code or returns the response, \<open>as_tuple\<close> returns both. An exception that leaves the
  coroutine is dropped, as it is spawned \<open>detached\<close>.
\<close>

type_synonym 'p coroutine = "(request \<times> slot_ref option, completion, error_code, 'p) coro"

fun awaited :: "nat \<Rightarrow> request \<times> slot_ref option \<Rightarrow> request \<times> completion_handler" where
  "awaited n (r, slot) = (r, \<lparr>hid = n, cancel_slot = slot\<rparr>)"

definition thrown :: "completion \<Rightarrow> error_code option" where
  "thrown d = (case d of (h, ec, res) \<Rightarrow> if ec_set ec then Some ec else None)"

definition use_awaitable :: "request \<Rightarrow> (response \<Rightarrow> 'p coroutine) \<Rightarrow> 'p coroutine" where
  "use_awaitable r k = Await (r, None) (\<lambda>d. case thrown d of Some ec \<Rightarrow> Threw ec | None \<Rightarrow> k (snd (snd d)))"

definition as_tuple :: "request \<times> slot_ref option \<Rightarrow> (error_code \<Rightarrow> response \<Rightarrow> 'p coroutine) \<Rightarrow> 'p coroutine" where
  "as_tuple q k = Await q (\<lambda>(h, ec, res). k ec res)"

abbreviation spawned :: "'p coroutine \<Rightarrow> 'p \<Rightarrow>
    (completion, request \<times> completion_handler, (request \<times> slot_ref option, completion, error_code, 'p) coro_state) program" where
  "spawned \<equiv> coro_program awaited"

interpretation coc: client_program "spawned co p" "\<lambda>_. True" suspended for co p
  by unfold_locales

lemma spawned_served:
  assumes "runs_on (spawned co p) c s"
  shows "run_coro co (calls_of c) p = (shared s, rest s, [])" "suspended s = size (held_handlers (eng c))"
    "awaits s = length (calls_of c) + suspended s" "out_of_work c \<Longrightarrow> multi_waits c \<Longrightarrow> \<not> waits (rest s)"
proof -
  obtain rs where rs: "outcome_after (spawned co p) (calls_of c) = (s, rs)" "length (calls_of c) \<le> length rs"
    "suspended s = size (held_handlers (eng c))" "out_of_work c \<Longrightarrow> multi_waits c \<Longrightarrow> suspended s = 0"
    using coc.served [OF assms] by metis
  from outcome_coro [OF rs(1,2)] rs(3)
  show "run_coro co (calls_of c) p = (shared s, rest s, [])" "suspended s = size (held_handlers (eng c))"
    "awaits s = length (calls_of c) + suspended s" by simp_all
  show "\<not> waits (rest s)" if "out_of_work c" "multi_waits c"
    using rs(4) [OF that] by (simp add: suspended_def split: if_splits)
qed

text \<open>
  C9: A coroutine has at most one request in flight, exactly when it is suspended; what it has done
  is what its code does on the answers the client gave, in their order; and \<open>io.run()\<close> does not
  return before the coroutine has come to its end or thrown.
\<close>

theorem coroutines_finish:
  assumes "runs_on (spawned co p) c s"
  shows "size (held_handlers (eng c)) = (if waits (rest s) then 1 else 0) \<and>
    awaits s = length (calls_of c) + size (held_handlers (eng c)) \<and>
    run_coro co (calls_of c) p = (shared s, rest s, []) \<and>
    (out_of_work c \<and> multi_waits c \<longrightarrow> \<not> waits (rest s))"
  using spawned_served [OF assms] by (auto simp: suspended_def)

definition sample_coroutine :: "nat coroutine" where
  "sample_coroutine = use_awaitable (async_get ''u/'') (\<lambda>res. Act (\<lambda>n. n + length (data res)) Finished)"

theorem coroutines_finish_witness:
  "\<exists>s. runs_on (spawned sample_coroutine 0) lone_client s \<and> shared s = 2 \<and> \<not> waits (rest s)"
proof -
  let ?s = "\<lparr>shared = 2, rest = Finished, awaits = 1\<rparr>"
  have 1: "runs_on (spawned sample_coroutine 0) lone_client ?s"
    by (rule lone_served) (simp_all add: coro_program_def resume_def sample_coroutine_def use_awaitable_def
        thrown_def lone_completion_def plain_handler_def)
  from coroutines_finish [OF 1] 1 show ?thesis by (intro exI [of _ ?s]) simp
qed

section \<open>The drivers\<close>

text \<open>The \<open>n\<close>th request of a driver, with its handler.\<close>

definition get_url :: "string \<Rightarrow> nat \<Rightarrow> request \<times> completion_handler" where
  "get_url url n = (async_get url, plain_handler n)"

definition cofetch_throughput :: "string \<Rightarrow> int \<Rightarrow> int \<Rightarrow> (completion, request \<times> completion_handler, driver) program" where
  "cofetch_throughput url tot concurrency = throughput_program went_well (get_url url) tot concurrency"

definition cofetch_callbacks :: "string \<Rightarrow> int \<Rightarrow> (completion, request \<times> completion_handler, chain_state) program" where
  "cofetch_callbacks url tot = callback_program went_well (get_url url) tot"

definition cofetch_coroutine :: "string \<Rightarrow> int \<Rightarrow> nat coroutine" where
  "cofetch_coroutine url tot = chain_loop (async_get url, None) thrown (\<lambda>d. is_ok (snd (snd d))) tot 0"

interpretation cth: client_program "cofetch_throughput url tot concurrency" "refilling tot concurrency"
  "\<lambda>s. nat (driver.in_flight s)" for url tot concurrency
  unfolding cofetch_throughput_def by unfold_locales

interpretation ccb: client_program "cofetch_callbacks url tot" "chained tot" "links_pending tot" for url tot
  unfolding cofetch_callbacks_def by unfold_locales

text \<open>The loop as it is written, with \<open>use_awaitable\<close>.\<close>

lemma cofetch_coroutine_code:
  "chain_loop (async_get url, None) thrown (\<lambda>d. is_ok (snd (snd d))) tot i =
     (if i < tot
      then use_awaitable (async_get url) (\<lambda>res. Act (\<lambda>failed. if is_ok res then failed else failed + 1)
        (chain_loop (async_get url, None) thrown (\<lambda>d. is_ok (snd (snd d))) tot (i + 1)))
      else Finished)"
  by (subst chain_loop.simps) (simp add: use_awaitable_def)

text \<open>When the chain of callbacks has no link pending, it has come to its end.\<close>

lemma failures_of: "failures (\<lambda>j. P (xs ! j)) (length xs) = length (filter (\<lambda>x. \<not> P x) xs)"
  unfolding failures_def by (subst (2) map_nth [of xs, symmetric], subst filter_map) (simp add: comp_def)

lemma callbacks_ended:
  assumes "runs_on (cofetch_callbacks url tot) c s" "links_pending tot s = 0"
  shows "sent s = max 1 (nat tot) \<and> length (calls_of c) = sent s \<and>
    chain_failed s = length (filter (\<lambda>d. \<not> went_well d) (calls_of c))"
proof -
  obtain rs where rs: "outcome_after (cofetch_callbacks url tot) (calls_of c) = (s, rs)" "length (calls_of c) \<le> length rs"
    using ccb.served [OF assms(1)] by metis
  let ?ok = "\<lambda>j. went_well (calls_of c ! j)"
  from outcome_callbacks [OF rs [unfolded cofetch_callbacks_def]] assms(2)
  have o: "s = callback_chain ?ok 0 (chain_next (new_chain tot))" "length (calls_of c) = sent s" by simp_all
  from callback_chain_result [of "chain_next (new_chain tot)" 0 ?ok]
  have "sent s = max 1 (nat tot)" "chain_failed s = failures ?ok (max 1 (nat tot))"
    unfolding o(1) by (simp_all add: chain_next_def new_chain_def)
  with o(2) failures_of [of went_well "calls_of c"] show ?thesis by simp
qed

text \<open>A chain of no links sends one request.\<close>

lemma callbacks_empty:
  assumes "runs_on (cofetch_callbacks url tot) c s" "tot \<le> 0"
  shows "sent s = 1"
proof (cases "links_pending tot s = 0")
  case True
  with callbacks_ended [OF assms(1)] assms(2) show ?thesis by simp
next
  case False
  obtain rs where "chained tot s" using ccb.served [OF assms(1)] by metis
  with False assms(2) show ?thesis by (auto simp: chained_def links_pending_def)
qed

text \<open>What \<open>co_await\<close> throws.\<close>

lemma thrown_iff:
  "thrown d = None \<longleftrightarrow> \<not> ec_set (fst (snd d))" "ec_set (fst (snd d)) \<Longrightarrow> thrown d = Some (fst (snd d))"
  by (cases d; simp add: thrown_def)+

text \<open>The coroutine ends after the last request, or with the first error code.\<close>

lemma coroutine_ended:
  assumes "runs_on (spawned (cofetch_coroutine url tot) 0) c k" "out_of_work c" "multi_waits c"
  shows "awaits k = length (calls_of c) \<and> awaits k \<le> nat tot \<and>
    shared k = length (filter (\<lambda>(h, ec, res). \<not> ec_set ec \<and> \<not> is_ok res) (calls_of c)) \<and>
    (if \<exists>d\<in>set (calls_of c). ec_set (fst (snd d))
     then (\<forall>d\<in>set (butlast (calls_of c)). \<not> ec_set (fst (snd d))) \<and> rest k = Threw (fst (snd (last (calls_of c))))
     else awaits k = nat tot \<and> rest k = Finished)"
proof -
  note k = spawned_served [OF assms(1)]
  have w: "\<not> waits (rest k)" using k(4) assms by blast
  note e = chain_loop_ends [OF k(1) [unfolded cofetch_coroutine_def] w]
  have n: "awaits k = length (calls_of c)" using k(3) w by (simp add: suspended_def)
  have "(\<lambda>d. thrown d = None \<and> \<not> is_ok (snd (snd d))) = (\<lambda>(h, ec, res). \<not> ec_set ec \<and> \<not> is_ok res)"
    by (auto simp: fun_eq_iff thrown_iff)
  with e have "shared k = length (filter (\<lambda>(h, ec, res). \<not> ec_set ec \<and> \<not> is_ok res) (calls_of c))" "awaits k \<le> nat tot"
    by (simp_all add: n)
  moreover have "(\<forall>d\<in>set (butlast (calls_of c)). \<not> ec_set (fst (snd d))) \<and> rest k = Threw (fst (snd (last (calls_of c))))"
    if "d \<in> set (calls_of c)" "ec_set (fst (snd d))" for d
  proof -
    have "\<exists>d\<in>set (calls_of c). thrown d \<noteq> None" using that by (auto simp: thrown_iff)
    from e [THEN conjunct2, THEN conjunct2, unfolded if_P [OF this]]
    have b: "\<forall>d\<in>set (butlast (calls_of c)). \<not> ec_set (fst (snd d))"
      "rest k = Threw (the (thrown (last (calls_of c))))" by (simp_all add: thrown_iff)
    have "calls_of c = butlast (calls_of c) @ [last (calls_of c)]" using that(1) by (cases "calls_of c" rule: rev_cases) simp_all
    with that b(1) have "d = last (calls_of c)" by (metis Un_iff empty_iff list.set(1) set_ConsD set_append)
    with b that(2) show ?thesis by (simp add: thrown_iff)
  qed
  moreover have "awaits k = nat tot \<and> rest k = Finished" if "\<not> (\<exists>d\<in>set (calls_of c). ec_set (fst (snd d)))"
    using e n that by (auto simp: thrown_iff)
  ultimately show ?thesis using n by auto
qed

text \<open>
  C37: The chain benchmarks over the client. When the loop has run out of work, the callbacks have
  sent \<open>total\<close> requests, or one if \<open>total\<close> is not positive; each has been answered, and \<open>failed\<close> is
  the number of answers with an error code or a bad response. The coroutine has sent at most
  \<open>total\<close>, each has been answered, and \<open>failed\<close> is the number of bad responses without an error code.
  If no answer had an error code it has sent all of \<open>total\<close> and come to its end; otherwise the only
  error code is that of the last answer, and is the exception that ended it.
\<close>

theorem chains_over_client:
  assumes "out_of_work c" "multi_waits c"
  shows "(runs_on (cofetch_callbacks url tot) c s \<longrightarrow>
      sent s = max 1 (nat tot) \<and> length (calls_of c) = sent s \<and>
      chain_failed s = length (filter (\<lambda>(h, ec, res). ec_set ec \<or> \<not> is_ok res) (calls_of c))) \<and>
    (runs_on (spawned (cofetch_coroutine url tot) 0) c k \<longrightarrow>
      awaits k = length (calls_of c) \<and> awaits k \<le> nat tot \<and>
      shared k = length (filter (\<lambda>(h, ec, res). \<not> ec_set ec \<and> \<not> is_ok res) (calls_of c)) \<and>
      (if \<exists>d\<in>set (calls_of c). ec_set (fst (snd d))
       then (\<forall>d\<in>set (butlast (calls_of c)). \<not> ec_set (fst (snd d))) \<and> rest k = Threw (fst (snd (last (calls_of c))))
       else awaits k = nat tot \<and> rest k = Finished))"
proof (intro conjI [of "_ \<longrightarrow> _"] impI)
  assume r: "runs_on (cofetch_callbacks url tot) c s"
  have "links_pending tot s = 0" using ccb.served [OF r] assms by metis
  note e = callbacks_ended [OF r this]
  have "(\<lambda>d. \<not> went_well d) = (\<lambda>(h, ec, res). ec_set ec \<or> \<not> is_ok res)" by (auto simp: went_well_def fun_eq_iff)
  with e show "sent s = max 1 (nat tot) \<and> length (calls_of c) = sent s \<and>
      chain_failed s = length (filter (\<lambda>(h, ec, res). ec_set ec \<or> \<not> is_ok res) (calls_of c))" by simp
qed (use coroutine_ended assms in blast)+

theorem chains_over_client_witness:
  "\<exists>s k. runs_on (cofetch_callbacks ''u/'' 0) lone_client s \<and> sent s = 1 \<and> chain_failed s = 0 \<and>
     runs_on (spawned (cofetch_coroutine ''u/'' 1) 0) lone_client k \<and> awaits k = 1 \<and> rest k = Finished"
proof -
  let ?s = "\<lparr>remaining = -1, sent = 1, chain_failed = 0\<rparr>" and ?k = "\<lparr>shared = 0, rest = Finished, awaits = 1\<rparr>"
  have 1: "runs_on (cofetch_callbacks ''u/'' 0) lone_client ?s"
    by (rule lone_served) (simp_all add: cofetch_callbacks_def callback_program_def get_url_def chain_next_def
        new_chain_def links_pending_def chain_done_def lone_completion_def went_well_def is_ok_def)
  have 2: "runs_on (spawned (cofetch_coroutine ''u/'' 1) 0) lone_client ?k"
    by (rule lone_served) (simp_all add: cofetch_coroutine_def coro_program_def resume_def chain_loop.simps
        thrown_def lone_completion_def plain_handler_def is_ok_def)
  from chains_over_client [of lone_client "''u/''" 0 ?s ?k] chains_over_client [of lone_client "''u/''" 1 ?s ?k] 1 2
  have "sent ?s = 1 \<and> chain_failed ?s = 0 \<and> awaits ?k = 1 \<and> rest ?k = Finished"
    by (simp add: lone_completion_def is_ok_def)
  with 1 2 show ?thesis by blast
qed

text \<open>The \<open>refill\<close> loop on the client, as a program.\<close>

lemma throughput_served:
  assumes "runs_on (cofetch_throughput url tot concurrency) c s"
  shows "run_throughput tot concurrency (map went_well (calls_of c)) = Inr s \<and>
    nat (driver.in_flight s) = size (held_handlers (eng c)) \<and> (out_of_work c \<and> multi_waits c \<longrightarrow> driver.in_flight s = 0)"
proof -
  obtain rs where rs: "outcome_after (cofetch_throughput url tot concurrency) (calls_of c) = (s, rs)"
    "length (calls_of c) \<le> length rs" "refilling tot concurrency s" "nat (driver.in_flight s) = size (held_handlers (eng c))"
    "out_of_work c \<Longrightarrow> multi_waits c \<Longrightarrow> nat (driver.in_flight s) = 0"
    using cth.served [OF assms] by metis
  from outcome_throughput [OF rs(1,2) [unfolded cofetch_throughput_def]] refilling_launched [OF rs(3)] rs(4,5)
  show ?thesis by auto
qed

end
