(* ===== verification/Epoll_Baseline.thy ===== *)
theory Epoll_Baseline
  imports Easy_Options
begin

text \<open>
  The epoll client that the benchmarks compare against (\<open>bench/baseline/http_epoll.h\<close>): \<open>Http\<close>,
  its request builder, its pool of easy handles and its own event loop over \<open>epoll\<close>.

  List nodes are objects at addresses as in \<open>Transfers\<close>. \<open>eh_pool\<close> is the vector with its back
  last; an entry is \<open>None\<close> where \<open>curl_easy_init\<close> returned a null pointer, which the code does not
  check. What other code sees is part of the state: the option logs, the handles in the multi,
  the kernel's interest list (\<open>epoll_set\<close>), the allocated header lists (\<open>slists\<close>), the calls of
  \<open>curl_multi_socket_action\<close> (\<open>None\<close> is \<open>CURL_SOCKET_TIMEOUT\<close>) and the callbacks called. \<open>h_made\<close>
  (the handles created), \<open>interest\<close> (what libcurl last asked for), \<open>peak\<close> (the most requests
  alive at once), \<open>wire\<close> (the bytes libcurl received, by handle and part of the response), \<open>i_from\<close>
  (where in \<open>wire\<close> a request began) and \<open>i_submitted\<close> are kept for the properties; no operation reads them, apart
  from the contracts of callers.
\<close>

section \<open>State\<close>

record response_info =
  ri_curl_code :: curlcode
  ri_http_code :: int
  ri_data :: string
  ri_header_data :: string
  ri_custom_data :: nat

definition ri_is_ok :: "response_info \<Rightarrow> bool" where
  "ri_is_ok r \<longleftrightarrow> ri_curl_code r = CURLE_OK \<and> ri_http_code r \<ge> 200 \<and> ri_http_code r < 300"

record request_info =
  i_eh :: handle
  i_header_list :: "string list"
  i_buffer :: string
  i_header_buffer :: string
  i_body :: string
  i_callback :: nat
  i_custom_data :: nat
  i_self :: addr
  i_submitted :: bool
  i_from :: nat

datatype part = Head | Body

record http =
  infos :: "addr \<Rightarrow> request_info option"
  request_infos :: "addr list"
  eh_pool :: "handle option list"
  handle_count :: int
  h_opts :: "handle \<Rightarrow> setopt list"
  h_multi :: "handle list"
  h_made :: "handle list"
  fd_set :: "int set"
  epoll_set :: "int \<Rightarrow> 32 word option"
  interest :: "int \<Rightarrow> int option"
  slists :: "string list list"
  socket_actions :: "int option list"
  called :: "(nat \<times> response_info) list"
  peak :: nat
  wire :: "(handle \<times> part \<times> string) list"

definition HTTP_POOL :: nat where
  "HTTP_POOL = 128"

definition RequestInfo :: "handle \<Rightarrow> nat \<Rightarrow> nat \<Rightarrow> addr \<Rightarrow> nat \<Rightarrow> request_info" where
  "RequestInfo e fn custom_data it from = \<lparr>i_eh = e, i_header_list = [], i_buffer = [], i_header_buffer = [],
     i_body = [], i_callback = fn, i_custom_data = custom_data, i_self = it, i_submitted = False,
     i_from = from\<rparr>"

text \<open>The constructor; \<open>inits\<close> are the results of its calls of \<open>curl_easy_init\<close>.\<close>

definition new_http :: "handle option list \<Rightarrow> http" where
  "new_http inits = \<lparr>infos = (\<lambda>_. None), request_infos = [], eh_pool = take HTTP_POOL inits,
     handle_count = 0, h_opts = (\<lambda>_. []), h_multi = [],
     h_made = List.map_filter (\<lambda>h. h) (take HTTP_POOL inits), fd_set = {},
     epoll_set = (\<lambda>_. None), interest = (\<lambda>_. None), slists = [], socket_actions = [], called = [],
     peak = 0, wire = []\<rparr>"

section \<open>Building a request\<close>

abbreviation put_info :: "addr \<Rightarrow> request_info \<Rightarrow> http \<Rightarrow> http" where
  "put_info a i h \<equiv> h\<lparr>infos := (infos h)(a := Some i)\<rparr>"

definition http_setopts :: "handle \<Rightarrow> setopt list \<Rightarrow> http \<Rightarrow> http" where
  "http_setopts e calls h = h\<lparr>h_opts := (h_opts h)(e := h_opts h e @ calls)\<rparr>"

text \<open>
  The first part of \<open>request\<close>. Resetting, or setting options on, a null handle is \<open>Undefined\<close>.
\<close>

definition draw_handle :: "handle option \<Rightarrow> http \<Rightarrow> (handle \<times> http) outcome" where
  "draw_handle init h =
     (if eh_pool h = [] then
        (case init of
           None \<Rightarrow> Inl Undefined
         | Some e \<Rightarrow> Inr (e, h\<lparr>h_made := e # h_made h, h_opts := (h_opts h)(e := [])\<rparr>))
      else
        (case last (eh_pool h) of
           None \<Rightarrow> Inl Undefined
         | Some e \<Rightarrow> Inr (e, h\<lparr>eh_pool := butlast (eh_pool h), h_opts := (h_opts h)(e := [])\<rparr>)))"

definition request_opts :: "addr \<Rightarrow> string \<Rightarrow> setopt list" where
  "request_opts it url =
     [(CURLOPT_WRITEDATA, Buffer_ptr it),
      (CURLOPT_WRITEFUNCTION, Fn Write_fn),
      (CURLOPT_URL, Str (c_str url)),
      (CURLOPT_PRIVATE, Info_ptr it),
      (CURLOPT_TIMEOUT, Long 5),
      (CURLOPT_NOSIGNAL, Long 1),
      (CURLOPT_MAXLIFETIME_CONN, Long 30),
      (CURLOPT_POSTFIELDS, Str [])]"

definition http_request ::
    "handle option \<Rightarrow> addr \<Rightarrow> string \<Rightarrow> nat \<Rightarrow> nat \<Rightarrow> http \<Rightarrow> http outcome" where
  "http_request init it url fn custom_data h = and_then (draw_handle init h) (\<lambda>(e, h).
     let h = put_info it (RequestInfo e fn custom_data it (length (wire h)))
               (h\<lparr>request_infos := it # request_infos h,
                  peak := max (peak h) (length (request_infos h) + 1)\<rparr>)
     in Inr (http_setopts e (request_opts it url) h))"

definition epoll_set_headers ::
    "(string list \<Rightarrow> string \<Rightarrow> string list) \<Rightarrow> addr \<Rightarrow> string list \<Rightarrow> http \<Rightarrow> http outcome" where
  "epoll_set_headers slist_append it headers h = and_then (deref (infos h) it) (\<lambda>i.
     let chunk = foldl (\<lambda>chunk header. slist_append chunk (c_str header)) [] headers;
         h = http_setopts (i_eh i) [(CURLOPT_HTTPHEADER, if chunk = [] then Null else Slist chunk)] h;
         h = (if chunk = [] then h else h\<lparr>slists := chunk # slists h\<rparr>)
     in Inr (put_info it (i\<lparr>i_header_list := chunk\<rparr>) h))"

definition epoll_set_body :: "addr \<Rightarrow> string \<Rightarrow> http \<Rightarrow> http outcome" where
  "epoll_set_body it post_fields h = and_then (deref (infos h) it) (\<lambda>i.
     Inr (http_setopts (i_eh i) [(CURLOPT_POSTFIELDSIZE, Long (int (length post_fields))),
                                 (CURLOPT_POSTFIELDS, Body_ptr it)]
            (put_info it (i\<lparr>i_body := post_fields\<rparr>) h)))"

definition enable_response_headers :: "addr \<Rightarrow> http \<Rightarrow> http outcome" where
  "enable_response_headers it h = and_then (deref (infos h) it) (\<lambda>i.
     Inr (http_setopts (i_eh i) [(CURLOPT_HEADERDATA, Header_buffer_ptr it),
                                 (CURLOPT_HEADERFUNCTION, Fn Write_fn)] h))"

datatype epoll_verb = Epoll_get | Epoll_post | Epoll_del | Epoll_put

text \<open>The option call that \<open>get\<close>, \<open>post\<close>, \<open>del\<close> and \<open>put\<close> make before they submit.\<close>

fun verb_opts :: "epoll_verb \<Rightarrow> setopt list" where
  "verb_opts Epoll_get = [(CURLOPT_HTTPGET, Long 1)]"
| "verb_opts Epoll_post = [(CURLOPT_POST, Long 1)]"
| "verb_opts Epoll_del = [(CURLOPT_CUSTOMREQUEST, Str ''DELETE'')]"
| "verb_opts Epoll_put = [(CURLOPT_CUSTOMREQUEST, Str ''PUT'')]"

section \<open>Sockets\<close>

abbreviation (input) EPOLLIN :: "32 word" where "EPOLLIN \<equiv> 1"
abbreviation (input) EPOLLOUT :: "32 word" where "EPOLLOUT \<equiv> 4"

definition e_table :: "32 word list" where
  "e_table = [0, EPOLLIN, EPOLLOUT, or EPOLLIN EPOLLOUT]"

abbreviation (input) EPOLL_REMOVE :: int where "EPOLL_REMOVE \<equiv> 4"

text \<open>
  \<open>epoll_ctl\<close>: adding a descriptor that is there and modifying one that is not fail and change
  nothing; the code ignores its result.
\<close>

datatype ctl = EPOLL_CTL_ADD | EPOLL_CTL_MOD | EPOLL_CTL_DEL

fun epoll_ctl :: "ctl \<Rightarrow> int \<Rightarrow> 32 word \<Rightarrow> (int \<Rightarrow> 32 word option) \<Rightarrow> int \<Rightarrow> 32 word option" where
  "epoll_ctl EPOLL_CTL_ADD s ev E = (if E s = None then E(s := Some ev) else E)"
| "epoll_ctl EPOLL_CTL_MOD s ev E = (if E s = None then E else E(s := Some ev))"
| "epoll_ctl EPOLL_CTL_DEL s ev E = E(s := None)"

definition socket_fn :: "int \<Rightarrow> int \<Rightarrow> http \<Rightarrow> http outcome" where
  "socket_fn s epe h =
     (if epe = EPOLL_REMOVE then
        Inr (h\<lparr>epoll_set := epoll_ctl EPOLL_CTL_DEL s 0 (epoll_set h), fd_set := fd_set h - {s}\<rparr>)
      else if 0 \<le> epe \<and> epe < int (length e_table) then
        (let ev = e_table ! nat epe
         in if s \<notin> fd_set h
            then Inr (h\<lparr>epoll_set := epoll_ctl EPOLL_CTL_ADD s ev (epoll_set h),
                        fd_set := insert s (fd_set h)\<rparr>)
            else Inr (h\<lparr>epoll_set := epoll_ctl EPOLL_CTL_MOD s ev (epoll_set h)\<rparr>))
      else Inl Undefined)"

section \<open>Inside a call of libcurl\<close>

text \<open>\<open>write_fn\<close>, reached through the pointer the handle was given, and the response header's.\<close>

definition write_body :: "handle \<Rightarrow> string \<Rightarrow> http \<Rightarrow> http outcome" where
  "write_body e bytes h =
     (case (last_set (h_opts h e) CURLOPT_WRITEFUNCTION, last_set (h_opts h e) CURLOPT_WRITEDATA) of
        (Some (Fn Write_fn), Some (Buffer_ptr a)) \<Rightarrow> and_then (deref (infos h) a) (\<lambda>i.
          Inr (put_info a (i\<lparr>i_buffer := i_buffer i @ bytes\<rparr>) h))
      | _ \<Rightarrow> Inl Undefined)"

definition write_header :: "handle \<Rightarrow> string \<Rightarrow> http \<Rightarrow> http outcome" where
  "write_header e bytes h =
     (case (last_set (h_opts h e) CURLOPT_HEADERFUNCTION, last_set (h_opts h e) CURLOPT_HEADERDATA) of
        (None, None) \<Rightarrow> Inr h
      | (Some (Fn Write_fn), Some (Header_buffer_ptr a)) \<Rightarrow> and_then (deref (infos h) a) (\<lambda>i.
          Inr (put_info a (i\<lparr>i_header_buffer := i_header_buffer i @ bytes\<rparr>) h))
      | _ \<Rightarrow> Inl Undefined)"

datatype http_act =
    Socket_wanted int int
  | Body_data handle string
  | Header_data handle string

text \<open>libcurl passes the documented interests, and data for handles in the multi.\<close>

fun do_http_act :: "http_act \<Rightarrow> http \<Rightarrow> http outcome" where
  "do_http_act (Socket_wanted s epe) h = expect (0 \<le> epe \<and> epe \<le> 4) (and_then (socket_fn s epe h) (\<lambda>h.
     Inr (h\<lparr>interest := (interest h)(s := if epe = EPOLL_REMOVE then None else Some epe)\<rparr>)))"
| "do_http_act (Body_data e bytes) h = expect (e \<in> set (h_multi h))
     (write_body e bytes (h\<lparr>wire := wire h @ [(e, Body, bytes)]\<rparr>))"
| "do_http_act (Header_data e bytes) h = expect (e \<in> set (h_multi h))
     (write_header e bytes (h\<lparr>wire := wire h @ [(e, Head, bytes)]\<rparr>))"

abbreviation http_acts :: "http_act list \<Rightarrow> http \<Rightarrow> http outcome" where
  "http_acts \<equiv> run_all do_http_act"

text \<open>\<open>curl_multi_socket_action\<close> with its callbacks and the count it writes.\<close>

definition http_action :: "int option \<Rightarrow> http_act list \<times> int \<Rightarrow> http \<Rightarrow> http outcome" where
  "http_action s answer h = (case answer of (acts, n) \<Rightarrow>
     and_then (http_acts acts (h\<lparr>socket_actions := socket_actions h @ [s]\<rparr>)) (\<lambda>h.
       Inr (h\<lparr>handle_count := n\<rparr>)))"

section \<open>Progress\<close>

text \<open>
  What \<open>epoll_wait\<close> reports in \<open>process_events\<close>: an error (\<open>-1\<close>), nothing, or some of the
  descriptors of the interest list, at most \<open>HTTP_POOL\<close> of them; with libcurl's answers.
\<close>

datatype wait_answer =
    Wait_failed
  | Wait_idle "http_act list \<times> int"
  | Wait_ready "(int \<times> http_act list \<times> int) list"

fun wait_contract :: "wait_answer \<Rightarrow> http \<Rightarrow> bool" where
  "wait_contract Wait_failed h = True"
| "wait_contract (Wait_idle answer) h = True"
| "wait_contract (Wait_ready evs) h \<longleftrightarrow> evs \<noteq> [] \<and> length evs \<le> HTTP_POOL \<and> distinct (map fst evs) \<and>
     (\<forall>ev\<in>set evs. epoll_set h (fst ev) \<noteq> None)"

fun wait_handler :: "wait_answer \<Rightarrow> http \<Rightarrow> http outcome" where
  "wait_handler Wait_failed h = Inr h"
| "wait_handler (Wait_idle answer) h = http_action None answer h"
| "wait_handler (Wait_ready evs) h = run_all (\<lambda>(s, answer). http_action (Some s) answer) evs h"

definition process_events :: "wait_answer \<Rightarrow> http \<Rightarrow> http outcome" where
  "process_events w h = expect (wait_contract w h) (wait_handler w h)"

text \<open>
  \<open>submit\<close>; \<open>rc\<close> is the result of \<open>curl_multi_add_handle\<close>, which the code ignores.
\<close>

definition submit :: "handle \<Rightarrow> curlmcode \<Rightarrow> http_act list \<times> int \<Rightarrow> wait_answer \<Rightarrow> http \<Rightarrow> http outcome" where
  "submit e rc answer w h =
     and_then (http_action None answer (if rc = CURLM_OK then h\<lparr>h_multi := e # h_multi h\<rparr> else h))
       (process_events w)"

definition epoll_send ::
    "epoll_verb \<Rightarrow> addr \<Rightarrow> curlmcode \<Rightarrow> http_act list \<times> int \<Rightarrow> wait_answer \<Rightarrow> http \<Rightarrow> http outcome" where
  "epoll_send v it rc answer w h = and_then (deref (infos h) it) (\<lambda>i.
     submit (i_eh i) rc answer w
       (put_info it (i\<lparr>i_submitted := True\<rparr>) (http_setopts (i_eh i) (verb_opts v) h)))"

section \<open>What users do\<close>

text \<open>
  A builder may be used until its request is submitted; this is the user's contract. The node
  is fresh, and so is a handle \<open>curl_easy_init\<close> returns.
\<close>

datatype http_user =
    New_request "handle option" addr string nat nat
  | Set_headers "string list \<Rightarrow> string \<Rightarrow> string list" addr "string list"
  | Set_body addr string
  | Enable_headers addr
  | Send epoll_verb addr curlmcode "http_act list \<times> int" wait_answer

definition buildable :: "addr \<Rightarrow> http \<Rightarrow> bool" where
  "buildable it h = (case infos h it of None \<Rightarrow> False | Some i \<Rightarrow> \<not> i_submitted i)"

fun do_http_user :: "http_user \<Rightarrow> http \<Rightarrow> http outcome" where
  "do_http_user (New_request init it url fn custom_data) h =
     expect (infos h it = None \<and> (\<forall>e. init = Some e \<longrightarrow> e \<notin> set (h_made h)))
       (http_request init it url fn custom_data h)"
| "do_http_user (Set_headers slist_append it hs) h =
     expect (buildable it h) (epoll_set_headers slist_append it hs h)"
| "do_http_user (Set_body it b) h = expect (buildable it h) (epoll_set_body it b h)"
| "do_http_user (Enable_headers it) h = expect (buildable it h) (enable_response_headers it h)"
| "do_http_user (Send v it rc answer w) h =
     expect (buildable it h) (epoll_send v it rc answer w h)"

abbreviation http_users :: "http_user list \<Rightarrow> http \<Rightarrow> http outcome" where
  "http_users \<equiv> run_all do_http_user"

section \<open>Completions\<close>

record http_message =
  hm_handle :: handle
  hm_result :: curlcode
  hm_response_code :: int

definition info_of :: "handle \<Rightarrow> http \<Rightarrow> addr outcome" where
  "info_of e h = (case last_set (h_opts h e) CURLOPT_PRIVATE of
     Some (Info_ptr a) \<Rightarrow> Inr a | _ \<Rightarrow> Inl Undefined)"

text \<open>\<open>curl_slist_free_all\<close>: freeing a list that is not allocated is \<open>Undefined\<close>.\<close>

definition slist_free_all :: "string list \<Rightarrow> http \<Rightarrow> http outcome" where
  "slist_free_all chunk h =
     (if chunk = [] then Inr h
      else if chunk \<in> set (slists h) then Inr (h\<lparr>slists := remove1 chunk (slists h)\<rparr>)
      else Inl Undefined)"

text \<open>
  The call of the callback with the moved buffers, and the statements after it, which read
  the node again and erase it through its own iterator.
\<close>

definition call_back :: "addr \<Rightarrow> curlcode \<Rightarrow> int \<Rightarrow> http \<Rightarrow> http outcome" where
  "call_back a curl_code http_code h = and_then (deref (infos h) a) (\<lambda>i.
     Inr (put_info a (i\<lparr>i_buffer := [], i_header_buffer := []\<rparr>)
       (h\<lparr>called := called h @ [(i_callback i, \<lparr>ri_curl_code = curl_code, ri_http_code = http_code,
          ri_data = i_buffer i, ri_header_data = i_header_buffer i,
          ri_custom_data = i_custom_data i\<rparr>)]\<rparr>)))"

definition finish :: "addr \<Rightarrow> http \<Rightarrow> http outcome" where
  "finish a h = and_then (deref (infos h) a) (\<lambda>i.
     and_then (slist_free_all (i_header_list i) h) (\<lambda>h.
       if i_self i \<notin> set (request_infos h) then Inl Undefined
       else Inr (h\<lparr>eh_pool := eh_pool h @ [Some (i_eh i)], infos := (infos h)(i_self i := None),
              request_infos := remove1 (i_self i) (request_infos h)\<rparr>)))"

text \<open>
  One iteration of \<open>multi_info_read\<close>: the message, libcurl's callbacks in
  \<open>curl_multi_remove_handle\<close>, and what the user's callback does; it does not call \<open>poll\<close>.
\<close>

type_synonym http_delivery = "http_message \<times> http_act list \<times> http_user list"

definition deliver :: "http_delivery \<Rightarrow> http \<Rightarrow> http outcome" where
  "deliver d h = (case d of (m, acts, ops) \<Rightarrow>
     expect (hm_handle m \<in> set (h_multi h))
       (and_then (info_of (hm_handle m) h) (\<lambda>a.
          and_then (http_acts acts (h\<lparr>h_multi := remove1 (hm_handle m) (h_multi h)\<rparr>)) (\<lambda>h.
            and_then (call_back a (hm_result m) (hm_response_code m) h) (\<lambda>h.
              and_then (http_users ops h) (finish a))))))"

abbreviation multi_info_read :: "http_delivery list \<Rightarrow> http \<Rightarrow> http outcome" where
  "multi_info_read \<equiv> run_all deliver"

definition http_poll :: "wait_answer \<Rightarrow> http_delivery list \<Rightarrow> http \<Rightarrow> http outcome" where
  "http_poll w ds h = and_then (process_events w h) (multi_info_read ds)"

definition epoll_pending_requests :: "http \<Rightarrow> int" where
  "epoll_pending_requests h = handle_count h"

section \<open>Destruction\<close>

text \<open>
  \<open>~Http\<close>: \<open>curl_multi_cleanup\<close> with its callbacks, then the members. No easy handle is
  cleaned up, neither of the pool nor of requests alive.
\<close>

definition http_destroy :: "http_act list \<Rightarrow> http \<Rightarrow> http outcome" where
  "http_destroy acts h = and_then (http_acts acts (h\<lparr>h_multi := []\<rparr>)) (\<lambda>h.
     Inr (h\<lparr>infos := (\<lambda>_. None), request_infos := [], eh_pool := [], fd_set := {}\<rparr>))"

section \<open>Runs\<close>

datatype http_event =
    Http_user http_user
  | Http_poll wait_answer "http_delivery list"

fun http_do :: "http_event \<Rightarrow> http \<Rightarrow> http outcome" where
  "http_do (Http_user op) h = do_http_user op h"
| "http_do (Http_poll w ds) h = http_poll w ds h"

abbreviation http_run :: "http_event list \<Rightarrow> http \<Rightarrow> http outcome" where
  "http_run \<equiv> run_all http_do"

end
