(* ===== verification/Epoll_Inv.thy ===== *)
theory Epoll_Inv
  imports Epoll_Baseline
begin

text \<open>
  The invariant of the epoll client, and that every operation keeps it: the list nodes, the
  ownership of easy handles, the pointers in the option logs, the multi, the header lists, the
  interest list of the kernel, and the size of the pool. Operations also keep what they find of
  a submitted request, and account for its callback.
\<close>

section \<open>The invariant\<close>

definition eh_of :: "http \<Rightarrow> addr \<Rightarrow> handle" where
  "eh_of h a = (case infos h a of None \<Rightarrow> 0 | Some i \<Rightarrow> i_eh i)"

definition callback_of :: "http \<Rightarrow> addr \<Rightarrow> nat" where
  "callback_of h a = (case infos h a of None \<Rightarrow> 0 | Some i \<Rightarrow> i_callback i)"

definition list_of :: "http \<Rightarrow> addr \<Rightarrow> string list" where
  "list_of h a = (case infos h a of None \<Rightarrow> [] | Some i \<Rightarrow> i_header_list i)"

definition info_nodes :: "http \<Rightarrow> bool" where
  "info_nodes h \<longleftrightarrow> distinct (request_infos h) \<and> (\<forall>a. infos h a \<noteq> None \<longleftrightarrow> a \<in> set (request_infos h)) \<and>
     (\<forall>a i. infos h a = Some i \<longrightarrow> i_self i = a)"

definition pool_ok :: "http \<Rightarrow> bool" where
  "pool_ok h \<longleftrightarrow> distinct (h_made h) \<and> None \<notin> set (eh_pool h) \<and>
     mset (map Some (h_made h)) = mset (eh_pool h) + mset (map (\<lambda>a. Some (eh_of h a)) (request_infos h))"

definition log_ok :: "addr \<Rightarrow> setopt list \<Rightarrow> bool" where
  "log_ok a log \<longleftrightarrow> last_set log CURLOPT_WRITEDATA = Some (Buffer_ptr a) \<and>
     last_set log CURLOPT_WRITEFUNCTION = Some (Fn Write_fn) \<and>
     last_set log CURLOPT_PRIVATE = Some (Info_ptr a) \<and>
     (last_set log CURLOPT_HEADERFUNCTION = None \<and> last_set log CURLOPT_HEADERDATA = None \<or>
      last_set log CURLOPT_HEADERFUNCTION = Some (Fn Write_fn) \<and>
      last_set log CURLOPT_HEADERDATA = Some (Header_buffer_ptr a))"

definition logs_ok :: "http \<Rightarrow> bool" where
  "logs_ok h \<longleftrightarrow> (\<forall>a\<in>set (request_infos h). log_ok a (h_opts h (eh_of h a)))"

definition submitted :: "http \<Rightarrow> addr \<Rightarrow> bool" where
  "submitted h a \<longleftrightarrow> (case infos h a of None \<Rightarrow> False | Some i \<Rightarrow> i_submitted i)"

definition multi_ok :: "http \<Rightarrow> bool" where
  "multi_ok h \<longleftrightarrow> distinct (h_multi h) \<and> (\<forall>e\<in>set (h_multi h). \<exists>a. submitted h a \<and> eh_of h a = e)"

definition lists_ok :: "http \<Rightarrow> bool" where
  "lists_ok h \<longleftrightarrow> filter_mset (\<lambda>c. c \<noteq> []) (mset (map (list_of h) (request_infos h))) \<subseteq># mset (slists h)"

definition epoll_ok :: "http \<Rightarrow> bool" where
  "epoll_ok h \<longleftrightarrow> (\<forall>s. epoll_set h s = map_option (\<lambda>epe. e_table ! nat epe) (interest h s)) \<and>
     fd_set h = {s. interest h s \<noteq> None}"

definition peak_ok :: "http \<Rightarrow> bool" where
  "peak_ok h \<longleftrightarrow> length (request_infos h) \<le> peak h \<and> length (h_made h) = max HTTP_POOL (peak h)"

text \<open>
  A request is stuck when it has been submitted and its handle is not in the multi: no message
  can name it. The buffers of any other request hold what libcurl received on its handle since
  the request was made, the one for headers if these have been enabled. Nothing is received before
  the request is submitted.
\<close>

definition stuck :: "http \<Rightarrow> addr \<Rightarrow> bool" where
  "stuck h a \<longleftrightarrow> submitted h a \<and> eh_of h a \<notin> set (h_multi h)"

definition received :: "part \<Rightarrow> (handle \<times> part \<times> string) list \<Rightarrow> request_info \<Rightarrow> string" where
  "received p w i = concat (map (snd \<circ> snd) (filter (\<lambda>x. fst x = i_eh i \<and> fst (snd x) = p) (drop (i_from i) w)))"

definition headers_enabled :: "http \<Rightarrow> request_info \<Rightarrow> bool" where
  "headers_enabled h i \<longleftrightarrow> last_set (h_opts h (i_eh i)) CURLOPT_HEADERFUNCTION \<noteq> None"

definition header_bytes :: "http \<Rightarrow> request_info \<Rightarrow> string" where
  "header_bytes h i = (if headers_enabled h i then received Head (wire h) i else [])"

definition own_bytes :: "http \<Rightarrow> addr \<Rightarrow> request_info \<Rightarrow> bool" where
  "own_bytes h a i \<longleftrightarrow> i_from i \<le> length (wire h) \<and>
     (\<not> stuck h a \<longrightarrow> i_buffer i = received Body (wire h) i \<and> i_header_buffer i = header_bytes h i) \<and>
     (\<not> i_submitted i \<longrightarrow> received Head (wire h) i = [])"

definition bytes_ok :: "http \<Rightarrow> bool" where
  "bytes_ok h \<longleftrightarrow> (\<forall>a i. infos h a = Some i \<longrightarrow> own_bytes h a i)"

definition http_inv :: "http \<Rightarrow> bool" where
  "http_inv h \<longleftrightarrow> info_nodes h \<and> pool_ok h \<and> logs_ok h \<and> multi_ok h \<and> lists_ok h \<and> epoll_ok h \<and> peak_ok h \<and>
     bytes_ok h"

lemmas http_inv_defs = http_inv_def info_nodes_def pool_ok_def logs_ok_def multi_ok_def lists_ok_def
  epoll_ok_def peak_ok_def bytes_ok_def

lemma http_invD:
  assumes "http_inv h"
  shows "info_nodes h" "pool_ok h" "logs_ok h" "multi_ok h" "lists_ok h" "epoll_ok h" "peak_ok h" "bytes_ok h"
  using assms by (simp_all add: http_inv_def)

section \<open>Reading the invariant\<close>

lemma live_distinct:
  assumes "pool_ok h"
  shows "distinct (map (eh_of h) (request_infos h))" "set (map (eh_of h) (request_infos h)) \<subseteq> set (h_made h)"
proof -
  have m: "mset (map Some (h_made h)) = mset (eh_pool h) + mset (map Some (map (eh_of h) (request_infos h)))"
    and d: "distinct (map Some (h_made h))"
    using assms by (simp_all add: pool_ok_def comp_def distinct_map)
  from m have "mset (map Some (h_made h)) = mset (eh_pool h @ map Some (map (eh_of h) (request_infos h)))"
    by simp
  then have "distinct (eh_pool h @ map Some (map (eh_of h) (request_infos h)))"
    "set (eh_pool h @ map Some (map (eh_of h) (request_infos h))) = set (map Some (h_made h))"
    using d by (metis mset_eq_imp_distinct_iff, metis mset_eq_setD)
  then show "distinct (map (eh_of h) (request_infos h))"
    "set (map (eh_of h) (request_infos h)) \<subseteq> set (h_made h)"
    by (auto simp: distinct_map inj_on_def)
qed

lemma pooled_distinct:
  assumes "pool_ok h" "Some e \<in> set (eh_pool h)"
  shows "e \<in> set (h_made h)" "e \<notin> set (map (eh_of h) (request_infos h))"
proof -
  have m: "mset (map Some (h_made h)) = mset (eh_pool h @ map Some (map (eh_of h) (request_infos h)))"
    and d: "distinct (map Some (h_made h))"
    using assms by (simp_all add: pool_ok_def comp_def distinct_map)
  from m d have "distinct (eh_pool h @ map Some (map (eh_of h) (request_infos h)))"
    by (metis mset_eq_imp_distinct_iff)
  then show "e \<notin> set (map (eh_of h) (request_infos h))" using assms(2) by auto
  from m assms(2) have "Some e \<in> set (map Some (h_made h))"
    by (metis Un_iff mset_eq_setD set_append)
  then show "e \<in> set (h_made h)" by auto
qed

lemma live_info: "info_nodes h \<Longrightarrow> a \<in> set (request_infos h) \<Longrightarrow> \<exists>i. infos h a = Some i \<and> i_self i = a"
  unfolding info_nodes_def by blast

lemma infos_live: "info_nodes h \<Longrightarrow> infos h a = Some i \<Longrightarrow> a \<in> set (request_infos h) \<and> i_self i = a"
  unfolding info_nodes_def by blast

lemma eh_of_inj:
  assumes "http_inv h" "a \<in> set (request_infos h)" "b \<in> set (request_infos h)" "eh_of h a = eh_of h b"
  shows "a = b"
  using live_distinct(1) [OF http_invD(2) [OF assms(1)]] assms(2-4) by (auto simp: distinct_map inj_on_def)

lemma submitted_live: "info_nodes h \<Longrightarrow> submitted h a \<Longrightarrow> a \<in> set (request_infos h)"
  by (auto simp: submitted_def info_nodes_def split: option.splits)

lemma multi_log:
  assumes "http_inv h" "e \<in> set (h_multi h)"
  obtains a i where "submitted h a" "infos h a = Some i" "i_eh i = e" "eh_of h a = e" "log_ok a (h_opts h e)"
proof -
  note inv = http_invD [OF assms(1)]
  from inv(4) assms(2) obtain a where a: "submitted h a" "eh_of h a = e" by (auto simp: multi_ok_def)
  have "a \<in> set (request_infos h)" by (rule submitted_live [OF inv(1) a(1)])
  moreover from this obtain i where "infos h a = Some i" using live_info [OF inv(1)] by blast
  ultimately show ?thesis using a inv(3) that by (auto simp: logs_ok_def eh_of_def)
qed

text \<open>What keeps a request's bytes its own: nothing received for it, and the same settings.\<close>

lemma own_bytes_mono:
  assumes "own_bytes h a i" "wire h' = wire h"
    and "i_eh i' = i_eh i" "i_from i' = i_from i" "i_submitted i \<Longrightarrow> i_submitted i'"
    and "\<not> stuck h' a \<Longrightarrow> \<not> stuck h a \<and> i_buffer i' = i_buffer i \<and> i_header_buffer i' = i_header_buffer i \<and>
      header_bytes h' i' = header_bytes h i"
  shows "own_bytes h' a i'"
proof -
  have "received p (wire h') i' = received p (wire h) i" for p
    using assms(2-4) by (simp add: received_def)
  then show ?thesis using assms unfolding own_bytes_def by metis
qed

lemma header_bytes_same:
  "h_opts h' = h_opts h \<Longrightarrow> wire h' = wire h \<Longrightarrow> i_eh i' = i_eh i \<Longrightarrow> i_from i' = i_from i \<Longrightarrow>
     header_bytes h' i' = header_bytes h i"
  by (simp add: header_bytes_def headers_enabled_def received_def)

section \<open>How a state evolves\<close>

definition callbacks :: "http \<Rightarrow> nat multiset" where
  "callbacks h = mset (map (callback_of h) (request_infos h)) + mset (map fst (called h))"

definition persists :: "http \<Rightarrow> http \<Rightarrow> bool" where
  "persists h h' \<longleftrightarrow> (\<forall>a. submitted h a \<longrightarrow> submitted h' a \<and> eh_of h' a = eh_of h a \<and>
     callback_of h' a = callback_of h a \<and>
     (eh_of h a \<notin> set (h_multi h) \<longrightarrow> eh_of h a \<notin> set (h_multi h')))"

definition evolves :: "http \<Rightarrow> nat multiset \<Rightarrow> http \<Rightarrow> bool" where
  "evolves h issued h' \<longleftrightarrow> http_inv h' \<and> persists h h' \<and> callbacks h' = callbacks h + issued"

lemma persists_refl: "persists h h"
  by (simp add: persists_def)

lemma persists_trans: "persists h h' \<Longrightarrow> persists h' h'' \<Longrightarrow> persists h h''"
  unfolding persists_def by metis

lemma evolves_refl: "http_inv h \<Longrightarrow> evolves h {#} h"
  by (simp add: evolves_def persists_refl)

lemma evolves_trans: "evolves h M h' \<Longrightarrow> evolves h' N h'' \<Longrightarrow> evolves h (M + N) h''"
  by (auto simp: evolves_def ac_simps intro: persists_trans)

lemma evolves_inv: "evolves h M h' \<Longrightarrow> http_inv h'"
  by (simp add: evolves_def)

text \<open>What \<open>poll\<close> does, which also ends requests.\<close>

definition settles :: "http \<Rightarrow> nat multiset \<Rightarrow> http \<Rightarrow> bool" where
  "settles h issued h' \<longleftrightarrow> http_inv h' \<and> callbacks h' = callbacks h + issued \<and>
     (\<forall>a. stuck h a \<longrightarrow> stuck h' a)"

lemma evolves_settles: "evolves h M h' \<Longrightarrow> settles h M h'"
  by (simp add: evolves_def settles_def stuck_def persists_def)

text \<open>Both add up over a list of steps.\<close>

locale accounted =
  fixes inv :: "'s \<Rightarrow> bool"
    and change :: "'s \<Rightarrow> 'a multiset \<Rightarrow> 's \<Rightarrow> bool"
  assumes change_inv: "change s M t \<Longrightarrow> inv t"
    and change_refl: "inv s \<Longrightarrow> change s {#} s"
    and change_trans: "change s M t \<Longrightarrow> change t N u \<Longrightarrow> change s (M + N) u"
begin

lemma change_then:
  assumes "safely (change s M) m" "\<And>t. inv t \<Longrightarrow> safely (change t N) (f t)"
  shows "safely (change s (M + N)) (and_then m f)"
  using assms(1)
proof (rule safely_and_then)
  fix t assume t: "change s M t"
  show "safely (change s (M + N)) (f t)"
    by (rule safely_weaken [OF assms(2) [OF change_inv [OF t]]]) (rule change_trans [OF t])
qed

lemma run_changes:
  assumes "\<And>s l. inv s \<Longrightarrow> l \<in> set ls \<Longrightarrow> safely (change s (issue l)) (act l s)"
  shows "inv s \<Longrightarrow> safely (change s (sum_list (map issue ls))) (run_all act ls s)"
  using assms
proof (induction ls arbitrary: s)
  case Nil
  then show ?case by (simp add: change_refl)
next
  case (Cons l ls)
  have "safely (change s (issue l + sum_list (map issue ls))) (and_then (act l s) (run_all act ls))"
    by (rule change_then) (use Cons in simp_all)
  then show ?case by simp
qed

lemmas silent_then = change_then [of _ "{#}" _ "{#}", simplified]

lemma silent_run:
  assumes "\<And>s l. inv s \<Longrightarrow> l \<in> set ls \<Longrightarrow> safely (change s {#}) (act l s)" "inv s"
  shows "safely (change s {#}) (run_all act ls s)"
  using run_changes [of ls "\<lambda>_. {#}" act s] assms by simp

end

interpretation ev: accounted http_inv evolves
  by unfold_locales (auto intro: evolves_refl evolves_inv evolves_trans)

interpretation st: accounted http_inv settles
  by unfold_locales (auto simp: settles_def)

text \<open>A state that differs in what none of this reads.\<close>

lemma evolves_put_info:
  assumes h: "http_inv h" and i: "infos h a = Some i"
    and same: "i_eh i' = i_eh i" "i_self i' = i_self i" "i_callback i' = i_callback i"
      "i_header_list i' = i_header_list i" "i_submitted i' = i_submitted i" "i_from i' = i_from i"
    and buf: "i_buffer i' = i_buffer i \<and> i_header_buffer i' = i_header_buffer i \<or> stuck h a"
  shows "evolves h {#} (put_info a i' h)"
proof -
  let ?h = "put_info a i' h"
  have fns: "eh_of ?h = eh_of h" "callback_of ?h = callback_of h" "list_of ?h = list_of h"
      "submitted ?h = submitted h"
    using i same by (simp_all add: eh_of_def callback_of_def list_of_def submitted_def fun_eq_iff)
  have stuck: "stuck ?h = stuck h" by (simp add: stuck_def fns fun_eq_iff)
  have "info_nodes ?h"
    using http_invD(1) [OF h] i same by (auto simp: info_nodes_def)
  moreover have "bytes_ok ?h"
    unfolding bytes_ok_def
  proof (intro allI impI)
    fix b j assume j: "infos ?h b = Some j"
    obtain j0 where j0: "infos h b = Some j0" "i_eh j = i_eh j0" "i_from j = i_from j0" "i_submitted j = i_submitted j0"
      "i_buffer j = i_buffer j0 \<and> i_header_buffer j = i_header_buffer j0 \<or> stuck h b"
      using j i same buf by (cases "b = a") auto
    then have own: "own_bytes h b j0" using http_invD(8) [OF h] by (simp add: bytes_ok_def)
    have "header_bytes ?h j = header_bytes h j0" by (rule header_bytes_same) (simp_all add: j0)
    moreover have "stuck ?h b = stuck h b" by (simp only: stuck)
    ultimately show "own_bytes ?h b j" by (intro own_bytes_mono [OF own]) (use j0 in auto)
  qed
  ultimately have "http_inv ?h"
    using h by (simp add: http_inv_def pool_ok_def logs_ok_def multi_ok_def lists_ok_def epoll_ok_def peak_ok_def fns)
  then show ?thesis by (simp add: evolves_def persists_def callbacks_def fns)
qed

lemma at_frame:
  assumes "infos h' = infos h"
  shows "eh_of h' = eh_of h" "callback_of h' = callback_of h" "list_of h' = list_of h"
    "submitted h' = submitted h"
  using assms by (simp_all add: eh_of_def callback_of_def list_of_def submitted_def fun_eq_iff)

lemma evolves_frame:
  assumes "http_inv h" "infos h' = infos h" "request_infos h' = request_infos h" "eh_pool h' = eh_pool h"
    "h_made h' = h_made h" "h_opts h' = h_opts h" "h_multi h' = h_multi h" "slists h' = slists h"
    "peak h' = peak h" "called h' = called h" "wire h' = wire h" "epoll_ok h'"
  shows "evolves h {#} h'"
  using assms(1,3-) by (simp add: evolves_def http_inv_defs own_bytes_def header_bytes_def headers_enabled_def
      stuck_def persists_def callbacks_def at_frame [OF assms(2)] assms(2))

section \<open>Inside a call of libcurl\<close>

lemma wire_evolves:
  assumes h: "http_inv h" and e: "e \<in> set (h_multi h)" and a: "submitted h a" "infos h a = Some i" "i_eh i = e"
    and same: "i_eh i' = i_eh i" "i_self i' = i_self i" "i_callback i' = i_callback i"
      "i_header_list i' = i_header_list i" "i_submitted i' = i_submitted i" "i_from i' = i_from i"
    and buffers: "i_buffer i' = i_buffer i @ (if p = Body then bytes else [])"
      "i_header_buffer i' = i_header_buffer i @ (if p = Head \<and> headers_enabled h i then bytes else [])"
  shows "evolves h {#} (put_info a i' (h\<lparr>wire := wire h @ [(e, p, bytes)]\<rparr>))"
proof -
  define h' where "h' = put_info a i' (h\<lparr>wire := wire h @ [(e, p, bytes)]\<rparr>)"
  have fields: "infos h' = (infos h)(a := Some i')" "wire h' = wire h @ [(e, p, bytes)]" "h_opts h' = h_opts h"
    "h_multi h' = h_multi h" "request_infos h' = request_infos h" "eh_pool h' = eh_pool h" "h_made h' = h_made h"
    "called h' = called h" "peak h' = peak h" "slists h' = slists h" "epoll_set h' = epoll_set h"
    "interest h' = interest h" "fd_set h' = fd_set h"
    by (simp_all add: h'_def)
  have fns: "eh_of h' = eh_of h" "callback_of h' = callback_of h" "list_of h' = list_of h" "submitted h' = submitted h"
    using a(2) same by (simp_all add: fields eh_of_def callback_of_def list_of_def submitted_def fun_eq_iff)
  have stuck: "stuck h' = stuck h" by (rule ext) (simp add: stuck_def fns fields)
  note inv = http_invD [OF h]
  have live: "a \<in> set (request_infos h)" "eh_of h a = e" "i_submitted i"
    using submitted_live [OF inv(1) a(1)] a by (simp_all add: eh_of_def submitted_def)
  have other: "i_eh j \<noteq> e" if "infos h b = Some j" "b \<noteq> a" for b j
    using eh_of_inj [OF h live(1), of b] infos_live [OF inv(1) that(1)] that live(2) by (auto simp: eh_of_def)
  have "own_bytes h' b j" if j: "infos h' b = Some j" for b j
  proof (cases "b = a")
    case True
    have "own_bytes h a i" "\<not> stuck h a" using inv(8) a(2) e live(2) by (auto simp: bytes_ok_def stuck_def)
    with True j show ?thesis using a(3) same buffers live(3)
      by (auto simp: own_bytes_def header_bytes_def headers_enabled_def received_def stuck fields)
  next
    case False
    then have "own_bytes h b j" "i_eh j \<noteq> e" using j inv(8) other by (simp_all add: fields bytes_ok_def)
    then show ?thesis
      by (auto simp: own_bytes_def header_bytes_def headers_enabled_def received_def stuck fields)
  qed
  then have "bytes_ok h'" unfolding bytes_ok_def by blast
  moreover have "info_nodes h'" using inv(1) a(2) same by (auto simp: info_nodes_def fields)
  ultimately have "http_inv h'"
    using inv by (simp add: http_inv_def pool_ok_def logs_ok_def multi_ok_def lists_ok_def epoll_ok_def peak_ok_def fns
        fields)
  then have "evolves h {#} h'" by (simp add: evolves_def persists_def callbacks_def fns fields)
  then show ?thesis by (simp only: h'_def)
qed

lemma write_body_evolves:
  assumes h: "http_inv h" and e: "e \<in> set (h_multi h)"
  shows "safely (evolves h {#}) (write_body e bytes (h\<lparr>wire := wire h @ [(e, Body, bytes)]\<rparr>))"
proof -
  from multi_log [OF h e] obtain a i where a: "submitted h a" "infos h a = Some i" "i_eh i = e"
    "log_ok a (h_opts h e)" by blast
  have "evolves h {#} (put_info a (i\<lparr>i_buffer := i_buffer i @ bytes\<rparr>) (h\<lparr>wire := wire h @ [(e, Body, bytes)]\<rparr>))"
    by (rule wire_evolves [OF h e a(1-3)]) simp_all
  then show ?thesis using a(2,4) by (simp add: write_body_def log_ok_def)
qed

lemma write_header_evolves:
  assumes h: "http_inv h" and e: "e \<in> set (h_multi h)"
  shows "safely (evolves h {#}) (write_header e bytes (h\<lparr>wire := wire h @ [(e, Head, bytes)]\<rparr>))"
proof -
  from multi_log [OF h e] obtain a i where a: "submitted h a" "infos h a = Some i" "i_eh i = e"
    "log_ok a (h_opts h e)" by blast
  let ?h = "h\<lparr>wire := wire h @ [(e, Head, bytes)]\<rparr>"
  show ?thesis
  proof (cases "headers_enabled h i")
    case True
    have "evolves h {#} (put_info a (i\<lparr>i_header_buffer := i_header_buffer i @ bytes\<rparr>) ?h)"
      by (rule wire_evolves [OF h e a(1-3)]) (use True in simp_all)
    then show ?thesis using a(2-4) True by (auto simp: write_header_def log_ok_def headers_enabled_def)
  next
    case False
    have "evolves h {#} (put_info a i ?h)"
      by (rule wire_evolves [OF h e a(1-3)]) (use False in simp_all)
    moreover have "put_info a i ?h = ?h" using a(2) by (simp add: fun_upd_idem)
    ultimately show ?thesis using a(3,4) False by (auto simp: write_header_def log_ok_def headers_enabled_def)
  qed
qed

text \<open>The kernel's list and \<open>fd_set_\<close> follow what libcurl asks for.\<close>

lemma socket_fn_tracks:
  assumes ok: "epoll_ok h" and epe: "0 \<le> epe" "epe \<le> 4"
  shows "safely (\<lambda>h'. epoll_ok (h'\<lparr>interest := (interest h)(s := if epe = EPOLL_REMOVE then None else Some epe)\<rparr>) \<and>
    h' = h\<lparr>epoll_set := epoll_set h', fd_set := fd_set h'\<rparr>) (socket_fn s epe h)"
proof -
  have E: "epoll_set h = (\<lambda>s. map_option (\<lambda>epe. e_table ! nat epe) (interest h s))"
    and F: "fd_set h = {s. interest h s \<noteq> None}"
    using ok by (simp_all add: epoll_ok_def fun_eq_iff)
  have "length e_table = 4" by (simp add: e_table_def)
  then show ?thesis using epe by (auto simp: socket_fn_def epoll_ok_def E F Let_def)
qed

lemma act_evolves: "http_inv h \<Longrightarrow> safely (evolves h {#}) (do_http_act a h)"
proof (cases a)
  case (Socket_wanted s epe)
  assume h: "http_inv h"
  show ?thesis
    unfolding Socket_wanted do_http_act.simps
  proof (rule safely_expect)
    assume epe: "0 \<le> epe \<and> epe \<le> 4"
    show "safely (evolves h {#}) (and_then (socket_fn s epe h) (\<lambda>h.
        Inr (h\<lparr>interest := (interest h)(s := if epe = EPOLL_REMOVE then None else Some epe)\<rparr>)))"
    proof (rule safely_and_then [OF socket_fn_tracks [OF http_invD(6) [OF h]]])
      fix h' let ?i = "\<lambda>h :: http. (interest h)(s := if epe = EPOLL_REMOVE then None else Some epe)"
      assume h': "epoll_ok (h'\<lparr>interest := ?i h\<rparr>) \<and> h' = h\<lparr>epoll_set := epoll_set h', fd_set := fd_set h'\<rparr>"
      then obtain E F where "h' = h\<lparr>epoll_set := E, fd_set := F\<rparr>" by blast
      with h' evolves_frame [OF h, of "h'\<lparr>interest := ?i h\<rparr>"]
      show "safely (evolves h {#}) (Inr (h'\<lparr>interest := ?i h'\<rparr>))" by simp
    qed (use epe in simp_all)
  qed
qed (auto intro!: safely_expect write_body_evolves write_header_evolves)

lemma acts_evolve: "http_inv h \<Longrightarrow> safely (evolves h {#}) (http_acts acts h)"
  by (rule ev.silent_run [OF act_evolves])

lemma action_evolves:
  assumes h: "http_inv h"
  shows "safely (evolves h {#}) (http_action s answer h)"
proof -
  obtain acts n where answer: "answer = (acts, n)" by force
  let ?h = "h\<lparr>socket_actions := socket_actions h @ [s]\<rparr>"
  have 1: "evolves h {#} ?h"
    by (rule evolves_frame [OF h]) (use http_invD(6) [OF h] in \<open>simp_all add: epoll_ok_def\<close>)
  have "safely (evolves ?h {#}) (and_then (http_acts acts ?h) (\<lambda>h. Inr (h\<lparr>handle_count := n\<rparr>)))"
  proof (rule ev.silent_then [OF acts_evolve [OF evolves_inv [OF 1]]])
    fix h' assume h': "http_inv h'"
    have "evolves h' {#} (h'\<lparr>handle_count := n\<rparr>)"
      by (rule evolves_frame [OF h']) (use http_invD(6) [OF h'] in \<open>simp_all add: epoll_ok_def\<close>)
    then show "safely (evolves h' {#}) (Inr (h'\<lparr>handle_count := n\<rparr>))" by simp
  qed
  then show ?thesis
    unfolding http_action_def answer prod.case
    by (rule safely_weaken) (drule evolves_trans [OF 1], simp)
qed

lemma process_events_evolves: "http_inv h \<Longrightarrow> safely (evolves h {#}) (process_events w h)"
  unfolding process_events_def
  by (rule safely_expect, cases w)
    (auto intro!: action_evolves evolves_refl ev.silent_run split: prod.split)

text \<open>Data reaches only requests whose handle is in the multi.\<close>

lemma act_spares_stuck:
  assumes h: "http_inv h" and st: "stuck h a" and act: "do_http_act act h = Inr h'"
  shows "infos h' a = infos h a \<and> stuck h' a \<and> called h' = called h"
proof -
  from act_evolves [OF h, of act] act have "evolves h {#} h'" by (simp add: safely_def)
  from evolves_settles [OF this] st have "stuck h' a" by (simp add: settles_def)
  moreover have "infos h' a = infos h a \<and> called h' = called h"
  proof (cases act)
    case (Socket_wanted s epe)
    with act show ?thesis by (auto simp: expect_Inr and_then_Inr socket_fn_def Let_def split: if_splits)
  next
    case (Body_data e bytes)
    with act have e: "e \<in> set (h_multi h)" by (simp add: expect_Inr)
    from multi_log [OF h e] obtain b where b: "eh_of h b = e" "log_ok b (h_opts h e)" by blast
    with st e have "b \<noteq> a" "e \<noteq> eh_of h a" by (auto simp: stuck_def)
    with Body_data act b show ?thesis
      by (auto simp: expect_Inr write_body_def log_ok_def and_then_Inr deref_Inr)
  next
    case (Header_data e bytes)
    with act have e: "e \<in> set (h_multi h)" by (simp add: expect_Inr)
    from multi_log [OF h e] obtain b where b: "eh_of h b = e" "log_ok b (h_opts h e)" by blast
    with st e have "b \<noteq> a" by (auto simp: stuck_def)
    with Header_data act b show ?thesis
      by (auto simp: expect_Inr write_header_def log_ok_def and_then_Inr deref_Inr)
  qed
  ultimately show ?thesis by simp
qed

lemma acts_spare_stuck:
  "http_inv h \<Longrightarrow> stuck h a \<Longrightarrow> http_acts acts h = Inr h' \<Longrightarrow>
     infos h' a = infos h a \<and> stuck h' a \<and> called h' = called h"
proof (induction acts arbitrary: h)
  case Nil
  then show ?case by simp
next
  case (Cons act acts)
  then obtain h1 where h1: "do_http_act act h = Inr h1" "http_acts acts h1 = Inr h'" by (auto simp: and_then_Inr)
  have "http_inv h1" using act_evolves [OF Cons.prems(1), of act] h1(1) by (simp add: safely_def evolves_def)
  with Cons.IH [OF this _ h1(2)] act_spares_stuck [OF Cons.prems(1,2) h1(1)] show ?case by simp
qed

section \<open>Building and submitting\<close>

lemma evolves_setopts:
  assumes h: "http_inv h" and b: "buildable a h" and i: "infos h a = Some i"
    and log: "log_ok a (h_opts h (i_eh i) @ calls)"
  shows "evolves h {#} (http_setopts (i_eh i) calls h)"
proof -
  have a: "a \<in> set (request_infos h)" "eh_of h a = i_eh i"
    using infos_live [OF http_invD(1) [OF h] i] i by (simp_all add: eh_of_def)
  let ?h = "http_setopts (i_eh i) calls h"
  have same: "infos ?h = infos h" by (simp add: http_setopts_def)
  have "logs_ok ?h"
    unfolding logs_ok_def at_frame [OF same]
  proof
    fix b assume b: "b \<in> set (request_infos ?h)"
    then have "b \<in> set (request_infos h)" by (simp add: http_setopts_def)
    then show "log_ok b (h_opts ?h (eh_of h b))"
      using http_invD(3) [OF h] eh_of_inj [OF h a(1)] log a(2)
      by (cases "eh_of h b = i_eh i") (auto simp: logs_ok_def http_setopts_def)
  qed
  moreover have "bytes_ok ?h"
    unfolding bytes_ok_def
  proof (intro allI impI)
    fix b j assume "infos ?h b = Some j"
    then have j: "infos h b = Some j" by (simp add: same)
    then have own: "own_bytes h b j" using http_invD(8) [OF h] by (simp add: bytes_ok_def)
    have "header_bytes ?h j = header_bytes h j"
    proof (cases "b = a")
      case True
      then have "received Head (wire h) j = []" using own i j \<open>buildable a h\<close> by (simp add: own_bytes_def buildable_def)
      then show ?thesis by (simp add: header_bytes_def http_setopts_def)
    next
      case False
      then have "i_eh j \<noteq> i_eh i"
        using eh_of_inj [OF h a(1), of b] infos_live [OF http_invD(1) [OF h] j] j a(2) by (auto simp: eh_of_def)
      then show ?thesis by (simp add: header_bytes_def headers_enabled_def http_setopts_def)
    qed
    moreover have "stuck ?h = stuck h"
      by (rule ext) (simp only: stuck_def at_frame [OF same], simp add: http_setopts_def)
    moreover have "wire ?h = wire h" by (simp add: http_setopts_def)
    ultimately show "own_bytes ?h b j" by (intro own_bytes_mono [OF own]) simp_all
  qed
  ultimately show ?thesis
    using h by (simp add: evolves_def http_inv_def info_nodes_def pool_ok_def multi_ok_def lists_ok_def
        epoll_ok_def peak_ok_def persists_def callbacks_def at_frame [OF same])
      (simp add: http_setopts_def)
qed

text \<open>Drawing a handle: what \<open>request\<close> knows of it.\<close>

definition drawn :: "http \<Rightarrow> handle \<Rightarrow> http \<Rightarrow> bool" where
  "drawn h e h' \<longleftrightarrow> e \<notin> set (map (eh_of h) (request_infos h)) \<and> distinct (h_made h') \<and>
     None \<notin> set (eh_pool h') \<and>
     mset (map Some (h_made h')) = add_mset (Some e) (mset (eh_pool h') + mset (map (\<lambda>a. Some (eh_of h a)) (request_infos h))) \<and>
     length (h_made h') = max HTTP_POOL (max (peak h) (length (request_infos h) + 1)) \<and>
     h' = h\<lparr>h_made := h_made h', eh_pool := eh_pool h', h_opts := (h_opts h)(e := [])\<rparr>"

lemma draw_handle_drawn:
  assumes h: "http_inv h" and init: "\<exists>e. init = Some e \<and> e \<notin> set (h_made h)"
  shows "safely (\<lambda>(e, h'). drawn h e h') (draw_handle init h)"
proof -
  note pool = http_invD(2) [OF h] and peak = http_invD(7) [OF h]
  have "size (mset (map Some (h_made h))) = size (mset (eh_pool h) + mset (map (\<lambda>a. Some (eh_of h a)) (request_infos h)))"
    using pool by (simp only: pool_ok_def)
  then have size: "length (h_made h) = length (eh_pool h) + length (request_infos h)" by simp
  show ?thesis
  proof (cases "eh_pool h = []")
    case True
    from init obtain e where e: "init = Some e" "e \<notin> set (h_made h)" by blast
    have "e \<notin> set (map (eh_of h) (request_infos h))" using live_distinct(2) [OF pool] e(2) by blast
    with True e pool peak size show ?thesis
      by (auto simp: draw_handle_def drawn_def pool_ok_def peak_ok_def)
  next
    case False
    then obtain p x where p: "eh_pool h = p @ [x]" by (metis rev_exhaust)
    with pool obtain e where x: "x = Some e" by (cases x) (auto simp: pool_ok_def)
    have "e \<notin> set (map (eh_of h) (request_infos h))"
      using pooled_distinct(2) [OF pool, of e] by (simp add: p x)
    with p x pool peak size show ?thesis
      by (auto simp: draw_handle_def drawn_def pool_ok_def peak_ok_def)
  qed
qed

lemma request_opts_ok: "log_ok it (request_opts it url)"
  by (simp add: log_ok_def request_opts_def last_set_def)

lemma new_request_evolves:
  assumes h: "http_inv h" and fresh: "infos h it = None" and init: "\<exists>e. init = Some e \<and> e \<notin> set (h_made h)"
  shows "safely (evolves h {#fn#}) (http_request init it url fn custom_data h)"
  unfolding http_request_def
proof (rule safely_and_then [OF draw_handle_drawn [OF h init]])
  fix p assume p: "case p of (e, h') \<Rightarrow> drawn h e h'"
  obtain e h1 where eh: "p = (e, h1)" by force
  with p have d: "drawn h e h1" by simp
  then obtain made pool where h1: "h1 = h\<lparr>h_made := made, eh_pool := pool, h_opts := (h_opts h)(e := [])\<rparr>"
    unfolding drawn_def by blast
  let ?i = "RequestInfo e fn custom_data it (length (wire h))"
  define hn where "hn = http_setopts e (request_opts it url) (put_info it ?i (h1\<lparr>request_infos := it # request_infos h1,
      peak := max (peak h1) (length (request_infos h1) + 1)\<rparr>))"
  note inv = http_invD [OF h]
  have it: "it \<notin> set (request_infos h)" using inv(1) fresh unfolding info_nodes_def by metis
  have old: "\<forall>a\<in>set (request_infos h). a \<noteq> it" using it by blast
  have at: "eh_of hn = (eh_of h)(it := e)" "callback_of hn = (callback_of h)(it := fn)"
    "list_of hn = (list_of h)(it := [])" "submitted hn = submitted h"
    using fresh by (auto simp: hn_def http_setopts_def h1 eh_of_def callback_of_def list_of_def submitted_def
        RequestInfo_def fun_eq_iff)
  have fields: "request_infos hn = it # request_infos h" "eh_pool hn = pool" "h_made hn = made"
    "h_multi hn = h_multi h" "slists hn = slists h" "called hn = called h"
    "peak hn = max (peak h) (length (request_infos h) + 1)"
    "h_opts hn = (h_opts h)(e := request_opts it url)" "infos hn = (infos h)(it := Some ?i)" "wire hn = wire h"
    by (simp_all add: hn_def http_setopts_def h1)
  have upd: "map (f(it := y)) (request_infos h) = map f (request_infos h)" for f :: "addr \<Rightarrow> 'b" and y
    using it by (simp add: map_fun_upd)
  have lives: "map (\<lambda>a. Some (((eh_of h)(it := e)) a)) (request_infos h) = map (\<lambda>a. Some (eh_of h a)) (request_infos h)"
    using old by simp
  have lives': "mset (map (\<lambda>a. Some (((eh_of h)(it := e)) a)) (it # request_infos h)) =
      add_mset (Some e) (mset (map (\<lambda>a. Some (eh_of h a)) (request_infos h)))"
    using arg_cong [OF lives, of mset] by simp
  have "info_nodes hn" using inv(1) it by (auto simp: info_nodes_def fields RequestInfo_def)
  moreover have "pool_ok hn" using d unfolding pool_ok_def fields at lives' by (simp add: drawn_def h1)
  moreover have "logs_ok hn"
    using inv(3) d old unfolding logs_ok_def fields at by (auto simp: request_opts_ok drawn_def)
  moreover have "multi_ok hn"
    using inv(4) it submitted_live [OF inv(1)] unfolding multi_ok_def fields at by fastforce
  moreover have "lists_ok hn" using inv(5) unfolding lists_ok_def fields at by (simp add: upd)
  moreover have "epoll_ok hn" using inv(6) by (simp add: epoll_ok_def hn_def http_setopts_def h1)
  moreover have "peak_ok hn" using d unfolding peak_ok_def fields by (simp add: drawn_def h1)
  moreover have "bytes_ok hn"
    unfolding bytes_ok_def
  proof (intro allI impI)
    fix b j assume j: "infos hn b = Some j"
    show "own_bytes hn b j"
    proof (cases "b = it")
      case True
      then show ?thesis using j by (auto simp: fields RequestInfo_def received_def own_bytes_def header_bytes_def)
    next
      case False
      then have b: "infos h b = Some j" "stuck hn b = stuck h b" using j by (simp_all add: fields stuck_def at)
      then have "eh_of h b = i_eh j" "b \<in> set (request_infos h)" using infos_live [OF inv(1)] by (auto simp: eh_of_def)
      moreover have "e \<notin> eh_of h ` set (request_infos h)" using d by (simp add: drawn_def)
      ultimately have "i_eh j \<noteq> e" by (metis image_eqI)
      then have "header_bytes hn j = header_bytes h j" by (simp add: header_bytes_def headers_enabled_def fields)
      moreover have own: "own_bytes h b j" using inv(8) b(1) by (simp add: bytes_ok_def)
      ultimately show ?thesis by (intro own_bytes_mono [OF own]) (auto simp: fields b(2))
    qed
  qed
  moreover have "persists h hn"
    using it submitted_live [OF inv(1)] unfolding persists_def fields at by auto
  moreover have "callbacks hn = callbacks h + {#fn#}" unfolding callbacks_def fields at by (simp add: upd)
  ultimately have "evolves h {#fn#} hn" by (simp add: evolves_def http_inv_def)
  then show "safely (evolves h {#fn#}) (case p of (e, h) \<Rightarrow> let h = put_info it (RequestInfo e fn custom_data it (length (wire h)))
      (h\<lparr>request_infos := it # request_infos h, peak := max (peak h) (length (request_infos h) + 1)\<rparr>)
      in Inr (http_setopts e (request_opts it url) h))"
    by (simp add: eh Let_def hn_def) (simp add: h1)
qed

text \<open>Replacing the value at one place of a list of places.\<close>

lemma mset_map_upd:
  assumes "distinct xs" "a \<in> set xs"
  shows "mset (map (f(a := y)) xs) = add_mset y (mset (map f (remove1 a xs)))"
    "mset (map f xs) = add_mset (f a) (mset (map f (remove1 a xs)))"
proof -
  have m: "mset xs = add_mset a (mset (remove1 a xs))" using assms(2) by simp
  have "a \<notin> set (remove1 a xs)" using assms(1) by simp
  then have "map (f(a := y)) (remove1 a xs) = map f (remove1 a xs)" by (simp add: map_fun_upd)
  then show "mset (map (f(a := y)) xs) = add_mset y (mset (map f (remove1 a xs)))"
    unfolding mset_map m by (metis fun_upd_same image_mset_add_mset mset_map)
  show "mset (map f xs) = add_mset (f a) (mset (map f (remove1 a xs)))"
    unfolding mset_map m by simp
qed

lemma live_log:
  assumes h: "http_inv h" and i: "infos h it = Some i"
  shows "log_ok it (h_opts h (i_eh i))"
proof -
  have "it \<in> set (request_infos h)" "eh_of h it = i_eh i"
    using infos_live [OF http_invD(1) [OF h] i] i by (simp_all add: eh_of_def)
  then show ?thesis using http_invD(3) [OF h] unfolding logs_ok_def by metis
qed

lemma set_headers_evolves:
  assumes h: "http_inv h" and b: "buildable it h"
  shows "safely (evolves h {#}) (epoll_set_headers slist_append it hs h)"
proof -
  from b obtain i where i: "infos h it = Some i" by (auto simp: buildable_def split: option.splits)
  define chunk where "chunk = foldl (\<lambda>chunk header. slist_append chunk (c_str header)) [] hs"
  let ?calls = "[(CURLOPT_HTTPHEADER, if chunk = [] then Null else Slist chunk)]"
  define h1 where "h1 = http_setopts (i_eh i) ?calls h"
  define h2 where "h2 = put_info it (i\<lparr>i_header_list := chunk\<rparr>)
    (if chunk = [] then h1 else h1\<lparr>slists := chunk # slists h1\<rparr>)"
  have it: "it \<in> set (request_infos h)" "eh_of h it = i_eh i"
    using infos_live [OF http_invD(1) [OF h] i] i by (simp_all add: eh_of_def)
  have "evolves h {#} h1" unfolding h1_def
    by (rule evolves_setopts [OF h b i]) (use live_log [OF h i] in \<open>simp add: log_ok_def last_set_def\<close>)
  then have 1: "evolves h {#} h1" "http_inv h1" by (simp_all add: evolves_def)
  note inv = http_invD [OF 1(2)]
  have fields: "request_infos h2 = request_infos h1" "eh_pool h2 = eh_pool h1" "h_made h2 = h_made h1"
    "h_multi h2 = h_multi h1" "called h2 = called h1" "peak h2 = peak h1" "h_opts h2 = h_opts h1"
    "infos h2 = (infos h1)(it := Some (i\<lparr>i_header_list := chunk\<rparr>))" "infos h1 = infos h"
    "slists h2 = (if chunk = [] then slists h1 else chunk # slists h1)"
    "request_infos h1 = request_infos h"
    "epoll_set h2 = epoll_set h1" "interest h2 = interest h1" "fd_set h2 = fd_set h1" "wire h2 = wire h1"
    by (simp_all add: h2_def h1_def http_setopts_def)
  have at: "eh_of h2 = eh_of h1" "callback_of h2 = callback_of h1" "submitted h2 = submitted h1"
    "list_of h2 = (list_of h1)(it := chunk)"
    using i by (auto simp: fields eh_of_def callback_of_def submitted_def list_of_def fun_eq_iff)
  have "info_nodes h2" using inv(1) it i by (auto simp: info_nodes_def fields)
  moreover have "lists_ok h2"
  proof -
    have d: "distinct (request_infos h1)" "it \<in> set (request_infos h1)"
      using inv(1) it by (simp_all add: info_nodes_def fields)
    let ?rest = "filter_mset (\<lambda>c. c \<noteq> []) (mset (map (list_of h1) (remove1 it (request_infos h1))))"
    have "?rest \<subseteq># filter_mset (\<lambda>c. c \<noteq> []) (mset (map (list_of h1) (request_infos h1)))"
      unfolding mset_map_upd(2) [OF d] by simp
    with inv(5) have "?rest \<subseteq># mset (slists h1)" unfolding lists_ok_def by (rule subset_mset.order_trans [rotated])
    then show ?thesis unfolding lists_ok_def fields(1,10) at mset_map_upd(1) [OF d] by simp
  qed
  moreover have "bytes_ok h2"
    using inv(8) i
    by (auto simp: bytes_ok_def own_bytes_def header_bytes_def headers_enabled_def received_def stuck_def fields at)
  ultimately have "http_inv h2"
    using inv by (simp add: http_inv_def pool_ok_def logs_ok_def multi_ok_def epoll_ok_def peak_ok_def at fields)
  moreover have "persists h1 h2" "callbacks h2 = callbacks h1"
    by (simp_all add: persists_def callbacks_def at fields)
  ultimately have "evolves h1 {#} h2" by (simp add: evolves_def)
  with evolves_trans [OF 1(1)] have "evolves h {#} h2" by fastforce
  moreover have "epoll_set_headers slist_append it hs h = Inr h2"
    using i unfolding epoll_set_headers_def Let_def chunk_def [symmetric]
    by (simp add: h2_def h1_def)
  ultimately show ?thesis by simp
qed

lemma set_body_evolves:
  assumes h: "http_inv h" and b: "buildable it h"
  shows "safely (evolves h {#}) (epoll_set_body it post_fields h)"
proof -
  from b obtain i where i: "infos h it = Some i" by (auto simp: buildable_def split: option.splits)
  let ?h1 = "put_info it (i\<lparr>i_body := post_fields\<rparr>) h"
  let ?calls = "[(CURLOPT_POSTFIELDSIZE, Long (int (length post_fields))), (CURLOPT_POSTFIELDS, Body_ptr it)]"
  have 1: "evolves h {#} ?h1" by (rule evolves_put_info [OF h i]) simp_all
  have "evolves ?h1 {#} (http_setopts (i_eh (i\<lparr>i_body := post_fields\<rparr>)) ?calls ?h1)"
    by (rule evolves_setopts [OF evolves_inv [OF 1], of it])
      (use live_log [OF h i] b i in \<open>simp_all add: log_ok_def last_set_def buildable_def\<close>)
  from evolves_trans [OF 1 this] show ?thesis using i by (simp add: epoll_set_body_def)
qed

lemma enable_headers_evolves:
  assumes h: "http_inv h" and b: "buildable it h"
  shows "safely (evolves h {#}) (enable_response_headers it h)"
proof -
  from b obtain i where i: "infos h it = Some i" by (auto simp: buildable_def split: option.splits)
  have "evolves h {#} (http_setopts (i_eh i) [(CURLOPT_HEADERDATA, Header_buffer_ptr it),
      (CURLOPT_HEADERFUNCTION, Fn Write_fn)] h)"
    by (rule evolves_setopts [OF h b i]) (use live_log [OF h i] in \<open>simp add: log_ok_def last_set_def\<close>)
  then show ?thesis using i by (simp add: enable_response_headers_def)
qed

text \<open>The request as \<open>submit\<close> has entered it into the multi, or failed to.\<close>

definition entered :: "addr \<Rightarrow> request_info \<Rightarrow> curlmcode \<Rightarrow> http \<Rightarrow> http" where
  "entered it i rc h = (let h = put_info it (i\<lparr>i_submitted := True\<rparr>) h
     in if rc = CURLM_OK then h\<lparr>h_multi := i_eh i # h_multi h\<rparr> else h)"

lemma entered_evolves:
  assumes h: "http_inv h" and b: "buildable it h" and i: "infos h it = Some i"
  shows "evolves h {#} (entered it i rc h)" "rc \<noteq> CURLM_OK \<Longrightarrow> stuck (entered it i rc h) it"
proof -
  define h2 where "h2 = entered it i rc h"
  note inv = http_invD [OF h]
  have it: "it \<in> set (request_infos h)" "eh_of h it = i_eh i" "\<not> submitted h it"
    using infos_live [OF inv(1) i] i b by (simp_all add: eh_of_def submitted_def buildable_def)
  have fields: "request_infos h2 = request_infos h" "eh_pool h2 = eh_pool h" "h_made h2 = h_made h"
    "called h2 = called h" "peak h2 = peak h" "h_opts h2 = h_opts h" "slists h2 = slists h"
    "infos h2 = (infos h)(it := Some (i\<lparr>i_submitted := True\<rparr>))"
    "epoll_set h2 = epoll_set h" "interest h2 = interest h" "fd_set h2 = fd_set h" "wire h2 = wire h"
    "h_multi h2 = (if rc = CURLM_OK then i_eh i # h_multi h else h_multi h)"
    by (simp_all add: h2_def entered_def Let_def)
  have at: "eh_of h2 = eh_of h" "callback_of h2 = callback_of h" "list_of h2 = list_of h"
    "submitted h2 = (submitted h)(it := True)"
    using i by (auto simp: fields eh_of_def callback_of_def submitted_def list_of_def fun_eq_iff)
  have new: "i_eh i \<noteq> eh_of h a" if "submitted h a" for a
    using eh_of_inj [OF h it(1) submitted_live [OF inv(1) that]] it(2,3) that by auto
  have out: "i_eh i \<notin> set (h_multi h)" using inv(4) new unfolding multi_ok_def by metis
  have "\<exists>a. submitted h2 a \<and> eh_of h2 a = e" if e: "e \<in> set (h_multi h2)" for e
  proof (cases "e = i_eh i")
    case True
    then show ?thesis using it(2) by (intro exI [of _ it]) (simp add: at)
  next
    case False
    with e have "e \<in> set (h_multi h)" by (simp add: fields split: if_splits)
    with inv(4) obtain a where "submitted h a" "eh_of h a = e" unfolding multi_ok_def by blast
    then show ?thesis by (intro exI [of _ a]) (simp add: at)
  qed
  then have "multi_ok h2" using inv(4) out by (simp add: multi_ok_def) (simp add: fields)
  moreover have "info_nodes h2" using inv(1) it i by (auto simp: info_nodes_def fields)
  moreover have "bytes_ok h2"
    unfolding bytes_ok_def
  proof (intro allI impI)
    fix b j assume j: "infos h2 b = Some j"
    then obtain j' where j': "infos h b = Some j'" "i_from j = i_from j'" "i_eh j = i_eh j'" "i_buffer j = i_buffer j'"
      "i_header_buffer j = i_header_buffer j'" "i_submitted j' \<Longrightarrow> i_submitted j"
      using i by (auto simp: fields split: if_splits)
    have "stuck h2 b" if "stuck h b" using that out it(2,3) new [of b] by (auto simp: stuck_def fields at)
    moreover have "header_bytes h2 j = header_bytes h j'"
      by (rule header_bytes_same) (simp_all add: fields j'(2,3))
    moreover have own: "own_bytes h b j'" using inv(8) j'(1) by (simp add: bytes_ok_def)
    ultimately show "own_bytes h2 b j" by (intro own_bytes_mono [OF own]) (use j' in \<open>auto simp: fields(12)\<close>)
  qed
  ultimately have "http_inv h2"
    using inv by (simp add: http_inv_def pool_ok_def logs_ok_def lists_ok_def epoll_ok_def peak_ok_def at fields)
  moreover have "persists h h2" by (auto simp: persists_def at fields dest: new)
  moreover have "callbacks h2 = callbacks h" by (simp add: callbacks_def at fields)
  ultimately show "evolves h {#} (entered it i rc h)" by (simp add: evolves_def flip: h2_def)
  show "stuck (entered it i rc h) it" if "rc \<noteq> CURLM_OK"
    using that out it(2) by (simp add: stuck_def at fields flip: h2_def)
qed

lemma submit_entered:
  "submit (i_eh i) rc answer w (put_info it (i\<lparr>i_submitted := True\<rparr>) h) =
     and_then (http_action None answer (entered it i rc h)) (process_events w)"
  by (simp add: submit_def entered_def)

lemma submit_tail: "http_inv h \<Longrightarrow>
    safely (evolves h {#}) (and_then (http_action None answer h) (process_events w))"
  by (rule ev.silent_then [OF action_evolves process_events_evolves])

lemma send_entered:
  assumes h: "http_inv h" and b: "buildable it h" and i: "infos h it = Some i"
  obtains h1 where "evolves h {#} h1" "rc \<noteq> CURLM_OK \<Longrightarrow> stuck h1 it"
    "epoll_send v it rc answer w h = and_then (http_action None answer h1) (process_events w)"
proof -
  define h0 where "h0 = http_setopts (i_eh i) (verb_opts v) h"
  have 1: "evolves h {#} h0" unfolding h0_def
    by (rule evolves_setopts [OF h b i]) (use live_log [OF h i] in \<open>cases v; simp add: log_ok_def last_set_def\<close>)
  have "infos h0 = infos h" by (simp add: h0_def http_setopts_def)
  then have b0: "buildable it h0" "infos h0 it = Some i" using b i by (simp_all add: buildable_def)
  note e = entered_evolves [OF evolves_inv [OF 1] b0]
  from evolves_trans [OF 1 e(1)] have "evolves h {#} (entered it i rc h0)" by simp
  moreover have "epoll_send v it rc answer w h = and_then (http_action None answer (entered it i rc h0)) (process_events w)"
    using i by (simp add: epoll_send_def submit_entered h0_def)
  ultimately show ?thesis using e(2) that by blast
qed

lemma send_evolves:
  assumes h: "http_inv h" and b: "buildable it h"
  shows "safely (evolves h {#}) (epoll_send v it rc answer w h)"
proof -
  from b obtain i where i: "infos h it = Some i" by (auto simp: buildable_def split: option.splits)
  from send_entered [OF h b i] obtain h1 where h1: "evolves h {#} h1"
    "epoll_send v it rc answer w h = and_then (http_action None answer h1) (process_events w)" by metis
  show ?thesis unfolding h1(2)
    by (rule safely_weaken [OF submit_tail [OF evolves_inv [OF h1(1)]]]) (drule evolves_trans [OF h1(1)], simp)
qed

lemma failed_send_stuck:
  assumes h: "http_inv h" and b: "buildable it h" and rc: "rc \<noteq> CURLM_OK"
    and sent: "epoll_send v it rc answer w h = Inr h'"
  shows "stuck h' it"
proof -
  from b obtain i where i: "infos h it = Some i" by (auto simp: buildable_def split: option.splits)
  from send_entered [OF h b i] rc obtain h1 where h1: "evolves h {#} h1" "stuck h1 it"
    "epoll_send v it rc answer w h = and_then (http_action None answer h1) (process_events w)" by metis
  from submit_tail [OF evolves_inv [OF h1(1)], of answer w] sent h1(3) have "evolves h1 {#} h'"
    by (simp add: safely_def)
  from evolves_settles [OF this] h1(2) show ?thesis by (simp add: settles_def)
qed

section \<open>Operations of users\<close>

text \<open>
  The callbacks an operation registers, and the results of \<open>curl_easy_init\<close> it may use.
\<close>

fun user_callbacks :: "http_user \<Rightarrow> nat multiset" where
  "user_callbacks (New_request init it url fn custom_data) = {#fn#}"
| "user_callbacks _ = {#}"

fun user_inits :: "http_user \<Rightarrow> handle option list" where
  "user_inits (New_request init it url fn custom_data) = [init]"
| "user_inits _ = []"

lemma user_evolves:
  assumes h: "http_inv h" and init: "None \<notin> set (user_inits op)"
  shows "safely (evolves h (user_callbacks op)) (do_http_user op h)"
proof (cases op)
  case (New_request i it url fn custom_data)
  then obtain e where "i = Some e" using init by (cases i) auto
  with h show ?thesis by (auto simp: New_request intro!: safely_expect new_request_evolves)
qed (use h in \<open>auto intro!: safely_expect set_headers_evolves set_body_evolves enable_headers_evolves send_evolves\<close>)

lemma users_evolve:
  "http_inv h \<Longrightarrow> \<forall>op\<in>set ops. None \<notin> set (user_inits op) \<Longrightarrow>
     safely (evolves h (sum_list (map user_callbacks ops))) (http_users ops h)"
  by (rule ev.run_changes) (auto intro: user_evolves)

section \<open>Completions\<close>

lemma call_back_evolves:
  assumes h: "http_inv h" and i: "infos h a = Some i" and st: "stuck h a"
  shows "safely (evolves h {#i_callback i#}) (call_back a curl_code http_code h)"
proof -
  let ?r = "\<lparr>ri_curl_code = curl_code, ri_http_code = http_code, ri_data = i_buffer i,
      ri_header_data = i_header_buffer i, ri_custom_data = i_custom_data i\<rparr>"
  let ?h1 = "put_info a (i\<lparr>i_buffer := [], i_header_buffer := []\<rparr>) h"
  have 1: "evolves h {#} ?h1" by (rule evolves_put_info [OF h i]) (use st in simp_all)
  let ?h2 = "?h1\<lparr>called := called h @ [(i_callback i, ?r)]\<rparr>"
  have same: "infos ?h2 = infos ?h1" by simp
  have "evolves ?h1 {#i_callback i#} ?h2"
    using evolves_inv [OF 1]
    by (simp add: evolves_def http_inv_def info_nodes_def pool_ok_def logs_ok_def multi_ok_def lists_ok_def
        epoll_ok_def peak_ok_def bytes_ok_def own_bytes_def header_bytes_def headers_enabled_def stuck_def
        persists_def callbacks_def at_frame [OF same])
  from evolves_trans [OF 1 this] have "evolves h {#i_callback i#} ?h2" by simp
  moreover have "call_back a curl_code http_code h = Inr ?h2" using i by (simp add: call_back_def)
  ultimately show ?thesis by simp
qed

lemma finish_settles:
  assumes h: "http_inv h" and a: "submitted h a" "eh_of h a \<notin> set (h_multi h)"
  shows "safely (\<lambda>h'. http_inv h' \<and> add_mset (callback_of h a) (callbacks h') = callbacks h \<and>
    (\<forall>b. b \<noteq> a \<longrightarrow> stuck h b \<longrightarrow> stuck h' b)) (finish a h)"
proof -
  note inv = http_invD [OF h]
  have live: "a \<in> set (request_infos h)" by (rule submitted_live [OF inv(1) a(1)])
  then obtain i where i: "infos h a = Some i" "i_self i = a" using live_info [OF inv(1)] by blast
  have d: "distinct (request_infos h)" using inv(1) by (simp add: info_nodes_def)
  define L where "L = (if i_header_list i = [] then slists h else remove1 (i_header_list i) (slists h))"
  have lists: "add_mset (list_of h a) (mset (map (list_of h) (remove1 a (request_infos h)))) =
      mset (map (list_of h) (request_infos h))"
    by (simp only: mset_map_upd(2) [OF d live, of "list_of h"])
  have la: "list_of h a = i_header_list i" using i by (simp add: list_of_def)
  let ?rest = "filter_mset (\<lambda>c. c \<noteq> []) (mset (map (list_of h) (remove1 a (request_infos h))))"
  have sub: "filter_mset (\<lambda>c. c \<noteq> []) (add_mset (i_header_list i) (mset (map (list_of h) (remove1 a (request_infos h)))))
      \<subseteq># mset (slists h)"
    using inv(5) unfolding lists_ok_def lists [symmetric] la .
  have L: "i_header_list i = [] \<or> i_header_list i \<in> set (slists h)" "?rest \<subseteq># mset L"
  proof -
    show "i_header_list i = [] \<or> i_header_list i \<in> set (slists h)"
      using sub by (auto dest: mset_subset_eqD)
    then show "?rest \<subseteq># mset L"
      using sub by (auto simp: L_def insert_subset_eq_iff)
  qed
  define h' where "h' = h\<lparr>slists := L, eh_pool := eh_pool h @ [Some (i_eh i)],
      infos := (infos h)(a := None), request_infos := remove1 a (request_infos h)\<rparr>"
  have eq: "finish a h = Inr h'"
    using i L(1) live by (auto simp: finish_def slist_free_all_def L_def h'_def)
  have at: "eh_of h' = (eh_of h)(a := 0)" "callback_of h' = (callback_of h)(a := 0)"
    "list_of h' = (list_of h)(a := [])" "submitted h' = (submitted h)(a := False)"
    by (auto simp: h'_def eh_of_def callback_of_def list_of_def submitted_def fun_eq_iff)
  have fields: "request_infos h' = remove1 a (request_infos h)" "eh_pool h' = eh_pool h @ [Some (i_eh i)]"
    "h_made h' = h_made h" "h_multi h' = h_multi h" "called h' = called h" "peak h' = peak h"
    "h_opts h' = h_opts h" "slists h' = L" "infos h' = (infos h)(a := None)"
    "epoll_set h' = epoll_set h" "interest h' = interest h" "fd_set h' = fd_set h" "wire h' = wire h"
    by (simp_all add: h'_def)
  have gone: "a \<notin> set (remove1 a (request_infos h))" using d by simp
  have upd: "map (f(a := y)) (remove1 a (request_infos h)) = map f (remove1 a (request_infos h))"
    for f :: "addr \<Rightarrow> 'b" and y
    using gone by (simp add: map_fun_upd)
  have eh: "eh_of h a = i_eh i" using i by (simp add: eh_of_def)
  have "info_nodes h'" using inv(1) d by (auto simp: info_nodes_def fields set_remove1_distinct)
  moreover have "pool_ok h'"
  proof -
    have "mset (map (\<lambda>b. Some (eh_of h b)) (request_infos h)) =
        add_mset (Some (i_eh i)) (mset (map (\<lambda>b. Some (eh_of h b)) (remove1 a (request_infos h))))"
      using mset_map_upd(2) [OF d live, of "\<lambda>b. Some (eh_of h b)"] by (simp only: eh)
    moreover have "map (\<lambda>b. Some (eh_of h' b)) (remove1 a (request_infos h)) =
        map (\<lambda>b. Some (eh_of h b)) (remove1 a (request_infos h))"
      using gone by (auto simp: at)
    ultimately show ?thesis using inv(2) unfolding pool_ok_def fields by (simp only:) simp
  qed
  moreover have "logs_ok h'"
    using inv(3) gone d unfolding logs_ok_def fields at by (auto simp: set_remove1_distinct)
  moreover have "multi_ok h'"
    using inv(4) a(2) unfolding multi_ok_def fields at by fastforce
  moreover have "lists_ok h'" unfolding lists_ok_def fields at using L(2) by (simp only: upd)
  moreover have "bytes_ok h'" using inv(8)
    by (auto simp: bytes_ok_def own_bytes_def header_bytes_def headers_enabled_def stuck_def fields at)
  moreover have "epoll_ok h'" "peak_ok h'"
    using inv(6,7) live by (auto simp: epoll_ok_def peak_ok_def fields length_remove1)
  moreover have "add_mset (callback_of h a) (callbacks h') = callbacks h"
    unfolding callbacks_def fields at upd mset_map_upd(2) [OF d live, of "callback_of h"] by simp
  moreover have "\<forall>b. b \<noteq> a \<longrightarrow> stuck h b \<longrightarrow> stuck h' b"
    by (simp add: stuck_def at fields)
  ultimately show ?thesis by (simp add: eq http_inv_def)
qed

lemma remove_evolves:
  assumes h: "http_inv h"
  shows "evolves h {#} (h\<lparr>h_multi := remove1 e (h_multi h)\<rparr>)"
proof -
  let ?h = "h\<lparr>h_multi := remove1 e (h_multi h)\<rparr>"
  have same: "infos ?h = infos h" by simp
  have "multi_ok ?h" using http_invD(4) [OF h] by (auto simp: multi_ok_def at_frame [OF same] dest: notin_set_remove1)
  moreover have "bytes_ok ?h" using http_invD(8) [OF h]
    by (auto simp: bytes_ok_def own_bytes_def header_bytes_def headers_enabled_def stuck_def at_frame [OF same]
        dest!: subsetD [OF set_remove1_subset])
  ultimately show ?thesis
    using h by (auto simp: evolves_def http_inv_def info_nodes_def pool_ok_def logs_ok_def lists_ok_def
        epoll_ok_def peak_ok_def persists_def callbacks_def at_frame [OF same] dest: notin_set_remove1)
qed

fun delivery_callbacks :: "http_delivery \<Rightarrow> nat multiset" where
  "delivery_callbacks (m, acts, ops) = sum_list (map user_callbacks ops)"

fun delivery_inits :: "http_delivery \<Rightarrow> handle option list" where
  "delivery_inits (m, acts, ops) = concat (map user_inits ops)"

lemma deliver_settles:
  assumes h: "http_inv h" and inits: "None \<notin> set (delivery_inits d)"
  shows "safely (settles h (delivery_callbacks d)) (deliver d h)"
proof -
  obtain m acts ops where d: "d = (m, acts, ops)" by (cases d)
  let ?D = "sum_list (map user_callbacks ops)" and ?e = "hm_handle m"
  have ops: "\<forall>op\<in>set ops. None \<notin> set (user_inits op)" using inits by (auto simp: d)
  let ?h1 = "h\<lparr>h_multi := remove1 ?e (h_multi h)\<rparr>"
  have 1: "evolves h {#} ?h1" by (rule remove_evolves [OF h])
  have "safely (settles h ?D) (and_then (info_of ?e h) (\<lambda>a. and_then (http_acts acts ?h1) (\<lambda>h.
      and_then (call_back a (hm_result m) (hm_response_code m) h) (\<lambda>h. and_then (http_users ops h) (finish a)))))"
    if e: "?e \<in> set (h_multi h)"
  proof -
    from multi_log [OF h e] obtain a i
      where a: "submitted h a" "eh_of h a = ?e" "log_ok a (h_opts h ?e)" by blast
    have info: "info_of ?e h = Inr a" using a(3) by (simp add: info_of_def log_ok_def)
    have stuck1: "stuck ?h1 a" using 1 a http_invD(4) [OF h]
      by (simp add: stuck_def evolves_def persists_def multi_ok_def)
    have "safely (settles h ?D) (and_then (http_acts acts ?h1) (\<lambda>h. and_then
        (call_back a (hm_result m) (hm_response_code m) h) (\<lambda>h. and_then (http_users ops h) (finish a))))"
    proof (rule safely_and_then [OF acts_evolve [OF evolves_inv [OF 1]]])
      fix h2 assume "evolves ?h1 {#} h2"
      with evolves_trans [OF 1] have 2: "evolves h {#} h2" and stuck2: "stuck h2 a"
        using evolves_settles stuck1 by (fastforce, auto simp: settles_def)
      from stuck2 obtain i where i: "infos h2 a = Some i" by (auto simp: stuck_def submitted_def split: option.splits)
      show "safely (settles h ?D) (and_then (call_back a (hm_result m) (hm_response_code m) h2)
          (\<lambda>h. and_then (http_users ops h) (finish a)))"
      proof (rule safely_and_then [OF call_back_evolves [OF evolves_inv [OF 2] i stuck2]])
        fix h3 assume 3: "evolves h2 {#i_callback i#} h3"
        show "safely (settles h ?D) (and_then (http_users ops h3) (finish a))"
        proof (rule safely_and_then [OF users_evolve [OF evolves_inv [OF 3] ops]])
          fix h4 assume 4: "evolves h3 ?D h4"
          from evolves_trans [OF 3 4] have 34: "evolves h2 ({#i_callback i#} + ?D) h4" .
          then have "stuck h4 a" "callback_of h4 a = i_callback i"
            using stuck2 i evolves_settles [OF 34]
            by (auto simp: settles_def evolves_def persists_def stuck_def callback_of_def)
          moreover from evolves_trans [OF 2 34] have 24: "settles h ({#i_callback i#} + ?D) h4"
            by (intro evolves_settles) simp
          moreover have "b \<noteq> a" if "stuck h b" for b using that e a(2) by (auto simp: stuck_def)
          ultimately show "safely (settles h ?D) (finish a h4)"
            using finish_settles [of h4 a]
            by (auto simp: settles_def stuck_def [of h4 a] elim!: safely_weaken)
        qed
      qed
    qed
    then show ?thesis by (simp add: info)
  qed
  then show ?thesis by (simp add: d deliver_def safely_expect)
qed

section \<open>Runs\<close>

fun event_callbacks :: "http_event \<Rightarrow> nat multiset" where
  "event_callbacks (Http_user op) = user_callbacks op"
| "event_callbacks (Http_poll w ds) = sum_list (map delivery_callbacks ds)"

fun event_inits :: "http_event \<Rightarrow> handle option list" where
  "event_inits (Http_user op) = user_inits op"
| "event_inits (Http_poll w ds) = concat (map delivery_inits ds)"

lemma poll_settles:
  assumes h: "http_inv h" and inits: "None \<notin> set (concat (map delivery_inits ds))"
  shows "safely (settles h (sum_list (map delivery_callbacks ds))) (http_poll w ds h)"
proof -
  have "safely (settles h ({#} + sum_list (map delivery_callbacks ds))) (http_poll w ds h)"
    unfolding http_poll_def
  proof (rule st.change_then)
    show "safely (settles h {#}) (process_events w h)"
      by (rule safely_weaken [OF process_events_evolves [OF h] evolves_settles])
    show "safely (settles h' (sum_list (map delivery_callbacks ds))) (multi_info_read ds h')"
      if "http_inv h'" for h'
      by (rule st.run_changes [OF _ that]) (use inits in \<open>auto intro!: deliver_settles\<close>)
  qed
  then show ?thesis by simp
qed

lemma http_do_settles:
  "http_inv h \<Longrightarrow> None \<notin> set (event_inits ev) \<Longrightarrow> safely (settles h (event_callbacks ev)) (http_do ev h)"
  by (cases ev) (auto intro: safely_weaken [OF user_evolves evolves_settles] poll_settles)

text \<open>No null handle: the condition under which the client is safe.\<close>

definition handles_given :: "http_event list \<Rightarrow> bool" where
  "handles_given evs \<longleftrightarrow> (\<forall>ev\<in>set evs. None \<notin> set (event_inits ev))"

definition registered :: "http_event list \<Rightarrow> nat multiset" where
  "registered evs = sum_list (map event_callbacks evs)"

lemma http_run_settles:
  "http_inv h \<Longrightarrow> handles_given evs \<Longrightarrow> safely (settles h (registered evs)) (http_run evs h)"
  unfolding registered_def handles_given_def by (rule st.run_changes) (auto intro: http_do_settles)

definition pool_given :: "handle option list \<Rightarrow> bool" where
  "pool_given inits \<longleftrightarrow> length inits = HTTP_POOL \<and> None \<notin> set inits \<and> distinct inits"

lemma new_http_inv:
  assumes "pool_given inits"
  shows "http_inv (new_http inits)"
proof -
  have made: "map Some (List.map_filter (\<lambda>h. h) inits) = inits" if "None \<notin> set inits" for inits :: "handle option list"
    using that by (induction inits) (auto simp: map_filter_simps eq_commute [of None] split: option.split)
  have t: "take HTTP_POOL inits = inits" using assms by (simp add: pool_given_def)
  let ?made = "List.map_filter (\<lambda>h. h) inits"
  have m: "map Some ?made = inits" using made assms by (simp add: pool_given_def)
  then have "distinct ?made" "length ?made = HTTP_POOL"
    using assms unfolding pool_given_def by (metis distinct_map, metis length_map)
  moreover have "mset (map Some ?made) = mset inits" by (simp only: m)
  ultimately show ?thesis
    using assms by (simp add: http_inv_defs new_http_def t pool_given_def submitted_def)
qed

lemma new_http_callbacks [simp]: "callbacks (new_http inits) = {#}"
  by (simp add: callbacks_def new_http_def)

lemma http_reachable:
  assumes "pool_given inits" "handles_given evs" "http_run evs (new_http inits) = Inr h"
  shows "http_inv h" "callbacks h = registered evs"
  using http_run_settles [OF new_http_inv [OF assms(1)] assms(2)] assms(3)
  by (auto simp: settles_def safely_def)

end
