(* ===== verification/Epoll_Props.thy ===== *)
theory Epoll_Props
  imports Epoll_Inv
begin

text \<open>
  The properties of the epoll client: memory safety where handles can be allocated, callbacks
  called exactly once, the size of the pool, the kernel's interest list, what a request sends,
  and what its event loop reports; with the behaviours that differ from what its comments say.
\<close>

section \<open>A sample run\<close>

definition sample_pool :: "handle option list" where
  "sample_pool = map Some [0..<128]"

lemma sample_pool_given: "pool_given sample_pool"
  by (auto simp: pool_given_def sample_pool_def HTTP_POOL_def distinct_map)

text \<open>
  A request with headers is sent; libcurl watches descriptor 9; the answer arrives on it, the
  callback sends another request, which draws another handle.
\<close>

definition append_line :: "string list \<Rightarrow> string \<Rightarrow> string list" where
  "append_line l x = l @ [x]"

definition first_send :: "http_event list" where
  "first_send = [Http_user (New_request (Some 500) 1 ''u'' 11 0), Http_user (Set_headers append_line 1 [''A: b'']),
     Http_user (Send Epoll_get 1 CURLM_OK ([Socket_wanted 9 3], 1) (Wait_idle ([], 1)))]"

definition answer_poll :: http_event where
  "answer_poll = Http_poll (Wait_ready [(9, [Body_data 127 ''xy'', Socket_wanted 9 4], 0)])
     [(\<lparr>hm_handle = 127, hm_result = CURLE_OK, hm_response_code = 200\<rparr>, [],
       [New_request (Some 500) 2 ''v'' 12 0, Send Epoll_post 2 CURLM_OK ([], 1) Wait_failed])]"

definition sample_http :: "http_event list \<Rightarrow> http" where
  "sample_http evs = projr (http_run evs (new_http sample_pool))"

lemma upt_128: "[0..<128] = [0..<126] @ [126, 127]"
  by (simp add: upt_rec [of 126] upt_rec [of 127] upt_add_eq_append [of 0 126 2, simplified])

lemma sample_new:
  "new_http sample_pool = \<lparr>infos = (\<lambda>_. None), request_infos = [],
     eh_pool = map Some [0..<126] @ [Some 126, Some 127],
     handle_count = 0, h_opts = (\<lambda>_. []), h_multi = [],
     h_made = [0..<126] @ [126, 127], fd_set = {},
     epoll_set = (\<lambda>_. None), interest = (\<lambda>_. None), slists = [], socket_actions = [], called = [],
     peak = 0, wire = []\<rparr>"
proof -
  have "List.map_filter (\<lambda>h. h) (map Some xs) = xs" for xs :: "nat list"
    by (induction xs) (simp_all add: map_filter_simps)
  then have "List.map_filter (\<lambda>h. h) sample_pool = [0..<126] @ [126, 127]"
    unfolding sample_pool_def upt_128 .
  moreover have "sample_pool = map Some [0..<126] @ [Some 126, Some 127]"
    unfolding sample_pool_def upt_128 by (simp del: upt_rec_numeral)
  moreover have "take HTTP_POOL sample_pool = sample_pool"
    by (simp add: sample_pool_def HTTP_POOL_def del: upt_rec_numeral)
  ultimately show ?thesis by (simp add: new_http_def del: upt_rec_numeral)
qed

lemmas http_eval = sample_http_def first_send_def answer_poll_def append_line_def http_request_def
  draw_handle_def epoll_set_headers_def epoll_send_def submit_def http_setopts_def request_opts_def
  RequestInfo_def buildable_def http_action_def socket_fn_def e_table_def process_events_def
  http_poll_def deliver_def info_of_def last_set_def call_back_def finish_def slist_free_all_def
  write_body_def HTTP_POOL_def c_str_def Let_def butlast_append

lemma sample_http_runs:
  "http_run (first_send @ [answer_poll]) (new_http sample_pool) = Inr (sample_http (first_send @ [answer_poll]))"
  unfolding sample_http_def sample_new by (simp add: http_eval del: upt_rec_numeral)

lemma sample_given: "handles_given evs \<Longrightarrow> http_run evs (new_http sample_pool) = Inr h \<Longrightarrow>
    http_inv h \<and> callbacks h = registered evs"
  using http_reachable [OF sample_pool_given] by blast

section \<open>Safety and accounting\<close>

text \<open>
  C29: The epoll client is memory safe when handles can be allocated: no run of its users, its
  callbacks and libcurl follows a pointer to a request that is gone, indexes the table of events
  out of bounds, or frees a header list twice.
\<close>

theorem epoll_memory_safe:
  assumes "pool_given inits" "handles_given evs"
  shows "http_run evs (new_http inits) \<noteq> Inl Undefined"
  using http_run_settles [OF new_http_inv [OF assms(1)] assms(2)] by (auto simp: safely_def)

theorem epoll_memory_safe_witness:
  "http_run [Http_user (New_request (Some 500) 1 ''u'' 11 0)] (new_http sample_pool) \<noteq> Inl Undefined"
  by (rule epoll_memory_safe [OF sample_pool_given]) (simp add: handles_given_def)

text \<open>
  Where the constructor's last \<open>curl_easy_init\<close> failed, the first request is undefined: the null
  pointer went into the pool unchecked.
\<close>

lemma null_handle_is_undefined:
  assumes "length inits = HTTP_POOL" "last inits = None"
  shows "http_run [Http_user (New_request (Some e) it url fn custom_data)] (new_http inits) = Inl Undefined \<or>
    http_run [Http_user (New_request (Some e) it url fn custom_data)] (new_http inits) = Inl Breach"
proof -
  have "inits \<noteq> []" using assms(1) by (auto simp: HTTP_POOL_def)
  then show ?thesis
    using assms by (simp add: new_http_def http_request_def draw_handle_def expect_def)
qed

text \<open>
  C31: Every callback given to \<open>request\<close> is called at most once, and exactly once for each request
  that has left the list of requests: those registered are the ones of the requests alive and the
  ones called, so when no request is alive all have been called.
\<close>

theorem epoll_callbacks_once:
  assumes "pool_given inits" "handles_given evs" "http_run evs (new_http inits) = Inr h"
  shows "mset (map fst (called h)) \<subseteq># registered evs \<and>
    mset (map (callback_of h) (request_infos h)) + mset (map fst (called h)) = registered evs \<and>
    (request_infos h = [] \<longrightarrow> mset (map fst (called h)) = registered evs)"
proof -
  have b: "mset (map (callback_of h) (request_infos h)) + mset (map fst (called h)) = registered evs"
    using http_reachable(2) [OF assms] unfolding callbacks_def .
  then have "mset (map fst (called h)) \<subseteq># registered evs" by (metis mset_subset_eq_add_right)
  with b show ?thesis by auto
qed

theorem epoll_callbacks_once_witness:
  "map fst (called (sample_http (first_send @ [answer_poll]))) = [11] \<and>
   mset (map fst (called (sample_http (first_send @ [answer_poll])))) \<subseteq># {# 11, 12 #}"
proof -
  have "handles_given (first_send @ [answer_poll])" "registered (first_send @ [answer_poll]) = {# 11, 12 #}"
    by (simp_all add: handles_given_def registered_def first_send_def answer_poll_def)
  moreover have "map fst (called (sample_http (first_send @ [answer_poll]))) = [11]"
    unfolding sample_http_def sample_new by (simp add: http_eval del: upt_rec_numeral)
  ultimately show ?thesis
    using epoll_callbacks_once [OF sample_pool_given _ sample_http_runs] by simp
qed

text \<open>
  C32: The size of the pool. Every easy handle the client ever created is in the pool or serves
  exactly one live request, and there are as many as the most requests that were ever alive at
  once, but at least \<open>HTTP_POOL\<close>: the pool grows with demand and never shrinks.
\<close>

theorem epoll_pool_bounds:
  assumes "pool_given inits" "handles_given evs" "http_run evs (new_http inits) = Inr h"
  shows "mset (map Some (h_made h)) = mset (eh_pool h) + mset (map (\<lambda>a. Some (eh_of h a)) (request_infos h)) \<and>
    distinct (h_made h) \<and> length (request_infos h) \<le> peak h \<and> length (h_made h) = max HTTP_POOL (peak h)"
  using http_reachable(1) [OF assms] unfolding http_inv_def pool_ok_def peak_ok_def by blast

theorem epoll_pool_bounds_witness:
  "length (h_made (sample_http first_send)) = 128 \<and> distinct (h_made (sample_http first_send))"
proof -
  have "handles_given first_send" by (simp add: handles_given_def first_send_def)
  moreover have run: "http_run first_send (new_http sample_pool) = Inr (sample_http first_send)"
    "peak (sample_http first_send) = 1"
    unfolding sample_http_def sample_new by (simp_all add: http_eval del: upt_rec_numeral)
  ultimately show ?thesis
    using epoll_pool_bounds [OF sample_pool_given _ run(1)] by (simp add: HTTP_POOL_def)
qed

text \<open>
  C33: The kernel watches what libcurl wants: a descriptor is in the interest list exactly while
  libcurl wants something of it, for reading if and only if it asked to read and for writing if
  and only if it asked to write, and \<open>fd_set_\<close> holds exactly these descriptors.
\<close>

theorem epoll_interest_mirrored:
  assumes "pool_given inits" "handles_given evs" "http_run evs (new_http inits) = Inr h"
  shows "epoll_set h s = map_option (\<lambda>epe. e_table ! nat epe) (interest h s) \<and>
    (s \<in> fd_set h \<longleftrightarrow> interest h s \<noteq> None) \<and>
    (interest h s = Some epe \<and> epe \<in> {0..3} \<longrightarrow>
      (bit (the (epoll_set h s)) 0 \<longleftrightarrow> odd epe) \<and> (bit (the (epoll_set h s)) 2 \<longleftrightarrow> epe \<ge> 2))"
proof -
  have ok: "epoll_ok h" using http_reachable(1) [OF assms] by (simp add: http_inv_def)
  have "(bit (e_table ! nat epe) 0 \<longleftrightarrow> odd epe) \<and> (bit (e_table ! nat epe) 2 \<longleftrightarrow> epe \<ge> 2)"
    if "epe \<in> {0..3}"
  proof -
    from that have "epe = 0 \<or> epe = 1 \<or> epe = 2 \<or> epe = 3" by auto
    then show ?thesis by (auto simp: e_table_def bit_simps)
  qed
  with ok show ?thesis by (auto simp: epoll_ok_def)
qed

theorem epoll_interest_mirrored_witness:
  "9 \<in> fd_set (sample_http first_send) \<and> bit (the (epoll_set (sample_http first_send) 9)) 2"
proof -
  have "handles_given first_send" by (simp add: handles_given_def first_send_def)
  moreover have run: "http_run first_send (new_http sample_pool) = Inr (sample_http first_send)"
    "interest (sample_http first_send) 9 = Some 3"
    unfolding sample_http_def sample_new by (simp_all add: http_eval del: upt_rec_numeral)
  ultimately have "9 \<in> fd_set (sample_http first_send)" "bit (the (epoll_set (sample_http first_send) 9)) 2"
    using epoll_interest_mirrored [OF sample_pool_given _ run(1), of 9 3] by (simp_all only: run(2), auto)
  then show ?thesis by simp
qed

text \<open>
  A request whose \<open>curl_multi_add_handle\<close> fails is never completed: \<open>submit\<close> ignores the
  result, so the request stays in the list for ever, whatever happens afterwards, and its
  callback waits with it.
\<close>

theorem epoll_failed_submit_stuck:
  assumes "pool_given inits" "handles_given evs" "http_run evs (new_http inits) = Inr h"
    and "rc \<noteq> CURLM_OK" "do_http_user (Send v it rc answer w) h = Inr h1"
    and "handles_given late" "http_run late h1 = Inr h2"
  shows "it \<in> set (request_infos h2) \<and> it \<in> set (request_infos h1) \<and> Some (eh_of h2 it) \<notin> set (eh_pool h2)"
proof -
  have h: "http_inv h" by (rule http_reachable(1) [OF assms(1-3)])
  have b: "buildable it h" using assms(5) by (simp add: expect_Inr)
  have sent: "epoll_send v it rc answer w h = Inr h1" using assms(5) by (simp add: expect_Inr)
  have 1: "stuck h1 it" by (rule failed_send_stuck [OF h b assms(4) sent])
  have "http_inv h1" using send_evolves [OF h b, of v rc answer w] sent by (simp add: safely_def evolves_def)
  note inv1 = this
  from http_run_settles [OF inv1 assms(6)] assms(7) have 2: "http_inv h2" "stuck h2 it"
    using 1 by (auto simp: safely_def settles_def)
  have live: "it \<in> set (request_infos h1)" "it \<in> set (request_infos h2)"
    using submitted_live http_invD(1) [OF inv1] http_invD(1) [OF 2(1)] 1 2(2) by (auto simp: stuck_def)
  then show ?thesis using pooled_distinct(2) [OF http_invD(2) [OF 2(1)], of "eh_of h2 it"] by auto
qed

theorem epoll_failed_submit_stuck_witness:
  "1 \<in> set (request_infos (sample_http [Http_user (New_request (Some 500) 1 ''u'' 11 0),
     Http_user (Send Epoll_get 1 CURLM_OUT_OF_MEMORY ([], 0) Wait_failed), Http_poll (Wait_idle ([], 0)) []]))"
proof -
  let ?new = "Http_user (New_request (Some 500) 1 ''u'' 11 0)" and ?late = "[Http_poll (Wait_idle ([], 0)) []]"
  let ?send = "Send Epoll_get 1 CURLM_OUT_OF_MEMORY ([], 0) Wait_failed"
  have given: "handles_given [?new]" "handles_given ?late" by (simp_all add: handles_given_def)
  have "http_run [?new] (new_http sample_pool) = Inr (sample_http [?new])"
    "do_http_user ?send (sample_http [?new]) = Inr (sample_http [?new, Http_user ?send])"
    "http_run ?late (sample_http [?new, Http_user ?send]) = Inr (sample_http [?new, Http_user ?send, Http_poll (Wait_idle ([], 0)) []])"
    unfolding sample_http_def sample_new by (simp_all add: http_eval del: upt_rec_numeral)
  from epoll_failed_submit_stuck [OF sample_pool_given given(1) this(1) _ this(2) given(2) this(3)]
  show ?thesis by simp
qed

section \<open>What requests send, and what the loop reports\<close>

text \<open>What libcurl's callbacks leave alone.\<close>

lemma act_frame:
  assumes "do_http_act a h = Inr h'"
  shows "socket_actions h' = socket_actions h \<and> h_opts h' = h_opts h \<and> handle_count h' = handle_count h \<and>
    called h' = called h \<and> map_option i_eh (infos h' b) = map_option i_eh (infos h b)"
  using assms
  by (cases a) (auto simp: expect_Inr and_then_Inr deref_Inr socket_fn_def write_body_def write_header_def Let_def
      split: if_splits option.splits opt_value.splits callback.splits)

lemma acts_frame:
  "http_acts as h = Inr h' \<Longrightarrow> socket_actions h' = socket_actions h \<and> h_opts h' = h_opts h \<and>
     handle_count h' = handle_count h \<and> called h' = called h \<and> map_option i_eh (infos h' b) = map_option i_eh (infos h b)"
proof (induction as arbitrary: h)
  case Nil
  then show ?case by simp
next
  case (Cons a as)
  then obtain h1 where "do_http_act a h = Inr h1" "http_acts as h1 = Inr h'" by (auto simp: and_then_Inr)
  with Cons.IH act_frame show ?case by metis
qed

lemma action_frame:
  assumes "http_action s answer h = Inr h'"
  shows "socket_actions h' = socket_actions h @ [s] \<and> handle_count h' = snd answer \<and> h_opts h' = h_opts h \<and>
    called h' = called h \<and> map_option i_eh (infos h' b) = map_option i_eh (infos h b)"
  using assms by (cases answer) (auto simp: http_action_def and_then_Inr dest!: acts_frame [where b = b])

lemma actions_frame:
  "run_all (\<lambda>(s, answer). http_action (Some s) answer) evs h = Inr h' \<Longrightarrow>
     socket_actions h' = socket_actions h @ map (\<lambda>ev. Some (fst ev)) evs \<and>
     (evs \<noteq> [] \<longrightarrow> handle_count h' = snd (snd (last evs))) \<and> h_opts h' = h_opts h \<and>
     called h' = called h \<and> map_option i_eh (infos h' b) = map_option i_eh (infos h b)"
proof (induction evs arbitrary: h)
  case Nil
  then show ?case by simp
next
  case (Cons ev evs)
  then obtain h1 where 1: "http_action (Some (fst ev)) (snd ev) h = Inr h1"
    "run_all (\<lambda>(s, answer). http_action (Some s) answer) evs h1 = Inr h'"
    by (auto simp: and_then_Inr split: prod.splits)
  from Cons.IH [OF 1(2)] action_frame [OF 1(1), of b] 1(2) show ?case by (cases "evs = []") auto
qed

fun reported :: "wait_answer \<Rightarrow> int option list" where
  "reported Wait_failed = []"
| "reported (Wait_idle answer) = [None]"
| "reported (Wait_ready evs) = map (\<lambda>ev. Some (fst ev)) evs"

lemma process_events_frame:
  assumes "process_events w h = Inr h'"
  shows "socket_actions h' = socket_actions h @ reported w \<and> h_opts h' = h_opts h \<and> called h' = called h \<and>
    map_option i_eh (infos h' b) = map_option i_eh (infos h b)"
  using assms by (cases w) (auto simp: process_events_def expect_Inr dest: action_frame [where b = b] actions_frame [where b = b])

text \<open>
  \<open>process_events\<close> reports to libcurl exactly what \<open>epoll_wait\<close> found: each ready descriptor
  once and in order, the timeout when none is ready, nothing when the wait failed, and never more
  than \<open>HTTP_POOL\<close> at a time; afterwards the count is the one libcurl wrote last.
\<close>

theorem epoll_ready_reported:
  assumes "process_events w h = Inr h'"
  shows "socket_actions h' = socket_actions h @ reported w \<and> length (reported w) \<le> HTTP_POOL \<and>
    epoll_pending_requests h' = (case w of Wait_failed \<Rightarrow> epoll_pending_requests h
      | Wait_idle answer \<Rightarrow> snd answer | Wait_ready evs \<Rightarrow> snd (snd (last evs)))"
  using process_events_frame [OF assms] assms
  by (cases w) (auto simp: process_events_def expect_Inr HTTP_POOL_def epoll_pending_requests_def
      dest: action_frame actions_frame)

theorem epoll_ready_reported_witness:
  "\<exists>h. process_events (Wait_ready [(9, [], 4)]) (sample_http first_send) = Inr h \<and>
     last (socket_actions h) = Some 9 \<and> epoll_pending_requests h = 4"
proof -
  let ?h = "projr (process_events (Wait_ready [(9, [], 4)]) (sample_http first_send))"
  have "process_events (Wait_ready [(9, [], 4)]) (sample_http first_send) = Inr ?h"
    unfolding sample_http_def sample_new by (simp add: http_eval del: upt_rec_numeral)
  from epoll_ready_reported [OF this] this show ?thesis by (intro exI [of _ ?h]) simp
qed

text \<open>The option calls an operation makes on the handle of its request.\<close>

fun user_opts :: "http_user \<Rightarrow> setopt list" where
  "user_opts (New_request init it url fn custom_data) = request_opts it url"
| "user_opts (Set_headers slist_append it headers) =
     (let chunk = foldl (\<lambda>chunk header. slist_append chunk (c_str header)) [] headers
      in [(CURLOPT_HTTPHEADER, if chunk = [] then Null else Slist chunk)])"
| "user_opts (Set_body it b) = [(CURLOPT_POSTFIELDSIZE, Long (int (length b))), (CURLOPT_POSTFIELDS, Body_ptr it)]"
| "user_opts (Enable_headers it) = [(CURLOPT_HEADERDATA, Header_buffer_ptr it), (CURLOPT_HEADERFUNCTION, Fn Write_fn)]"
| "user_opts (Send v it rc answer w) = verb_opts v"

text \<open>Operations on the builder of the request at \<open>it\<close>, before it is sent.\<close>

fun builds :: "addr \<Rightarrow> http_user \<Rightarrow> bool" where
  "builds a (New_request init it url fn custom_data) \<longleftrightarrow> False"
| "builds a (Set_headers slist_append it headers) \<longleftrightarrow> it = a"
| "builds a (Set_body it b) \<longleftrightarrow> it = a"
| "builds a (Enable_headers it) \<longleftrightarrow> it = a"
| "builds a (Send v it rc answer w) \<longleftrightarrow> False"

fun epoll_verb_name :: "epoll_verb \<Rightarrow> string" where
  "epoll_verb_name Epoll_get = ''GET''"
| "epoll_verb_name Epoll_post = ''POST''"
| "epoll_verb_name Epoll_del = ''DELETE''"
| "epoll_verb_name Epoll_put = ''PUT''"

lemma build_log:
  assumes "do_http_user op h = Inr h'" "builds it op" "infos h it = Some i"
  shows "\<exists>i'. infos h' it = Some i' \<and> i_eh i' = i_eh i \<and>
    h_opts h' (i_eh i) = h_opts h (i_eh i) @ user_opts op"
  using assms
  by (cases op) (auto simp: expect_Inr epoll_set_headers_def epoll_set_body_def enable_response_headers_def
      http_setopts_def Let_def)

lemma builds_log:
  "http_users ops h = Inr h' \<Longrightarrow> \<forall>op\<in>set ops. builds it op \<Longrightarrow> infos h it = Some i \<Longrightarrow>
     \<exists>i'. infos h' it = Some i' \<and> i_eh i' = i_eh i \<and>
       h_opts h' (i_eh i) = h_opts h (i_eh i) @ concat (map user_opts ops)"
proof (induction ops arbitrary: h i)
  case Nil
  then show ?case by simp
next
  case (Cons op ops)
  then obtain h1 where h1: "do_http_user op h = Inr h1" "http_users ops h1 = Inr h'" by (auto simp: and_then_Inr)
  from build_log [OF h1(1), of it i] Cons.prems obtain i1 where i1: "infos h1 it = Some i1" "i_eh i1 = i_eh i"
    "h_opts h1 (i_eh i) = h_opts h (i_eh i) @ user_opts op" by auto
  from Cons.IH [OF h1(2) _ i1(1)] Cons.prems i1 show ?case by auto
qed

lemma send_log:
  assumes sent: "epoll_send v it rc answer w h = Inr h'" and i: "infos h it = Some i"
  shows "\<exists>i'. infos h' it = Some i' \<and> i_eh i' = i_eh i \<and>
    h_opts h' (i_eh i) = h_opts h (i_eh i) @ verb_opts v"
proof -
  let ?h = "entered it i rc (http_setopts (i_eh i) (verb_opts v) h)"
  from sent i obtain h1 where h1: "http_action None answer ?h = Inr h1" "process_events w h1 = Inr h'"
    by (auto simp: epoll_send_def submit_entered and_then_Inr)
  have "h_opts ?h = (h_opts h)(i_eh i := h_opts h (i_eh i) @ verb_opts v)"
    "map_option i_eh (infos ?h it) = Some (i_eh i)"
    by (simp_all add: entered_def http_setopts_def Let_def)
  with action_frame [OF h1(1), of it] process_events_frame [OF h1(2), of it] show ?thesis by auto
qed

lemma built_verb:
  assumes "\<forall>op\<in>set ops. builds it op"
  shows "wire_verb (request_opts it url @ concat (map user_opts ops) @ verb_opts v) = epoll_verb_name v"
    "last_set (request_opts it url @ concat (map user_opts ops) @ verb_opts v) CURLOPT_URL = Some (Str (c_str url))"
proof -
  have no: "opt \<notin> fst ` set (concat (map user_opts ops))" if "opt \<in> {CURLOPT_CUSTOMREQUEST, CURLOPT_HTTPGET, CURLOPT_URL}" for opt
    using that assms by (induction ops) (auto simp: Let_def elim!: builds.elims)
  have none: "last_set (concat (map user_opts ops)) CURLOPT_CUSTOMREQUEST = None"
    "last_set (concat (map user_opts ops)) CURLOPT_URL = None"
    by (simp_all add: last_set_None no del: set_concat)
  then show "last_set (request_opts it url @ concat (map user_opts ops) @ verb_opts v) CURLOPT_URL = Some (Str (c_str url))"
    by (cases v) (simp_all add: last_set_append last_set_Cons request_opts_def)
  have kind: "fold kind_after calls Post_request = Post_request" if "CURLOPT_HTTPGET \<notin> fst ` set calls" for calls
    using that by (induction calls) (auto split: prod.split)
  have "request_kind (request_opts it url @ concat (map user_opts ops)) = Post_request"
    unfolding request_kind_append using kind [OF no [of CURLOPT_HTTPGET]]
    by (simp add: request_kind_def request_opts_def del: set_concat)
  then have "request_kind ((request_opts it url @ concat (map user_opts ops)) @ verb_opts v) =
      (if v = Epoll_get then Get_request else Post_request)"
    by (cases v) (simp_all add: request_kind_append del: append_assoc)
  with none show "wire_verb (request_opts it url @ concat (map user_opts ops) @ verb_opts v) = epoll_verb_name v"
    by (cases v) (simp_all add: wire_verb_def last_set_append last_set_Cons request_opts_def)
qed

text \<open>
  C34: A request is sent as it was built, whatever its handle served before: the log of the handle
  holds the calls of \<open>request\<close>, of the builder and of the verb and nothing else, so that the URL
  and the method on the wire are the ones the user gave.
\<close>

theorem epoll_request_as_built:
  assumes "http_users (New_request init it url fn custom_data # ops @ [Send v it rc answer w]) h = Inr h'"
    and "\<forall>op\<in>set ops. builds it op"
  shows "\<exists>i. infos h' it = Some i \<and>
    h_opts h' (i_eh i) = request_opts it url @ concat (map user_opts ops) @ verb_opts v \<and>
    wire_verb (h_opts h' (i_eh i)) = epoll_verb_name v \<and>
    last_set (h_opts h' (i_eh i)) CURLOPT_URL = Some (Str (c_str url))"
proof -
  from assms(1) obtain h1 h2 where
    1: "do_http_user (New_request init it url fn custom_data) h = Inr h1" and
    2: "http_users ops h1 = Inr h2" and 3: "epoll_send v it rc answer w h2 = Inr h'"
    by (auto simp: run_all_append and_then_Inr expect_Inr)
  from 1 obtain i where i: "infos h1 it = Some i" "h_opts h1 (i_eh i) = request_opts it url"
    by (auto simp: expect_Inr http_request_def and_then_Inr draw_handle_def http_setopts_def Let_def RequestInfo_def
        split: if_splits option.splits)
  from builds_log [OF 2 assms(2) i(1)] i(2) obtain i2 where i2: "infos h2 it = Some i2"
    "h_opts h2 (i_eh i2) = request_opts it url @ concat (map user_opts ops)" by auto
  from send_log [OF 3 i2(1)] i2(2) built_verb [OF assms(2), of url v] show ?thesis by auto
qed

theorem epoll_request_as_built_witness:
  "\<exists>h i. http_users [New_request (Some 500) 1 ''u'' 11 0, Set_body 1 ''xy'',
       Send Epoll_put 1 CURLM_OK ([], 1) Wait_failed] (new_http sample_pool) = Inr h \<and>
     infos h 1 = Some i \<and> wire_verb (h_opts h (i_eh i)) = ''PUT''"
proof -
  let ?h = "projr (http_users (New_request (Some 500) 1 ''u'' 11 0 # [Set_body 1 ''xy''] @
       [Send Epoll_put 1 CURLM_OK ([], 1) Wait_failed]) (new_http sample_pool))"
  have run: "http_users (New_request (Some 500) 1 ''u'' 11 0 # [Set_body 1 ''xy''] @
       [Send Epoll_put 1 CURLM_OK ([], 1) Wait_failed]) (new_http sample_pool) = Inr ?h"
    unfolding sample_new by (simp add: http_eval epoll_set_body_def del: upt_rec_numeral)
  from epoll_request_as_built [OF run] obtain i where "infos ?h 1 = Some i"
    "wire_verb (h_opts ?h (i_eh i)) = ''PUT''" by auto
  with run show ?thesis by (intro exI [of _ ?h] exI [of _ i]) simp
qed

text \<open>The header lists that no live request will free.\<close>

definition orphans :: "http \<Rightarrow> string list multiset" where
  "orphans h = mset (slists h) - filter_mset (\<lambda>c. c \<noteq> []) (mset (map (list_of h) (request_infos h)))"

text \<open>
  Calling \<open>set_headers\<close> again on a request, which its comment allows, leaks the list of the
  earlier call: no request owns it any more, and the new list takes its place.
\<close>

theorem epoll_headers_leak:
  assumes "pool_given inits" "handles_given evs" "http_run evs (new_http inits) = Inr h"
    and "infos h it = Some i" "i_header_list i \<noteq> []"
    and "do_http_user (Set_headers slist_append it headers) h = Inr h'"
  shows "orphans h' = add_mset (i_header_list i) (orphans h)"
proof -
  have h: "http_inv h" by (rule http_reachable(1) [OF assms(1-3)])
  note inv = http_invD [OF h]
  define chunk where "chunk = foldl (\<lambda>chunk header. slist_append chunk (c_str header)) [] headers"
  have "h' = put_info it (i\<lparr>i_header_list := chunk\<rparr>)
      (let h1 = http_setopts (i_eh i) [(CURLOPT_HTTPHEADER, if chunk = [] then Null else Slist chunk)] h
       in if chunk = [] then h1 else h1\<lparr>slists := chunk # slists h1\<rparr>)"
    using assms(4,6) unfolding do_http_user.simps epoll_set_headers_def Let_def chunk_def [symmetric]
    by (simp add: expect_Inr)
  then have h': "slists h' = (if chunk = [] then slists h else chunk # slists h)"
    "request_infos h' = request_infos h" "infos h' = (infos h)(it := Some (i\<lparr>i_header_list := chunk\<rparr>))"
    by (simp_all add: http_setopts_def Let_def)
  have at: "list_of h' = (list_of h)(it := chunk)" "list_of h it = i_header_list i"
    using assms(4) by (auto simp: list_of_def h' fun_eq_iff)
  have d: "distinct (request_infos h)" "it \<in> set (request_infos h)"
    using inv(1) infos_live [OF inv(1) assms(4)] by (simp_all add: info_nodes_def)
  let ?rest = "filter_mset (\<lambda>c. c \<noteq> []) (mset (map (list_of h) (remove1 it (request_infos h))))"
  have own: "filter_mset (\<lambda>c. c \<noteq> []) (mset (map (list_of h) (request_infos h))) = add_mset (i_header_list i) ?rest"
    unfolding mset_map_upd(2) [OF d, of "list_of h"] using assms(5) at(2) by simp
  have own': "filter_mset (\<lambda>c. c \<noteq> []) (mset (map (list_of h') (request_infos h'))) =
      (if chunk = [] then ?rest else add_mset chunk ?rest)"
    unfolding h'(2) at(1) mset_map_upd(1) [OF d] by simp
  have sub: "add_mset (i_header_list i) ?rest \<subseteq># mset (slists h)"
    using inv(5) unfolding lists_ok_def own .
  then obtain M where "mset (slists h) = add_mset (i_header_list i) ?rest + M"
    by (auto simp: mset_subset_eq_exists_conv)
  then have M: "mset (slists h) = ?rest + add_mset (i_header_list i) M" by simp
  have "orphans h = M" unfolding orphans_def own M by simp
  moreover have "orphans h' = add_mset (i_header_list i) M"
    unfolding orphans_def own' using M by (simp add: h'(1))
  ultimately show ?thesis by simp
qed

theorem epoll_headers_leak_witness:
  "\<exists>h. orphans h = {# [''A: b''] #} \<and>
     do_http_user (Set_headers append_line 1 [''C: d'']) (sample_http [Http_user (New_request (Some 500) 1 ''u'' 11 0),
       Http_user (Set_headers append_line 1 [''A: b''])]) = Inr h"
proof -
  let ?evs = "[Http_user (New_request (Some 500) 1 ''u'' 11 0), Http_user (Set_headers append_line 1 [''A: b''])]"
  let ?again = "Set_headers append_line 1 [''C: d'']"
  let ?h = "projr (do_http_user ?again (sample_http ?evs))"
  have given: "handles_given ?evs" by (simp add: handles_given_def)
  have run: "http_run ?evs (new_http sample_pool) = Inr (sample_http ?evs)"
    "do_http_user ?again (sample_http ?evs) = Inr ?h"
    unfolding sample_http_def sample_new by (simp_all add: http_eval del: upt_rec_numeral)
  obtain i where i: "infos (sample_http ?evs) 1 = Some i" "i_header_list i = [''A: b'']"
    unfolding sample_http_def sample_new by (simp add: http_eval del: upt_rec_numeral)
  have none: "orphans (sample_http ?evs) = {#}"
    unfolding sample_http_def sample_new by (simp add: http_eval orphans_def list_of_def del: upt_rec_numeral)
  from epoll_headers_leak [OF sample_pool_given given run(1) i(1) _ run(2)] i(2) none run(2)
  show ?thesis by auto
qed

section \<open>What a request is answered with\<close>

lemma user_calls_nothing:
  assumes "do_http_user op h = Inr h'"
  shows "called h' = called h"
proof (cases op)
  case (Send v it rc answer w)
  with assms obtain i where i: "infos h it = Some i" "epoll_send v it rc answer w h = Inr h'"
    by (auto simp: expect_Inr buildable_def split: option.splits)
  then obtain h1 where "http_action None answer (entered it i rc (http_setopts (i_eh i) (verb_opts v) h)) = Inr h1"
    "process_events w h1 = Inr h'"
    by (auto simp: epoll_send_def submit_entered and_then_Inr)
  then show ?thesis
    using action_frame process_events_frame by (fastforce simp: entered_def http_setopts_def Let_def)
qed (use assms in \<open>auto simp: expect_Inr http_request_def draw_handle_def epoll_set_headers_def epoll_set_body_def
    enable_response_headers_def http_setopts_def and_then_Inr deref_Inr Let_def split: if_splits option.splits\<close>)

lemma users_call_nothing: "http_users ops h = Inr h' \<Longrightarrow> called h' = called h"
proof (induction ops arbitrary: h)
  case Nil
  then show ?case by simp
next
  case (Cons op ops)
  then show ?case using user_calls_nothing by (fastforce simp: and_then_Inr)
qed

text \<open>
  C30: A request is answered with its own response: its callback is called with the reported code and
  status, its custom data, and exactly the body bytes received on its handle since the request
  was made, in order, with the header bytes received, or none if headers were not enabled for it;
  whatever happened to other requests and however often the handle was used before. Nothing else
  is called in that iteration.
\<close>

theorem epoll_response_is_own:
  assumes "pool_given inits" "handles_given evs" "http_run evs (new_http inits) = Inr h"
    and "deliver (m, acts, ops) h = Inr h'"
  shows "\<exists>a i. infos h a = Some i \<and> i_submitted i \<and> i_eh i = hm_handle m \<and>
    called h' = called h @ [(i_callback i, \<lparr>ri_curl_code = hm_result m, ri_http_code = hm_response_code m,
      ri_data = received Body (wire h) i, ri_header_data = header_bytes h i, ri_custom_data = i_custom_data i\<rparr>)]"
proof -
  have h: "http_inv h" by (rule http_reachable(1) [OF assms(1-3)])
  let ?e = "hm_handle m"
  let ?h1 = "h\<lparr>h_multi := remove1 ?e (h_multi h)\<rparr>"
  from assms(4) have e: "?e \<in> set (h_multi h)" by (simp add: deliver_def expect_Inr)
  from multi_log [OF h e] obtain a i where a: "submitted h a" "infos h a = Some i" "i_eh i = ?e" "eh_of h a = ?e"
    "log_ok a (h_opts h ?e)" by blast
  from assms(4) a(5) obtain h2 h3 h4 where
    2: "http_acts acts ?h1 = Inr h2" and 3: "call_back a (hm_result m) (hm_response_code m) h2 = Inr h3" and
    4: "http_users ops h3 = Inr h4" and 5: "finish a h4 = Inr h'"
    by (auto simp: deliver_def expect_Inr and_then_Inr info_of_def log_ok_def)
  have inv1: "http_inv ?h1" by (rule evolves_inv [OF remove_evolves [OF h]])
  have "stuck ?h1 a" using a(1,4) http_invD(4) [OF h] by (simp add: stuck_def submitted_def eh_of_def multi_ok_def)
  from acts_spare_stuck [OF inv1 this 2] a(2) have i2: "infos h2 a = Some i" "called h2 = called h" by simp_all
  have "i_buffer i = received Body (wire h) i \<and> i_header_buffer i = header_bytes h i"
    using http_invD(8) [OF h] a e by (auto simp: bytes_ok_def own_bytes_def stuck_def)
  with 3 i2 have "called h3 = called h @ [(i_callback i, \<lparr>ri_curl_code = hm_result m,
      ri_http_code = hm_response_code m, ri_data = received Body (wire h) i, ri_header_data = header_bytes h i,
      ri_custom_data = i_custom_data i\<rparr>)]"
    by (auto simp: call_back_def)
  moreover have "called h' = called h4"
    using 5 by (auto simp: finish_def slist_free_all_def and_then_Inr deref_Inr split: if_splits)
  ultimately show ?thesis using users_call_nothing [OF 4] a by (auto simp: submitted_def)
qed

theorem epoll_response_is_own_witness:
  "\<exists>h h' i. deliver (\<lparr>hm_handle = 127, hm_result = CURLE_OK, hm_response_code = 200\<rparr>, [], []) h = Inr h' \<and>
     called h' = [(11, \<lparr>ri_curl_code = CURLE_OK, ri_http_code = 200, ri_data = ''xyz'', ri_header_data = ''A: b'',
       ri_custom_data = 0\<rparr>)]"
proof -
  let ?evs = "[Http_user (New_request (Some 500) 1 ''u'' 11 0), Http_user (Enable_headers 1),
    Http_user (Send Epoll_get 1 CURLM_OK ([Socket_wanted 9 3], 1) (Wait_idle ([Header_data 127 ''A: b''], 1))),
    Http_poll (Wait_ready [(9, [Body_data 127 ''xy'', Body_data 127 ''z''], 0)]) []]"
  let ?m = "\<lparr>hm_handle = 127, hm_result = CURLE_OK, hm_response_code = 200\<rparr>"
  let ?h = "sample_http ?evs" and ?h' = "projr (deliver (?m, [], []) (sample_http ?evs))"
  note eval = http_eval enable_response_headers_def write_header_def
  have given: "handles_given ?evs" by (simp add: handles_given_def)
  have run: "http_run ?evs (new_http sample_pool) = Inr ?h" "deliver (?m, [], []) ?h = Inr ?h'"
    unfolding sample_http_def sample_new by (simp_all add: eval del: upt_rec_numeral)
  have h: "called ?h = []" "\<And>a. a \<noteq> 1 \<Longrightarrow> infos ?h a = None"
    "\<exists>i. infos ?h 1 = Some i \<and> i_callback i = 11 \<and> received Body (wire ?h) i = ''xyz'' \<and>
       header_bytes ?h i = ''A: b'' \<and> i_custom_data i = 0"
    unfolding sample_http_def sample_new
    by (simp_all add: eval received_def header_bytes_def headers_enabled_def del: upt_rec_numeral)
  from epoll_response_is_own [OF sample_pool_given given run] obtain a i where
    a: "infos ?h a = Some i" and c: "called ?h' = called ?h @ [(i_callback i, \<lparr>ri_curl_code = hm_result ?m,
      ri_http_code = hm_response_code ?m, ri_data = received Body (wire ?h) i, ri_header_data = header_bytes ?h i,
      ri_custom_data = i_custom_data i\<rparr>)]" by blast
  from a h(2) have "a = 1" by (metis option.distinct(1))
  with a h(3) c h(1) run(2) show ?thesis by (intro exI [of _ ?h] exI [of _ ?h'] exI [of _ i]) auto
qed

text \<open>Destroying the client cleans up none of its easy handles, and is safe.\<close>

lemma destroy_keeps_handles:
  assumes "pool_given inits" "handles_given evs" "http_run evs (new_http inits) = Inr h"
  shows "safely (\<lambda>h'. HTTP_POOL \<le> length (h_made h') \<and> infos h' = (\<lambda>_. None) \<and> eh_pool h' = []) (http_destroy acts h)"
proof -
  have h: "http_inv h" by (rule http_reachable(1) [OF assms])
  have "http_inv (h\<lparr>h_multi := []\<rparr>)"
  proof -
    have same: "infos (h\<lparr>h_multi := []\<rparr>) = infos h" by simp
    show ?thesis using h
      by (auto simp: http_inv_def info_nodes_def pool_ok_def logs_ok_def multi_ok_def lists_ok_def epoll_ok_def
          peak_ok_def bytes_ok_def own_bytes_def header_bytes_def headers_enabled_def stuck_def at_frame [OF same])
  qed
  from acts_evolve [OF this, of acts] show ?thesis
    unfolding http_destroy_def
    by (rule safely_and_then) (auto simp: evolves_def http_inv_def peak_ok_def)
qed

end
