(* ===== verification/Epoll_Ledger.thy ===== *)
theory Epoll_Ledger
  imports Epoll_Props Ledger
begin

text \<open>
  The epoll client is a ledger of its callbacks, as the transfer engine is one of its completion
  handlers: a callback is issued by a request, held while its \<open>RequestInfo\<close> is in the list, and
  settled by its call.
\<close>

section \<open>The log of callbacks only grows\<close>

definition calling :: "(nat \<times> response_info) list \<Rightarrow> http \<Rightarrow> bool" where
  "calling xs h \<longleftrightarrow> (\<exists>ys. called h = xs @ ys)"

lemma calling_frame [simp]:
  "calling xs (h\<lparr>infos := x1\<rparr>) = calling xs h"
  "calling xs (h\<lparr>request_infos := x2\<rparr>) = calling xs h"
  "calling xs (h\<lparr>eh_pool := x3\<rparr>) = calling xs h"
  "calling xs (h\<lparr>handle_count := x4\<rparr>) = calling xs h"
  "calling xs (h\<lparr>h_opts := x5\<rparr>) = calling xs h"
  "calling xs (h\<lparr>h_multi := x6\<rparr>) = calling xs h"
  "calling xs (h\<lparr>h_made := x7\<rparr>) = calling xs h"
  "calling xs (h\<lparr>fd_set := x8\<rparr>) = calling xs h"
  "calling xs (h\<lparr>epoll_set := x9\<rparr>) = calling xs h"
  "calling xs (h\<lparr>interest := x10\<rparr>) = calling xs h"
  "calling xs (h\<lparr>slists := x11\<rparr>) = calling xs h"
  "calling xs (h\<lparr>socket_actions := x12\<rparr>) = calling xs h"
  "calling xs (h\<lparr>peak := x13\<rparr>) = calling xs h"
  "calling xs (h\<lparr>wire := x14\<rparr>) = calling xs h"
  by (simp_all add: calling_def)

lemmas then_calls = yields_and_then [where Q = "calling xs" and P = "calling xs" for xs]

lemma runs_call:
  "calling xs h \<Longrightarrow> (\<And>l h. calling xs h \<Longrightarrow> yields (calling xs) (act l h)) \<Longrightarrow> yields (calling xs) (run_all act ls h)"
  by (rule yields_run)

lemma write_calls:
  "calling xs h \<Longrightarrow> yields (calling xs) (write_body e bytes h)"
  "calling xs h \<Longrightarrow> yields (calling xs) (write_header e bytes h)"
  unfolding write_body_def write_header_def
  by (cases "last_set (h_opts h e) CURLOPT_WRITEFUNCTION"; cases "last_set (h_opts h e) CURLOPT_WRITEDATA";
      auto intro!: yields_after split: opt_value.split callback.split)
    (cases "last_set (h_opts h e) CURLOPT_HEADERFUNCTION"; cases "last_set (h_opts h e) CURLOPT_HEADERDATA";
      auto intro!: yields_after split: opt_value.split callback.split)

lemma socket_fn_calls: "calling xs h \<Longrightarrow> yields (calling xs) (socket_fn s epe h)"
  by (simp add: socket_fn_def Let_def)

lemma http_act_calls: "calling xs h \<Longrightarrow> yields (calling xs) (do_http_act a h)"
  by (cases a) (auto intro!: yields_expect then_calls socket_fn_calls write_calls)

lemma http_action_calls: "calling xs h \<Longrightarrow> yields (calling xs) (http_action s answer h)"
  unfolding http_action_def by (cases answer) (auto intro!: then_calls runs_call http_act_calls)

lemma process_events_calls: "calling xs h \<Longrightarrow> yields (calling xs) (process_events w h)"
  unfolding process_events_def
  by (rule yields_expect, cases w) (auto intro!: http_action_calls runs_call)

lemma setopts_calls [simp]: "calling xs (http_setopts e calls h) = calling xs h"
  by (simp add: http_setopts_def)

lemma draw_handle_calls: "calling xs h \<Longrightarrow> yields (\<lambda>(e, h). calling xs h) (draw_handle init h)"
  by (simp add: draw_handle_def split: option.split)

lemma http_user_calls: "calling xs h \<Longrightarrow> yields (calling xs) (do_http_user op h)"
proof (cases op)
  case (New_request init it url fn custom_data)
  assume h: "calling xs h"
  show ?thesis
    unfolding New_request do_http_user.simps http_request_def Let_def
    by (intro yields_expect, rule yields_and_then [OF draw_handle_calls [OF h]]) auto
next
  case (Send v it rc answer w)
  assume h: "calling xs h"
  have "yields (calling xs) (submit e rc answer w h')" if "calling xs h'" for e h'
    unfolding submit_def using that by (intro then_calls http_action_calls process_events_calls) simp
  with h show ?thesis
    by (auto simp: Send epoll_send_def intro!: yields_expect yields_after)
qed (auto simp: epoll_set_headers_def epoll_set_body_def enable_response_headers_def Let_def
  intro!: yields_expect yields_after)

lemma call_back_calls: "calling xs h \<Longrightarrow> yields (calling xs) (call_back a code status h)"
  unfolding call_back_def by (rule yields_after) (auto simp: calling_def)

lemma finish_calls: "calling xs h \<Longrightarrow> yields (calling xs) (finish a h)"
  unfolding finish_def slist_free_all_def by (rule yields_after) auto

lemma deliver_calls:
  assumes h: "calling xs h"
  shows "yields (calling xs) (deliver d h)"
proof -
  obtain m acts ops where d: "d = (m, acts, ops)" by (cases d)
  have 3: "yields (calling xs) (and_then (http_users ops h') (finish a))" if "calling xs h'" for a h'
    by (intro then_calls runs_call http_user_calls finish_calls that)
  have 2: "yields (calling xs) (and_then (call_back a (hm_result m) (hm_response_code m) h')
      (\<lambda>h. and_then (http_users ops h) (finish a)))" if "calling xs h'" for a h'
    by (rule then_calls [OF call_back_calls [OF that] 3])
  have c: "yields (calling xs) (and_then (http_acts acts h') (\<lambda>h. and_then
      (call_back a (hm_result m) (hm_response_code m) h) (\<lambda>h. and_then (http_users ops h) (finish a))))"
    if "calling xs h'" for a h'
    by (rule then_calls [OF runs_call 2]) (simp_all add: that http_act_calls)
  show ?thesis unfolding deliver_def d prod.case
    by (rule yields_expect, rule yields_after) (simp add: c h)
qed

lemma http_do_calls: "calling xs h \<Longrightarrow> yields (calling xs) (http_do ev h)"
  by (cases ev) (auto simp: http_poll_def intro!: http_user_calls then_calls process_events_calls
      runs_call deliver_calls)

section \<open>The epoll client as a ledger\<close>

definition http_step :: "http \<Rightarrow> http_event \<Rightarrow> http \<Rightarrow> bool" where
  "http_step h ev h' \<longleftrightarrow> None \<notin> set (event_inits ev) \<and> http_do ev h = Inr h'"

definition callbacks_held :: "http \<Rightarrow> nat multiset" where
  "callbacks_held h = mset (map (callback_of h) (request_infos h))"

definition callbacks_called :: "http \<Rightarrow> nat multiset" where
  "callbacks_called h = mset (map fst (called h))"

interpretation hl: ledger http_step http_inv callbacks_held callbacks_called event_callbacks
proof unfold_locales
  fix h ev h' assume h: "http_inv h" "http_step h ev h'"
  then have "settles h (event_callbacks ev) h'"
    using http_do_settles [of h ev] by (auto simp: http_step_def safely_def)
  then show "http_inv h'"
    and "callbacks_held h' + callbacks_called h' = callbacks_held h + callbacks_called h + event_callbacks ev"
    by (simp_all add: settles_def callbacks_def callbacks_held_def callbacks_called_def)
  have "calling (called h) h" by (simp add: calling_def)
  with http_do_calls [of "called h" h ev] h(2) have "calling (called h) h'"
    by (auto simp: http_step_def dest: yieldsD)
  then show "callbacks_called h \<subseteq># callbacks_called h'" by (auto simp: calling_def callbacks_called_def)
qed

lemma new_http_ledger [simp]: "callbacks_held (new_http inits) = {#}" "callbacks_called (new_http inits) = {#}"
  by (simp_all add: callbacks_held_def callbacks_called_def new_http_def)

lemma http_runs: "handles_given evs \<Longrightarrow> http_run evs h = Inr h' \<Longrightarrow> runs http_step h evs h'"
  by (induction evs arbitrary: h) (auto simp: handles_given_def and_then_Inr http_step_def intro: runs.intros)

end
