(* ===== verification/Drivers_Epoll.thy ===== *)
theory Drivers_Epoll
  imports Epoll_Ledger Driver_Programs
begin

text \<open>
  The programs of \<open>bench/bench_epoll.cpp\<close> on the model of the epoll client. That client is a \<open>host\<close>
  too: a step is a stretch of its events, from one look of the driver at its state to the next.
\<close>

section \<open>The epoll client as a host\<close>

fun users_of :: "http_event \<Rightarrow> http_user list" where
  "users_of (Http_user op) = [op]"
| "users_of (Http_poll w ds) = concat (map (\<lambda>d. snd (snd d)) ds)"

text \<open>The drivers use the client in one way, \<open>http.request(url, fn).get()\<close>: these are the requests.\<close>

fun gets :: "http_user list \<Rightarrow> (string \<times> nat) list option" where
  "gets [] = Some []"
| "gets (New_request init it url fn custom_data # Send Epoll_get it' rc answer w # ops) =
     (if it' = it then map_option (\<lambda>rs. (url, fn) # rs) (gets ops) else None)"
| "gets ops = None"

definition asked :: "http_event list \<Rightarrow> (string \<times> nat) list" where
  "asked evs = (case gets (concat (map users_of evs)) of None \<Rightarrow> [] | Some rs \<Rightarrow> rs)"

definition stretch :: "http \<Rightarrow> http_event list \<Rightarrow> http \<Rightarrow> bool" where
  "stretch h evs h' \<longleftrightarrow> handles_given evs \<and> gets (concat (map users_of evs)) \<noteq> None \<and> http_run evs h = Inr h'"

lemma gets_callbacks: "gets ops = Some rs \<Longrightarrow> sum_list (map user_callbacks ops) = mset (map snd rs)"
  by (induction ops arbitrary: rs rule: gets.induct) (auto split: if_splits)

lemma event_users: "event_callbacks ev = sum_list (map user_callbacks (users_of ev))"
proof (cases ev)
  case (Http_poll w ds)
  have "delivery_callbacks d = sum_list (map user_callbacks (snd (snd d)))" for d
    by (cases d) simp
  then show ?thesis unfolding Http_poll by (induction ds) simp_all
qed simp

lemma asked_callbacks:
  assumes "gets (concat (map users_of evs)) \<noteq> None"
  shows "sum_list (map event_callbacks evs) = mset (map snd (asked evs))"
proof -
  have "sum_list (map event_callbacks evs) = sum_list (map user_callbacks (concat (map users_of evs)))"
    by (induction evs) (simp_all add: event_users)
  with assms gets_callbacks show ?thesis by (auto simp: asked_def)
qed

interpretation on_epoll: host stretch http_inv called asked callbacks_held snd fst
proof unfold_locales
  fix h evs h' assume h: "http_inv h" "stretch h evs h'"
  then have run: "runs http_step h evs h'" by (simp add: stretch_def http_runs)
  from hl.inv_runs [OF run h(1)] show "http_inv h'" .
  have "yields (calling (called h)) (http_run evs h)"
    by (rule yields_run, simp add: calling_def, rule http_do_calls)
  with h(2) show "\<exists>ds. called h' = called h @ ds" by (auto simp: stretch_def calling_def dest: yieldsD)
  show "callbacks_held h' + mset (map fst (called h')) =
      callbacks_held h + mset (map fst (called h)) + mset (map snd (asked evs))"
    using hl.balance_runs [OF run h(1)] asked_callbacks h(2) by (simp add: stretch_def callbacks_called_def)
qed

lemma new_http_fresh: "pool_given inits \<Longrightarrow> on_epoll.fresh (new_http inits)"
  using new_http_inv [of inits] by simp (simp add: new_http_def)

definition polls_on :: "(nat \<times> response_info, string \<times> nat, 'p) program \<Rightarrow> http \<Rightarrow> 'p \<Rightarrow> bool" where
  "polls_on prog h p \<longleftrightarrow> (\<exists>inits. pool_given inits \<and> hosts stretch called asked prog (new_http inits) h p)"

locale epoll_program = program_contract prog good pending
  for prog :: "(nat \<times> response_info, string \<times> nat, 'p) program" and good and pending

sublocale epoll_program \<subseteq> srv: hosted stretch http_inv called asked callbacks_held snd fst prog good pending
  by unfold_locales

context epoll_program
begin

lemma served:
  assumes "polls_on prog h p"
  obtains rs where "outcome_after prog (called h) = (p, rs)" "length (called h) \<le> length rs" "good p"
    "pending p = length (request_infos h)"
proof -
  from assms obtain inits where i: "pool_given inits" "hosts stretch called asked prog (new_http inits) h p"
    by (auto simp: polls_on_def)
  obtain rs where "outcome_after prog (called h) = (p, rs)"
    using srv.hosts_result [OF i(2) new_http_fresh [OF i(1)]] by (metis prod.collapse)
  with srv.hosted_good [OF i(2) new_http_fresh [OF i(1)]] that show thesis by (simp add: callbacks_held_def)
qed

end

section \<open>The drivers\<close>

abbreviation epoll_well :: "nat \<times> response_info \<Rightarrow> bool" where
  "epoll_well d \<equiv> ri_is_ok (snd d)"

text \<open>
  The loop of this driver, which gives the requests it makes, numbered as they are launched; and the
  callback of a request.
\<close>

function epoll_refill :: "string \<Rightarrow> int \<Rightarrow> int \<Rightarrow> driver \<Rightarrow> driver \<times> (string \<times> nat) list" where
  "epoll_refill url tot concurrency s =
     (if driver.in_flight s < concurrency \<and> launched s < tot
      then (case epoll_refill url tot concurrency
          (s\<lparr>driver.in_flight := driver.in_flight s + 1, launched := launched s + 1\<rparr>) of
        (s', rs) \<Rightarrow> (s', (url, nat (launched s)) # rs))
      else (s, []))"
  by pat_completeness auto
termination
  by (relation "measure (\<lambda>(url, tot, concurrency, s). nat (tot - launched s))") auto

declare epoll_refill.simps [simp del]

definition epoll_on_done ::
    "string \<Rightarrow> int \<Rightarrow> int \<Rightarrow> response_info \<Rightarrow> driver \<Rightarrow> (driver \<times> (string \<times> nat) list) outcome" where
  "epoll_on_done url tot concurrency res s = expect (driver.in_flight s > 0)
     (let s = s\<lparr>driver.in_flight := driver.in_flight s - 1\<rparr>;
          s = s\<lparr>finished := finished s + 1\<rparr>;
          s = (if \<not> ri_is_ok res then s\<lparr>failed := failed s + 1\<rparr> else s)
      in Inr (epoll_refill url tot concurrency s))"

definition epoll_throughput :: "string \<Rightarrow> int \<Rightarrow> int \<Rightarrow> (nat \<times> response_info, string \<times> nat, driver) program" where
  "epoll_throughput url tot concurrency =
     \<lparr>first = epoll_refill url tot concurrency new_driver,
      react = (\<lambda>(fn, res) s. case epoll_on_done url tot concurrency res s of Inl _ \<Rightarrow> (s, []) | Inr r \<Rightarrow> r)\<rparr>"

text \<open>It launches what the loop of the other driver launches.\<close>

lemma epoll_refill_launches:
  "0 \<le> launched s \<Longrightarrow> epoll_refill url tot concurrency s =
     (refill tot concurrency s, map (Pair url) [nat (launched s)..<nat (launched (refill tot concurrency s))])"
proof (induction url tot concurrency s rule: epoll_refill.induct)
  case (1 url tot concurrency s)
  let ?s = "s\<lparr>driver.in_flight := driver.in_flight s + 1, launched := launched s + 1\<rparr>"
  show ?case
  proof (cases "driver.in_flight s < concurrency \<and> launched s < tot")
    case True
    have r: "refill tot concurrency s = refill tot concurrency ?s" using True by (subst refill.simps) simp
    have "launched s + 1 \<le> launched (refill tot concurrency ?s)"
      using refill_launches [of ?s tot concurrency] by simp
    then have "nat (launched s) < nat (launched (refill tot concurrency ?s))" "nat (launched ?s) = Suc (nat (launched s))"
      using "1.prems" by simp_all
    with "1.IH" [OF True] "1.prems" True show ?thesis
      unfolding r by (subst epoll_refill.simps) (simp add: upt_conv_Cons)
  next
    case False
    then have "refill tot concurrency s = s" by (subst refill.simps) auto
    moreover have "epoll_refill url tot concurrency s = (s, [])" using False by (subst epoll_refill.simps) auto
    ultimately show ?thesis by simp
  qed
qed

lemma epoll_on_done_launches:
  assumes "refilling tot concurrency s"
  shows "epoll_on_done url tot concurrency res s = (case on_done tot concurrency (ri_is_ok res) s of Inl x \<Rightarrow> Inl x
    | Inr s' \<Rightarrow> Inr (s', map (Pair url) [nat (launched s)..<nat (launched s')]))"
  using refilling_launched [OF assms] by (simp add: epoll_on_done_def on_done_def expect_def epoll_refill_launches Let_def)

lemma epoll_first: "first (epoll_throughput url tot concurrency) = first (throughput_program epoll_well (Pair url) tot concurrency)"
proof -
  have "launched new_driver = 0" by (simp add: new_driver_def)
  then show ?thesis by (simp add: epoll_throughput_def throughput_program_def epoll_refill_launches Let_def)
qed

lemma epoll_react:
  "refilling tot concurrency s \<Longrightarrow> react (epoll_throughput url tot concurrency) d s =
     react (throughput_program epoll_well (Pair url) tot concurrency) d s"
  by (cases d) (simp add: epoll_throughput_def throughput_program_def epoll_on_done_launches split: sum.split)

lemma epoll_idle: "nat (driver.in_flight s) = 0 \<Longrightarrow> react (epoll_throughput url tot concurrency) d s = (s, [])"
  by (cases d) (simp add: epoll_throughput_def epoll_on_done_def expect_def)

lemma refilling_react:
  assumes "refilling tot concurrency s" "react (throughput_program well req tot concurrency) d s = (s', rs)"
  shows "refilling tot concurrency s'"
proof (cases "nat (driver.in_flight s) = 0")
  case True
  with assms thr.react_idle [of s well req tot concurrency d] show ?thesis by simp
next
  case False
  with assms thr.react_busy [of tot concurrency s well req d s' rs] show ?thesis by simp
qed

lemma epoll_outcome: "outcome_after (epoll_throughput url tot concurrency) ds =
    outcome_after (throughput_program epoll_well (Pair url) tot concurrency) ds"
proof -
  let ?prog = "throughput_program epoll_well (Pair url) tot concurrency"
  have "react_all (epoll_throughput url tot concurrency) ds s = react_all ?prog ds s" if "refilling tot concurrency s" for s
    using that
  proof (induction ds arbitrary: s)
    case (Cons d ds)
    obtain s' rs where s': "react ?prog d s = (s', rs)" by fastforce
    with Cons.IH [OF refilling_react [OF Cons.prems s']] epoll_react [OF Cons.prems] show ?case by simp
  qed simp
  moreover have "refilling tot concurrency (fst (first ?prog))" by (rule thr.first_good(1))
  ultimately show ?thesis by (cases "first ?prog") (simp add: outcome_after_def epoll_first)
qed

text \<open>Each turn of the chain makes a request and polls until it is done.\<close>

definition epoll_chain :: "string \<Rightarrow> int \<Rightarrow> (string, nat \<times> response_info, unit, nat) coro" where
  "epoll_chain url tot = chain_loop url (\<lambda>d. None) epoll_well tot 0"

abbreviation in_turn :: "('q, 'd, 'x, 'p) coro \<Rightarrow> 'p \<Rightarrow> ('d, 'q \<times> nat, ('q, 'd, 'x, 'p) coro_state) program" where
  "in_turn \<equiv> coro_program (\<lambda>n q. (q, n))"

interpretation eth: epoll_program "epoll_throughput url tot concurrency" "refilling tot concurrency"
  "\<lambda>s. nat (driver.in_flight s)" for url tot concurrency
proof
  show "refilling tot concurrency (fst (first (epoll_throughput url tot concurrency)))"
    and "nat (driver.in_flight (fst (first (epoll_throughput url tot concurrency)))) =
      length (snd (first (epoll_throughput url tot concurrency)))"
    unfolding epoll_first by (rule thr.first_good)+
  show "refilling tot concurrency p' \<and> nat (driver.in_flight p') + 1 = nat (driver.in_flight p) + length rs"
    if "refilling tot concurrency p" "0 < nat (driver.in_flight p)" "react (epoll_throughput url tot concurrency) d p = (p', rs)"
    for p d p' rs
    using thr.react_busy [OF that(1,2)] that(3) unfolding epoll_react [OF that(1)] .
qed (rule epoll_idle)

interpretation ech: epoll_program "in_turn co p" "\<lambda>_. True" suspended for co p
  by unfold_locales

lemma epoll_refill_served:
  assumes "polls_on (epoll_throughput url tot concurrency) h s" "0 \<le> tot" "0 < concurrency"
  shows "driver.in_flight s = int (length (request_infos h)) \<and> driver.in_flight s \<le> concurrency \<and>
    failed s = int (length (filter (\<lambda>d. \<not> epoll_well d) (called h))) \<and>
    (if finished s < tot then request_infos h \<noteq> [] else request_infos h = [] \<and> int (length (called h)) = tot)"
proof -
  from assms(1) obtain rs where rs: "outcome_after (epoll_throughput url tot concurrency) (called h) = (s, rs)"
    "length (called h) \<le> length rs" "refilling tot concurrency s"
    and p: "nat (driver.in_flight s) = length (request_infos h)"
    using eth.served by metis
  from outcome_throughput [OF rs(1,2) [unfolded epoll_outcome]]
  have "run_throughput tot concurrency (map epoll_well (called h)) = Inr s" by simp
  moreover have "filter Not (map epoll_well (called h)) = map epoll_well (filter (\<lambda>d. \<not> epoll_well d) (called h))"
    by (simp add: filter_map comp_def)
  ultimately have d: "failed s = int (length (filter (\<lambda>d. \<not> epoll_well d) (called h)))"
    "finished s = int (length (called h))" "driver.in_flight s = launched s - finished s"
    "0 \<le> driver.in_flight s" "driver.in_flight s \<le> concurrency" "finished s < tot \<Longrightarrow> 0 < driver.in_flight s" "launched s \<le> tot"
    using throughput_driver [OF _ assms(2,3)] by fastforce+
  with p show ?thesis by auto
qed

lemma epoll_chain_served:
  assumes "polls_on (in_turn (epoll_chain url tot) 0) h k"
  shows "length (request_infos h) = (if waits (rest k) then 1 else 0) \<and>
    shared k = length (filter (\<lambda>d. \<not> epoll_well d) (called h)) \<and>
    (if waits (rest k) then int (length (called h)) < tot else length (called h) = nat tot)"
proof -
  from assms obtain rs where rs: "outcome_after (in_turn (epoll_chain url tot) 0) (called h) = (k, rs)"
    "length (called h) \<le> length rs" and p: "suspended k = length (request_infos h)"
    using ech.served by metis
  from outcome_coro [OF rs] have "run_coro (epoll_chain url tot) (called h) 0 = (shared k, rest k, [])" by simp
  note c = chain_loop_counts [OF this [unfolded epoll_chain_def]]
  with p show ?thesis by (auto simp: suspended_def split: if_splits)
qed

section \<open>Property\<close>

text \<open>
  C35: The epoll drivers do their work. The requests the throughput driver believes in flight are
  those alive in the client, at most \<open>concurrency\<close>, and while it polls there is one; when it stops
  polling, \<open>total\<close> requests have been made and called back, none is alive, and \<open>failed\<close> counts the
  bad answers. The chain has one request alive while it polls and makes \<open>total\<close> in all.
\<close>

theorem epoll_drivers:
  assumes "0 \<le> tot" "0 < concurrency"
  shows "(polls_on (epoll_throughput url tot concurrency) h s \<longrightarrow>
      driver.in_flight s = int (length (request_infos h)) \<and> driver.in_flight s \<le> concurrency \<and>
      failed s = int (length (filter (\<lambda>d. \<not> epoll_well d) (called h))) \<and>
      (if finished s < tot then request_infos h \<noteq> [] else request_infos h = [] \<and> int (length (called h)) = tot)) \<and>
    (polls_on (in_turn (epoll_chain url tot) 0) h k \<longrightarrow>
      length (request_infos h) = (if waits (rest k) then 1 else 0) \<and>
      shared k = length (filter (\<lambda>d. \<not> epoll_well d) (called h)) \<and>
      (if waits (rest k) then int (length (called h)) < tot else int (length (called h)) = tot))"
  using epoll_refill_served [OF _ assms] epoll_chain_served assms(1) by fastforce

text \<open>One request, and the poll that answers it.\<close>

definition lone_send :: "http_event list" where
  "lone_send = [Http_user (New_request (Some 500) 1 ''u/'' 0 0),
     Http_user (Send Epoll_get 1 CURLM_OK ([Socket_wanted 9 3], 1) (Wait_idle ([], 1)))]"

definition lone_poll :: "http_event list" where
  "lone_poll = [Http_poll (Wait_ready [(9, [Body_data 127 ''xy'', Socket_wanted 9 4], 0)])
     [(\<lparr>hm_handle = 127, hm_result = CURLE_OK, hm_response_code = 200\<rparr>, [], [])]]"

lemma lone_polled:
  assumes "snd (first prog) = [(''u/'', 0)]"
    and "react prog (0, \<lparr>ri_curl_code = CURLE_OK, ri_http_code = 200, ri_data = ''xy'', ri_header_data = [], ri_custom_data = 0\<rparr>)
      (fst (first prog)) = (p, [])"
  shows "\<exists>h. polls_on prog h p \<and> request_infos h = [] \<and> map epoll_well (called h) = [True]"
proof -
  let ?h1 = "sample_http lone_send" and ?h2 = "sample_http (lone_send @ lone_poll)"
  let ?d = "(0, \<lparr>ri_curl_code = CURLE_OK, ri_http_code = 200, ri_data = ''xy'', ri_header_data = [], ri_custom_data = 0\<rparr>)"
  have 1: "http_run lone_send (new_http sample_pool) = Inr ?h1" "called ?h1 = []"
    unfolding sample_http_def sample_new by (simp_all add: http_eval lone_send_def del: upt_rec_numeral)
  have 2: "http_run lone_poll ?h1 = Inr ?h2" "called ?h2 = [?d]" "request_infos ?h2 = []"
    unfolding sample_http_def sample_new
    by (simp_all add: http_eval lone_send_def lone_poll_def del: upt_rec_numeral)
  have s: "stretch (new_http sample_pool) lone_send ?h1" "stretch ?h1 lone_poll ?h2"
    using 1 2 by (simp_all add: stretch_def handles_given_def lone_send_def lone_poll_def)
  have a: "asked lone_send = [(''u/'', 0)]" "asked lone_poll = []"
    by (simp_all add: asked_def lone_send_def lone_poll_def)
  have "runs stretch (new_http sample_pool) [lone_send] ?h1" by (rule runs_cons, rule s, rule runs_nil)
  from hosts_start [where log = called, OF this 1(2), of asked prog] a assms(1)
  have "hosts stretch called asked prog (new_http sample_pool) ?h1 (fst (first prog))" by simp
  from hosts_event [OF this s(2), of p] a assms(2) 1(2) 2(2)
  have "hosts stretch called asked prog (new_http sample_pool) ?h2 p" by simp
  then have "polls_on prog ?h2 p" using sample_pool_given unfolding polls_on_def by blast
  with 2 show ?thesis by (auto simp: ri_is_ok_def)
qed

theorem epoll_drivers_witness:
  "\<exists>h s. polls_on (epoll_throughput ''u/'' 1 1) h s \<and> failed s = 0 \<and> request_infos h = []"
proof -
  let ?s = "\<lparr>in_flight = 0, launched = 1, finished = 1, failed = 0\<rparr>"
  have "\<exists>h. polls_on (epoll_throughput ''u/'' 1 1) h ?s \<and> request_infos h = [] \<and> map epoll_well (called h) = [True]"
    by (rule lone_polled) (simp_all add: epoll_throughput_def epoll_on_done_def epoll_refill.simps new_driver_def ri_is_ok_def)
  then obtain h where h: "polls_on (epoll_throughput ''u/'' 1 1) h ?s" by blast
  from epoll_drivers [of 1 1 "''u/''" h ?s] h have "request_infos h = []" by simp
  with h show ?thesis by (intro exI [of _ h] exI [of _ ?s]) simp
qed

end
