(* ===== verification/Bench_Workers.thy ===== *)
theory Bench_Workers
  imports Prelude
begin

text \<open>
  The thread pools of \<open>bench/bench_cpr.cpp\<close> and \<open>bench/bench_httplib.cpp\<close>: each thread runs
  \<open>while (next.fetch_add(1) < total) { ...Get... if (bad) ++failed; }\<close> over a shared
  \<open>std::atomic<int>\<close>. The step relation interleaves the atomic operations of the threads; the
  request itself is a step that reports whether it went well. The counter is a 32-bit word, whose
  \<open>fetch_add\<close> wraps around; \<open>drawn\<close> counts the calls of \<open>fetch_add\<close>, \<open>taken\<close> the indices that
  led to a request, and \<open>answered\<close> the requests that returned.
\<close>

section \<open>Threads\<close>

datatype pc = Fetching | Requesting | Stopped

record workers =
  counter :: "32 word"
  pcs :: "nat \<Rightarrow> pc"
  bad :: nat
  drawn :: nat
  taken :: "int list"
  answered :: nat

definition new_workers :: workers where
  "new_workers = \<lparr>counter = 0, pcs = (\<lambda>_. Fetching), bad = 0, drawn = 0, taken = [], answered = 0\<rparr>"

datatype work = Draw nat | Answer nat bool

text \<open>The condition of the loop, which draws a number, and its body.\<close>

definition fetch_next :: "int \<Rightarrow> nat \<Rightarrow> workers \<Rightarrow> workers" where
  "fetch_next tot t s =
     (let i = sint (counter s); s = s\<lparr>counter := counter s + 1, drawn := drawn s + 1\<rparr>
      in if i < tot then s\<lparr>pcs := (pcs s)(t := Requesting), taken := taken s @ [i]\<rparr>
         else s\<lparr>pcs := (pcs s)(t := Stopped)\<rparr>)"

definition count_answer :: "nat \<Rightarrow> bool \<Rightarrow> workers \<Rightarrow> workers" where
  "count_answer t ok s = s\<lparr>pcs := (pcs s)(t := Fetching), answered := answered s + 1,
     bad := (if ok then bad s else bad s + 1)\<rparr>"

inductive worker_step :: "int \<Rightarrow> nat \<Rightarrow> workers \<Rightarrow> work \<Rightarrow> workers \<Rightarrow> bool"
  for tot :: int and n :: nat where
  draw: "t < n \<Longrightarrow> pcs s t = Fetching \<Longrightarrow> worker_step tot n s (Draw t) (fetch_next tot t s)"
| answer: "t < n \<Longrightarrow> pcs s t = Requesting \<Longrightarrow> worker_step tot n s (Answer t ok) (count_answer t ok s)"

inductive_cases drawE: "worker_step tot n s (Draw t) s'"
inductive_cases answerE: "worker_step tot n s (Answer t ok) s'"
inductive_simps draw_iff: "worker_step tot n s (Draw t) s'"
inductive_simps answer_iff: "worker_step tot n s (Answer t ok) s'"

abbreviation work_runs :: "int \<Rightarrow> nat \<Rightarrow> workers \<Rightarrow> work list \<Rightarrow> workers \<Rightarrow> bool" where
  "work_runs tot n \<equiv> runs (worker_step tot n)"

section \<open>Invariant\<close>

definition at :: "nat \<Rightarrow> pc \<Rightarrow> workers \<Rightarrow> nat" where
  "at n p s = card {t. t < n \<and> pcs s t = p}"

text \<open>\<open>0, 1, ...\<close> up to the length of the list.\<close>

definition counted :: "int list \<Rightarrow> bool" where
  "counted xs \<longleftrightarrow> xs = map int [0..<length xs]"

lemma counted_snoc: "counted xs \<Longrightarrow> counted (xs @ [int (length xs)])"
  by (simp add: counted_def)

definition workers_ok :: "int \<Rightarrow> nat \<Rightarrow> workers \<Rightarrow> bool" where
  "workers_ok tot n s \<longleftrightarrow> counter s = of_nat (drawn s) \<and> counted (taken s) \<and>
     int (length (taken s)) \<le> tot \<and> drawn s = length (taken s) + at n Stopped s \<and>
     (at n Stopped s > 0 \<longrightarrow> int (length (taken s)) = tot) \<and>
     length (taken s) = answered s + at n Requesting s \<and> bad s \<le> answered s"

lemma at_le: "at n p s \<le> n"
proof -
  have "at n p s \<le> card {..<n}" unfolding at_def by (rule card_mono) auto
  then show ?thesis by simp
qed

lemma at_disjoint: "p \<noteq> q \<Longrightarrow> at n p s + at n q s \<le> n"
proof -
  assume "p \<noteq> q"
  have "at n p s + at n q s = card ({t. t < n \<and> pcs s t = p} \<union> {t. t < n \<and> pcs s t = q})"
    unfolding at_def by (rule card_Un_disjoint [symmetric]) (use \<open>p \<noteq> q\<close> in auto)
  also have "\<dots> \<le> card {..<n}" by (rule card_mono) auto
  finally show ?thesis by simp
qed

lemma at_move:
  assumes "t < n" "pcs s t = p" "pcs s' = (pcs s)(t := q)" "p \<noteq> q"
  shows "at n q s' = at n q s + 1" "at n p s = at n p s' + 1" "r \<noteq> p \<Longrightarrow> r \<noteq> q \<Longrightarrow> at n r s' = at n r s"
proof -
  have q: "{u. u < n \<and> pcs s' u = q} = insert t {u. u < n \<and> pcs s u = q}"
    and p: "{u. u < n \<and> pcs s u = p} = insert t {u. u < n \<and> pcs s' u = p}"
    using assms by auto
  show "at n q s' = at n q s + 1" unfolding at_def q using assms by simp
  show "at n p s = at n p s' + 1" unfolding at_def p using assms by simp
  show "at n r s' = at n r s" if "r \<noteq> p" "r \<noteq> q"
  proof -
    have "{u. u < n \<and> pcs s' u = r} = {u. u < n \<and> pcs s u = r}" using assms that by auto
    then show ?thesis by (simp add: at_def)
  qed
qed

lemma sint_of_small: "int k < 2 ^ 31 \<Longrightarrow> sint (of_nat k :: 32 word) = int k"
  by (simp add: signed_of_nat) (simp add: signed_take_bit_int_eq_self)

lemma draw_ok:
  assumes ok: "workers_ok tot n s" and t: "t < n" "pcs s t = Fetching" and room: "tot + int n < 2 ^ 31"
  shows "workers_ok tot n (fetch_next tot t s)"
proof -
  have "at n Stopped s < n"
    using at_disjoint [of Stopped Fetching n s] at_move(2) [OF t, of "s\<lparr>pcs := (pcs s)(t := Stopped)\<rparr>" Stopped] by simp
  with ok room have "int (drawn s) < 2 ^ 31" by (simp add: workers_ok_def)
  moreover have "counter s = of_nat (drawn s)" using ok by (simp only: workers_ok_def)
  ultimately have i: "sint (counter s) = int (drawn s)" by (simp only: sint_of_small)
  show ?thesis
  proof (cases "int (drawn s) < tot")
    case True
    then have none: "at n Stopped s = 0" using ok by (cases "at n Stopped s = 0") (simp_all add: workers_ok_def)
    let ?s = "fetch_next tot t s"
    have s: "pcs ?s = (pcs s)(t := Requesting)" "taken ?s = taken s @ [int (drawn s)]"
      "drawn ?s = drawn s + 1" "counter ?s = counter s + 1" "answered ?s = answered s" "bad ?s = bad s"
      using True i by (simp_all add: fetch_next_def Let_def)
    note m = at_move [OF t s(1)]
    have "drawn s = length (taken s)" using ok none by (simp add: workers_ok_def)
    moreover have "counted (taken s)" using ok unfolding workers_ok_def by blast
    ultimately have "counted (taken s @ [int (drawn s)])" using counted_snoc by metis
    moreover have "at n Stopped ?s = at n Stopped s" by (rule m(3)) simp_all
    ultimately show ?thesis using ok True none m(1) unfolding workers_ok_def s by simp
  next
    case False
    let ?s = "fetch_next tot t s"
    have s: "pcs ?s = (pcs s)(t := Stopped)" "taken ?s = taken s"
      "drawn ?s = drawn s + 1" "counter ?s = counter s + 1" "answered ?s = answered s" "bad ?s = bad s"
      using False i by (simp_all add: fetch_next_def Let_def)
    have "int (length (taken s)) = tot"
      using ok False by (cases "at n Stopped s = 0") (auto simp: workers_ok_def)
    with ok at_move [OF t s(1)] show ?thesis unfolding workers_ok_def s by simp
  qed
qed

lemma answer_ok:
  assumes ok: "workers_ok tot n s" and t: "t < n" "pcs s t = Requesting"
  shows "workers_ok tot n (count_answer t good s)"
proof -
  let ?s = "count_answer t good s"
  have s: "pcs ?s = (pcs s)(t := Fetching)" "taken ?s = taken s" "drawn ?s = drawn s"
    "counter ?s = counter s" "answered ?s = answered s + 1" "bad ?s = (if good then bad s else bad s + 1)"
    by (simp_all add: count_answer_def)
  note m = at_move [OF t s(1)]
  have stopped: "at n Stopped ?s = at n Stopped s" by (rule m(3)) simp_all
  have "bad ?s \<le> answered s + 1" if "bad s \<le> answered s" using that s(6) by simp
  with ok m(2) show ?thesis
    unfolding workers_ok_def s(2-5) stopped by (elim conjE, intro conjI) (assumption | linarith | simp)+
qed

lemma step_ok:
  "worker_step tot n s l s' \<Longrightarrow> workers_ok tot n s \<Longrightarrow> tot + int n < 2 ^ 31 \<Longrightarrow> workers_ok tot n s'"
  by (induction rule: worker_step.induct) (auto intro: draw_ok answer_ok)

lemma runs_ok:
  "work_runs tot n s ls s' \<Longrightarrow> workers_ok tot n s \<Longrightarrow> tot + int n < 2 ^ 31 \<Longrightarrow> workers_ok tot n s'"
  by (induction rule: runs.induct) (blast intro: step_ok)+

lemma new_workers_ok: "0 \<le> tot \<Longrightarrow> workers_ok tot n new_workers"
  by (simp add: workers_ok_def new_workers_def at_def counted_def)

text \<open>Steps are counted, and so are bad answers.\<close>

lemma step_counts:
  "worker_step tot n s l s' \<Longrightarrow> drawn s' + answered s' = drawn s + answered s + 1 \<and>
     bad s' = bad s + (case l of Draw t \<Rightarrow> 0 | Answer t ok \<Rightarrow> if ok then 0 else 1)"
  by (induction rule: worker_step.induct) (auto simp: fetch_next_def count_answer_def Let_def)

definition bad_answers :: "work list \<Rightarrow> nat" where
  "bad_answers ls = length (filter (\<lambda>l. case l of Draw t \<Rightarrow> False | Answer t ok \<Rightarrow> \<not> ok) ls)"

lemma runs_counts:
  "work_runs tot n s ls s' \<Longrightarrow> drawn s' + answered s' = drawn s + answered s + length ls \<and>
     bad s' = bad s + bad_answers ls"
  by (induction rule: runs.induct) (auto simp: bad_answers_def dest!: step_counts split: work.splits)

text \<open>When all threads have stopped the work is done.\<close>

lemma all_stopped:
  assumes "workers_ok tot n s" "0 < n" "\<forall>t<n. pcs s t = Stopped"
  shows "int (length (taken s)) = tot \<and> answered s = length (taken s) \<and> counter s = of_int (tot + int n)"
proof -
  have "{t. t < n \<and> pcs s t = Stopped} = {..<n}" "{t. t < n \<and> pcs s t = Requesting} = {}"
    using assms(3) by auto
  then have "at n Stopped s = n" "at n Requesting s = 0" by (simp_all add: at_def)
  with assms(1,2) show ?thesis by (auto simp: workers_ok_def)
qed

lemma bad_counted: "work_runs tot n new_workers ls s \<Longrightarrow> bad s = bad_answers ls"
  by (drule runs_counts) (simp add: new_workers_def)

section \<open>Properties\<close>

text \<open>
  C38: However the threads interleave, the pool issues each of the \<open>total\<close> requests exactly once:
  the indices taken are an initial part of \<open>0, 1, ...\<close>, never beyond \<open>total\<close>, and all of them once
  every thread has stopped; \<open>failed\<close> counts the bad answers. It needs the counter not to wrap:
  each thread overshoots by one, so \<open>total\<close> plus the threads must fit into an \<open>int\<close>.
\<close>

theorem workers_do_each_once:
  assumes "work_runs tot n new_workers ls s" "0 \<le> tot" "tot + int n < 2 ^ 31"
  shows "taken s = map int [0..<length (taken s)] \<and> int (length (taken s)) \<le> tot \<and> bad s = bad_answers ls \<and>
    (0 < n \<and> (\<forall>t<n. pcs s t = Stopped) \<longrightarrow>
       int (length (taken s)) = tot \<and> answered s = length (taken s) \<and> counter s = of_int (tot + int n))"
proof -
  have ok: "workers_ok tot n s" by (rule runs_ok [OF assms(1) new_workers_ok [OF assms(2)] assms(3)])
  with all_stopped [OF ok] bad_counted [OF assms(1)] show ?thesis unfolding workers_ok_def counted_def by blast
qed

text \<open>
  C39: The pool terminates: no schedule has more than \<open>2 * total + threads\<close> steps, and as long as
  some thread has not stopped, it can take a step.
\<close>

theorem workers_terminate:
  assumes "work_runs tot n new_workers ls s" "0 \<le> tot" "tot + int n < 2 ^ 31"
  shows "int (length ls) \<le> 2 * tot + int n \<and> (t < n \<and> pcs s t \<noteq> Stopped \<longrightarrow> (\<exists>l s'. worker_step tot n s l s'))"
proof -
  have ok: "workers_ok tot n s" by (rule runs_ok [OF assms(1) new_workers_ok [OF assms(2)] assms(3)])
  have "length ls = drawn s + answered s" using runs_counts [OF assms(1)] by (simp add: new_workers_def)
  then have "int (length ls) \<le> 2 * tot + int n" using ok at_le [of n Stopped s] by (simp add: workers_ok_def)
  moreover have "\<exists>l s'. worker_step tot n s l s'" if "t < n" "pcs s t \<noteq> Stopped"
    using that worker_step.intros [of t n s tot] by (cases "pcs s t") blast+
  ultimately show ?thesis by blast
qed

text \<open>Two threads and one request, which the second thread takes.\<close>

definition sample_schedule :: "work list" where
  "sample_schedule = [Draw 1, Draw 0, Answer 1 False, Draw 1]"

definition do_work :: "int \<Rightarrow> work \<Rightarrow> workers \<Rightarrow> workers" where
  "do_work tot l s = (case l of Draw t \<Rightarrow> fetch_next tot t s | Answer t ok \<Rightarrow> count_answer t ok s)"

definition sample_workers :: workers where
  "sample_workers = fold (do_work 1) sample_schedule new_workers"

lemma sample_schedule_runs: "work_runs 1 2 new_workers sample_schedule sample_workers"
  unfolding sample_workers_def sample_schedule_def
  by (simp add: do_work_def)
    (auto intro!: runs.intros worker_step.intros
      simp: new_workers_def fetch_next_def count_answer_def)

theorem workers_do_each_once_witness: "bad sample_workers = 1 \<and> int (length (taken sample_workers)) = 1"
proof -
  have "pcs sample_workers 0 = Stopped \<and> pcs sample_workers 1 = Stopped"
    by (simp add: sample_workers_def sample_schedule_def do_work_def new_workers_def fetch_next_def count_answer_def)
  then have "\<forall>t<2. pcs sample_workers t = Stopped" by (simp add: less_2_cases_iff)
  with workers_do_each_once [OF sample_schedule_runs] show ?thesis
    by (simp add: bad_answers_def sample_schedule_def)
qed

theorem workers_terminate_witness: "int (length sample_schedule) \<le> 4"
  using workers_terminate [OF sample_schedule_runs, of 0] by simp

text \<open>Without room the counter wraps, and a thread goes on after the work is done.\<close>

lemma counter_wraps:
  assumes "counter s = 0x7FFFFFFF" "tot = 2 ^ 31 - 1"
  shows "pcs (fetch_next tot 1 (fetch_next tot 0 s)) 0 = Stopped \<and>
    pcs (fetch_next tot 1 (fetch_next tot 0 s)) 1 = Requesting"
  using assms by (simp add: fetch_next_def Let_def)

end
