(* ===== verification/Driver_Mains.thy ===== *)
theory Driver_Mains
  imports Drivers_Client Drivers_Epoll Bench_Workers
begin

text \<open>
  \<open>main\<close> of the four benchmark drivers: the command line, the environment, the choice of the
  scenario, the row on standard output and the exit code. A relation says how a driver may exit:
  with which code, after which answers (whether each was good), and with which output. The clock is
  not modelled: the texts of the seconds and of the rate in a row are any. Messages on standard
  error are left out.
\<close>

section \<open>What the drivers share\<close>

text \<open>\<open>return failed != 0\<close>.\<close>

definition exit_status :: "int \<Rightarrow> int" where
  "exit_status f = (if f \<noteq> 0 then 1 else 0)"

definition report :: "string \<Rightarrow> args \<Rightarrow> string \<Rightarrow> string \<Rightarrow> int \<Rightarrow> string" where
  "report name a seconds rate f = name @ '','' @ scenario a @ '','' @ decimal (total_arg a) @ '','' @
     decimal (concurrency_arg a) @ '','' @ seconds @ '','' @ rate @ '','' @ decimal f"

text \<open>The URL all but cpp-httplib are given.\<close>

definition target :: "args \<Rightarrow> string" where
  "target a = base_url a @ ''/''"

section \<open>\<open>bench_cofetch\<close>\<close>

record bench_env =
  poll_env :: "string option"
  loops_env :: "string option"
  cb_env :: "string option"

definition busy_poll :: "bench_env \<Rightarrow> bool" where
  "busy_poll env \<longleftrightarrow> poll_env env \<noteq> None"

definition loops :: "bench_env \<Rightarrow> int" where
  "loops env = (case loops_env env of Some s \<Rightarrow> atoi s | None \<Rightarrow> 1)"

text \<open>Where the driver leaves its loop: the condition of the busy loop is false, or \<open>io.run()\<close> returns.\<close>

definition loop_left :: "bench_env \<Rightarrow> bool \<Rightarrow> client \<Rightarrow> bool" where
  "loop_left env again c \<longleftrightarrow> (if busy_poll env then \<not> again else out_of_work c \<and> multi_waits c)"

text \<open>\<open>run_throughput\<close> returns \<open>f\<close> after the answers \<open>oks\<close>.\<close>

definition throughput_returns :: "bench_env \<Rightarrow> string \<Rightarrow> int \<Rightarrow> int \<Rightarrow> bool list \<Rightarrow> int \<Rightarrow> bool" where
  "throughput_returns env url tot concurrency oks f \<longleftrightarrow>
     (\<exists>c s. runs_on (cofetch_throughput url tot concurrency) c s \<and> loop_left env (finished s < tot) c \<and>
       oks = map went_well (calls_of c) \<and> f = failed s)"

inductive cofetch_exits :: "bench_env \<Rightarrow> string list \<Rightarrow> int \<Rightarrow> bool list \<Rightarrow> string list \<Rightarrow> bool" for env argv where
  cofetch_usage: "parse argv = None \<Longrightarrow> cofetch_exits env argv 2 [] []"
| cofetch_loops: "parse argv = Some a \<Longrightarrow> scenario a = ''throughput'' \<Longrightarrow> loops env > 1 \<Longrightarrow>
     length rs = nat (loops env) \<Longrightarrow>
     \<forall>t<length rs. throughput_returns env (target a) (share (total_arg a) (loops env) (int t))
       (loop_concurrency (concurrency_arg a) (loops env)) (fst (rs ! t)) (snd (rs ! t)) \<Longrightarrow>
     cofetch_exits env argv (exit_status (sum_list (map snd rs))) (concat (map fst rs))
       [report (''cofetch-'' @ decimal (loops env) @ ''loops'') a seconds rate (sum_list (map snd rs))]"
| cofetch_loop: "parse argv = Some a \<Longrightarrow> scenario a = ''throughput'' \<Longrightarrow> \<not> loops env > 1 \<Longrightarrow>
     throughput_returns env (target a) (total_arg a) (concurrency_arg a) oks f \<Longrightarrow>
     cofetch_exits env argv (exit_status f) oks
       [report (if busy_poll env then ''cofetch-poll'' else ''cofetch'') a seconds rate f]"
| cofetch_callback: "parse argv = Some a \<Longrightarrow> scenario a = ''chain'' \<Longrightarrow> cb_env env \<noteq> None \<Longrightarrow>
     runs_on (cofetch_callbacks (target a) (total_arg a)) c s \<Longrightarrow> loop_left env (0 < remaining s) c \<Longrightarrow>
     cofetch_exits env argv (exit_status (int (chain_failed s))) (map went_well (calls_of c))
       [report (if busy_poll env then ''cofetch-cb-poll'' else ''cofetch-cb'') a seconds rate (int (chain_failed s))]"
| cofetch_coro: "parse argv = Some a \<Longrightarrow> scenario a = ''chain'' \<Longrightarrow> cb_env env = None \<Longrightarrow>
     runs_on (spawned (cofetch_coroutine (target a) (total_arg a)) 0) c k \<Longrightarrow> out_of_work c \<Longrightarrow> multi_waits c \<Longrightarrow>
     cofetch_exits env argv (exit_status (int (shared k))) (map went_well (calls_of c))
       [report ''cofetch-coro'' a seconds rate (int (shared k))]"
| cofetch_unknown: "parse argv = Some a \<Longrightarrow> scenario a \<notin> {''throughput'', ''chain''} \<Longrightarrow> cofetch_exits env argv 2 [] []"

section \<open>\<open>bench_epoll\<close>\<close>

inductive epoll_exits :: "string list \<Rightarrow> int \<Rightarrow> bool list \<Rightarrow> string list \<Rightarrow> bool" for argv where
  epoll_usage: "parse argv = None \<Longrightarrow> epoll_exits argv 2 [] []"
| epoll_refill: "parse argv = Some a \<Longrightarrow> scenario a = ''throughput'' \<Longrightarrow>
     polls_on (epoll_throughput (target a) (total_arg a) (concurrency_arg a)) h s \<Longrightarrow> \<not> finished s < total_arg a \<Longrightarrow>
     epoll_exits argv (exit_status (failed s)) (map epoll_well (called h))
       [report ''epoll-baseline'' a seconds rate (failed s)]"
| epoll_waits: "parse argv = Some a \<Longrightarrow> scenario a = ''chain'' \<Longrightarrow>
     polls_on (in_turn (epoll_chain (target a) (total_arg a)) 0) h k \<Longrightarrow> \<not> waits (rest k) \<Longrightarrow>
     epoll_exits argv (exit_status (int (shared k))) (map epoll_well (called h))
       [report ''epoll-baseline'' a seconds rate (int (shared k))]"
| epoll_unknown: "parse argv = Some a \<Longrightarrow> scenario a \<notin> {''throughput'', ''chain''} \<Longrightarrow> epoll_exits argv 2 [] []"

section \<open>\<open>bench_cpr\<close> and \<open>bench_httplib\<close>\<close>

text \<open>
  The requests of these libraries block: their results are the arguments. \<open>cpr\<close> gives a status,
  cpp-httplib may give none.
\<close>

definition cpr_well :: "int \<Rightarrow> bool" where
  "cpr_well status_code \<longleftrightarrow> \<not> status_code \<noteq> 200"

definition httplib_well :: "int option \<Rightarrow> bool" where
  "httplib_well res \<longleftrightarrow> (case res of None \<Rightarrow> False | Some status \<Rightarrow> \<not> status \<noteq> 200)"

definition cpr_chain :: "int \<Rightarrow> (unit, int, unit, nat) coro" where
  "cpr_chain tot = chain_loop () (\<lambda>d. None) cpr_well tot 0"

definition httplib_chain :: "int \<Rightarrow> (unit, int option, unit, nat) coro" where
  "httplib_chain tot = chain_loop () (\<lambda>d. None) httplib_well tot 0"

text \<open>The answers of a pool of threads, and that all of its threads have been joined.\<close>

fun work_answer :: "work \<Rightarrow> bool option" where
  "work_answer (Draw t) = None"
| "work_answer (Answer t ok) = Some ok"

definition pool_joined :: "args \<Rightarrow> work list \<Rightarrow> workers \<Rightarrow> bool" where
  "pool_joined a ls s \<longleftrightarrow> work_runs (total_arg a) (nat (concurrency_arg a)) new_workers ls s \<and>
     (\<forall>t<nat (concurrency_arg a). pcs s t = Stopped)"

inductive cpr_exits :: "string list \<Rightarrow> int \<Rightarrow> bool list \<Rightarrow> string list \<Rightarrow> bool" for argv where
  cpr_usage: "parse argv = None \<Longrightarrow> cpr_exits argv 2 [] []"
| cpr_pool: "parse argv = Some a \<Longrightarrow> scenario a = ''throughput'' \<Longrightarrow> pool_joined a ls s \<Longrightarrow>
     cpr_exits argv (exit_status (int (bad s))) (List.map_filter work_answer ls)
       [report ''cpr-threads'' a seconds rate (int (bad s))]"
| cpr_waits: "parse argv = Some a \<Longrightarrow> scenario a = ''chain'' \<Longrightarrow>
     run_coro (cpr_chain (total_arg a)) results 0 = (f, Finished, []) \<Longrightarrow>
     cpr_exits argv (exit_status (int f)) (map cpr_well results) [report ''cpr'' a seconds rate (int f)]"
| cpr_unknown: "parse argv = Some a \<Longrightarrow> scenario a \<notin> {''throughput'', ''chain''} \<Longrightarrow> cpr_exits argv 2 [] []"

inductive httplib_exits :: "string list \<Rightarrow> int \<Rightarrow> bool list \<Rightarrow> string list \<Rightarrow> bool" for argv where
  httplib_usage: "parse argv = None \<Longrightarrow> httplib_exits argv 2 [] []"
| httplib_pool: "parse argv = Some a \<Longrightarrow> scenario a = ''throughput'' \<Longrightarrow> pool_joined a ls s \<Longrightarrow>
     httplib_exits argv (exit_status (int (bad s))) (List.map_filter work_answer ls)
       [report ''cpp-httplib-threads'' a seconds rate (int (bad s))]"
| httplib_waits: "parse argv = Some a \<Longrightarrow> scenario a = ''chain'' \<Longrightarrow>
     run_coro (httplib_chain (total_arg a)) results 0 = (f, Finished, []) \<Longrightarrow>
     httplib_exits argv (exit_status (int f)) (map httplib_well results)
       [report ''cpp-httplib'' a seconds rate (int f)]"
| httplib_unknown: "parse argv = Some a \<Longrightarrow> scenario a \<notin> {''throughput'', ''chain''} \<Longrightarrow> httplib_exits argv 2 [] []"

section \<open>What the exit codes mean\<close>

lemma status_of_count: "exit_status (int (length (filter Not oks))) = 0 \<longleftrightarrow> False \<notin> set oks"
  by (auto simp: exit_status_def filter_empty_conv)

lemma throughput_returned:
  assumes "throughput_returns env url tot concurrency oks f" "0 \<le> tot" "0 < concurrency"
  shows "int (length oks) = tot \<and> f = int (length (filter Not oks))"
proof -
  from assms(1) obtain c s where r: "runs_on (cofetch_throughput url tot concurrency) c s"
    "loop_left env (finished s < tot) c" "oks = map went_well (calls_of c)" "f = failed s"
    by (auto simp: throughput_returns_def)
  note t = throughput_served [OF r(1), folded r(3)]
  then have "run_throughput tot concurrency oks = Inr s" by simp
  note d = throughput_driver [OF this assms(2,3)]
  have "finished s = tot"
  proof (cases "busy_poll env")
    case True
    with r(2) d show ?thesis by (auto simp: loop_left_def)
  next
    case False
    with r(2) t d show ?thesis by (auto simp: loop_left_def)
  qed
  with d r(4) show ?thesis by simp
qed

lemma idle_returned:
  assumes "throughput_returns env url tot 0 oks f"
  shows "oks = [] \<and> f = 0"
proof -
  from assms obtain c s where r: "runs_on (cofetch_throughput url tot 0) c s" "oks = map went_well (calls_of c)" "f = failed s"
    by (auto simp: throughput_returns_def)
  have run: "run_throughput tot 0 oks = Inr s" using throughput_served [OF r(1)] r(2) by simp
  then have "s = new_driver"
    using too_many_loops_launch_nothing [of 0 1 tot] by (simp add: loop_concurrency_def signed_div_nonneg)
  with throughput_counts [OF run [unfolded run_throughput_def]] r(3) show ?thesis by simp
qed

text \<open>With a count of zero the driver that polls reports before the one request is answered.\<close>

lemma callbacks_returned:
  assumes r: "runs_on (cofetch_callbacks url tot) c s" and left: "loop_left env (0 < remaining s) c" and tot: "0 \<le> tot"
  shows "chain_failed s = length (filter Not (map went_well (calls_of c))) \<and>
    (if 0 < tot then int (length (calls_of c)) = tot else length (calls_of c) \<le> 1)"
proof (cases "links_pending tot s = 0")
  case True
  from callbacks_ended [OF r True] tot show ?thesis by (auto simp: filter_map comp_def max_def)
next
  case False
  obtain rs where rs: "outcome_after (cofetch_callbacks url tot) (calls_of c) = (s, rs)" "length (calls_of c) \<le> length rs"
    and s: "chained tot s" "out_of_work c \<Longrightarrow> multi_waits c \<Longrightarrow> links_pending tot s = 0"
    using ccb.served [OF r] by metis
  have over: "\<not> 0 < remaining s" using left False s(2) by (auto simp: loop_left_def split: if_splits)
  with s(1) over False tot have one: "tot = 0" "sent s = 1" "links_pending tot s = 1" by (auto simp: chained_def links_pending_def)
  with outcome_callbacks [OF rs [unfolded cofetch_callbacks_def]] have "calls_of c = []" by auto
  moreover from this rs(1) have "chain_failed s = 0"
    by (auto simp: cofetch_callbacks_def callback_program_def outcome_after_def chain_next_def new_chain_def)
  ultimately show ?thesis using one by simp
qed

text \<open>The answers of the coroutine chain: all are counted but the error code that ends it.\<close>

lemma coroutine_returned:
  assumes "runs_on (spawned (cofetch_coroutine url tot) 0) c k" "out_of_work c" "multi_waits c"
    and oks: "oks = map went_well (calls_of c)"
  shows "length oks = nat tot \<and> shared k = length (filter Not oks) \<or>
    oks \<noteq> [] \<and> \<not> last oks \<and> length oks \<le> nat tot \<and> shared k = length (filter Not (butlast oks))"
proof -
  note e = coroutine_ended [OF assms(1-3)]
  have counts: "length (filter (\<lambda>(h, ec, res). \<not> ec_set ec \<and> \<not> is_ok res) ds) = length (filter Not (map went_well ds))"
    if "\<forall>d\<in>set ds. \<not> ec_set (fst (snd d))" for ds
    using that by (induction ds) (auto simp: went_well_def)
  show ?thesis
  proof (cases "\<exists>d\<in>set (calls_of c). ec_set (fst (snd d))")
    case False
    with e counts [of "calls_of c"] oks show ?thesis by auto
  next
    case True
    from e [THEN conjunct2, THEN conjunct2, THEN conjunct2, unfolded if_P [OF True]]
    have all: "\<forall>d\<in>set (butlast (calls_of c)). \<not> ec_set (fst (snd d))" by simp
    from True obtain ds d where c: "calls_of c = ds @ [d]" by (cases "calls_of c" rule: rev_cases) auto
    with True all have d: "ec_set (fst (snd d))" "\<forall>d\<in>set ds. \<not> ec_set (fst (snd d))" by auto
    with c e counts [OF d(2)] oks show ?thesis by (auto simp: went_well_def split: prod.splits)
  qed
qed

lemma chain_returned:
  assumes "run_coro (chain_loop q (\<lambda>d. None) ok tot 0) ds 0 = (f, co, [])" "\<not> waits co"
  shows "length (map ok ds) = nat tot \<and> f = length (filter Not (map ok ds))"
  using chain_loop_counts [OF assms(1)] assms(2) by (auto simp: filter_map comp_def)

lemma pool_answers:
  "work_runs tot n s ls s' \<Longrightarrow> answered s' = answered s + length (List.map_filter work_answer ls)"
proof (induction rule: runs.induct)
  case (runs_cons s l t ls u)
  from runs_cons.hyps(1) have "answered t = answered s + (if work_answer l = None then 0 else 1)"
    by (induction rule: worker_step.induct) (simp_all add: fetch_next_def count_answer_def Let_def)
  with runs_cons.IH show ?case by (auto simp: map_filter_simps split: option.split)
qed (simp add: map_filter_simps)

lemma pool_returned:
  assumes "pool_joined a ls s" "0 \<le> total_arg a" "0 < concurrency_arg a" "total_arg a + concurrency_arg a < 2 ^ 31"
  shows "int (length (List.map_filter work_answer ls)) = total_arg a \<and>
    bad s = length (filter Not (List.map_filter work_answer ls))"
proof -
  from assms have r: "work_runs (total_arg a) (nat (concurrency_arg a)) new_workers ls s"
    "total_arg a + int (nat (concurrency_arg a)) < 2 ^ 31" "\<forall>t<nat (concurrency_arg a). pcs s t = Stopped"
    by (simp_all add: pool_joined_def)
  have "bad_answers ls = length (filter Not (List.map_filter work_answer ls))"
    by (induction ls) (simp_all add: bad_answers_def map_filter_simps split: work.split)
  moreover have "workers_ok (total_arg a) (nat (concurrency_arg a)) s"
    by (rule runs_ok [OF r(1) new_workers_ok r(2)]) (use assms(2) in simp)
  ultimately show ?thesis
    using all_stopped [OF _ _ r(3)] bad_counted [OF r(1)] pool_answers [OF r(1)] assms(2,3) by (simp add: new_workers_def)
qed

lemma many_returned:
  assumes "\<forall>t<length rs. throughput_returns env url (share tot l (int t)) conc (fst (rs ! t)) (snd (rs ! t))"
    and "length rs = nat l" "0 \<le> tot" "0 < l" "0 < conc"
  shows "int (length (concat (map fst rs))) = tot \<and>
    sum_list (map snd rs) = int (length (filter Not (concat (map fst rs))))"
proof -
  have each: "int (length (fst (rs ! t))) = share tot l (int t) \<and> snd (rs ! t) = int (length (filter Not (fst (rs ! t))))"
    if "t < length rs" for t
    using throughput_returned assms share_nonneg that by blast
  have "int (length (concat (map fst rs))) = (\<Sum>t<length rs. int (length (fst (rs ! t))))"
    by (simp add: length_concat comp_def sum_list_sum_nth atLeast0LessThan flip: of_nat_sum)
  also have "\<dots> = (\<Sum>t<nat l. share tot l (int t))" using each assms(2) by simp
  also have "\<dots> = tot" using shares_add_up [of tot "nat l"] assms(3,4) by simp
  finally have "int (length (concat (map fst rs))) = tot" .
  moreover have m: "map snd rs = map (\<lambda>r. int (length (filter Not (fst r)))) rs"
    using each by (intro nth_equalityI) simp_all
  have "sum_list (map snd rs) = int (length (filter Not (concat (map fst rs))))"
    unfolding m by (induction rs) simp_all
  ultimately show ?thesis by simp
qed

lemma many_idle:
  assumes "\<forall>t<length rs. throughput_returns env url (tot t) 0 (fst (rs ! t)) (snd (rs ! t))"
  shows "concat (map fst rs) = [] \<and> sum_list (map snd rs) = 0"
proof -
  have "fst r = [] \<and> snd r = 0" if "r \<in> set rs" for r
    using that assms idle_returned by (metis in_set_conv_nth)
  then show ?thesis by (induction rs) auto
qed

text \<open>The exit code and the row a driver prints are true of the answers \<open>oks\<close>.\<close>

definition honest :: "args \<Rightarrow> int \<Rightarrow> bool list \<Rightarrow> string list \<Rightarrow> bool" where
  "honest a code oks out \<longleftrightarrow> code = (if False \<in> set oks then 1 else 0) \<and>
    (\<exists>name seconds rate. out = [report name a seconds rate (int (length (filter Not oks)))])"

lemma honest_count: "f = int (length (filter Not oks)) \<Longrightarrow>
    honest a (exit_status f) oks [report name a seconds rate f]"
  using status_of_count [of oks] by (auto simp: honest_def exit_status_def)

definition idle_loops :: "bench_env \<Rightarrow> args \<Rightarrow> bool" where
  "idle_loops env a \<longleftrightarrow> 1 < loops env \<and> concurrency_arg a < loops env"

lemma honest_cofetch:
  assumes "cofetch_exits env argv code oks out" "parse argv = Some a" "scenario a \<in> {''throughput'', ''chain''}"
    and "0 \<le> total_arg a" "0 < concurrency_arg a"
  shows "if scenario a = ''throughput''
    then honest a code oks out \<and> int (length oks) = (if idle_loops env a then 0 else total_arg a)
    else if cb_env env \<noteq> None
    then honest a code oks out \<and> (if 0 < total_arg a then int (length oks) = total_arg a else length oks \<le> 1)
    else honest a code oks out \<and> int (length oks) = total_arg a \<or>
      oks \<noteq> [] \<and> \<not> last oks \<and> int (length oks) \<le> total_arg a \<and> honest a code (butlast oks) out"
  using assms(1)
proof cases
  case (cofetch_loops b rs seconds rate)
  have b: "b = a" using cofetch_loops(4) assms(2) by simp
  show ?thesis
  proof (cases "idle_loops env a")
    case True
    with assms(5) have "loop_concurrency (concurrency_arg a) (loops env) = 0"
      by (simp add: idle_loops_def loop_concurrency_def signed_div_nonneg)
    with cofetch_loops(8) [unfolded b] have "\<forall>t<length rs. throughput_returns env (target a)
      (share (total_arg a) (loops env) (int t)) 0 (fst (rs ! t)) (snd (rs ! t))" by simp
    from many_idle [OF this] have "concat (map fst rs) = []" "sum_list (map snd rs) = 0" by blast+
    with True cofetch_loops(1-5) b show ?thesis by (simp add: honest_count)
  next
    case False
    then have "0 < loop_concurrency (concurrency_arg a) (loops env)"
      using cofetch_loops(6) by (simp add: idle_loops_def loop_concurrency_def signed_div_nonneg pos_imp_zdiv_pos_iff)
    from many_returned [OF cofetch_loops(8) [unfolded b] cofetch_loops(7) _ _ this] cofetch_loops(6) assms(4)
      cofetch_loops(1-3,5) b False show ?thesis by (simp add: honest_count)
  qed
next
  case (cofetch_loop b f seconds rate)
  have b: "b = a" using cofetch_loop(3) assms(2) by simp
  from throughput_returned [OF cofetch_loop(6) [unfolded b]] assms(4,5) cofetch_loop(1,2,4,5) b
  show ?thesis by (simp add: honest_count idle_loops_def)
next
  case (cofetch_callback b c s seconds rate)
  have b: "b = a" using cofetch_callback(4) assms(2) by simp
  from callbacks_returned [OF cofetch_callback(7) [unfolded b] cofetch_callback(8) assms(4)] cofetch_callback(1-3,5,6) b
  show ?thesis by (auto intro: honest_count split: if_splits)
next
  case (cofetch_coro b c k seconds rate)
  have b: "b = a" using cofetch_coro(4) assms(2) by simp
  from coroutine_returned [OF cofetch_coro(7) [unfolded b] cofetch_coro(8,9) refl] cofetch_coro(1-3,5,6) b assms(4)
  show ?thesis by (auto intro: honest_count)
qed (use assms in auto)

lemma honest_epoll:
  assumes "epoll_exits argv code oks out" "parse argv = Some a" "scenario a \<in> {''throughput'', ''chain''}"
    and "0 \<le> total_arg a" "0 < concurrency_arg a"
  shows "honest a code oks out \<and> int (length oks) = total_arg a"
  using assms(1)
proof cases
  case (epoll_refill b h s seconds rate)
  have b: "b = a" using epoll_refill(4) assms(2) by simp
  from epoll_refill_served [OF epoll_refill(6) [unfolded b]] epoll_refill(7) assms(4,5)
  show ?thesis unfolding epoll_refill(1-3) b by (simp add: honest_count b filter_map comp_def)
next
  case (epoll_waits b h k seconds rate)
  have b: "b = a" using epoll_waits(4) assms(2) by simp
  from epoll_chain_served [OF epoll_waits(6) [unfolded b]] epoll_waits(7) assms(4)
  show ?thesis unfolding epoll_waits(1-3) b by (simp add: honest_count b filter_map comp_def)
qed (use assms in auto)

lemma honest_cpr:
  assumes "cpr_exits argv code oks out" "parse argv = Some a" "scenario a \<in> {''throughput'', ''chain''}"
    and "0 \<le> total_arg a" "0 < concurrency_arg a" "total_arg a + concurrency_arg a < 2 ^ 31"
  shows "honest a code oks out \<and> int (length oks) = total_arg a"
  using assms(1)
proof cases
  case (cpr_pool b ls s seconds rate)
  have b: "b = a" using cpr_pool(4) assms(2) by simp
  from pool_returned [OF cpr_pool(6) [unfolded b] assms(4-6)]
  show ?thesis unfolding cpr_pool(1-3) b by (simp add: honest_count)
next
  case (cpr_waits b results f seconds rate)
  have b: "b = a" using cpr_waits(4) assms(2) by simp
  from chain_returned [OF cpr_waits(6) [unfolded b cpr_chain_def]] assms(4)
  show ?thesis unfolding cpr_waits(1-3) b by (simp add: honest_count)
qed (use assms in auto)

lemma honest_httplib:
  assumes "httplib_exits argv code oks out" "parse argv = Some a" "scenario a \<in> {''throughput'', ''chain''}"
    and "0 \<le> total_arg a" "0 < concurrency_arg a" "total_arg a + concurrency_arg a < 2 ^ 31"
  shows "honest a code oks out \<and> int (length oks) = total_arg a"
  using assms(1)
proof cases
  case (httplib_pool b ls s seconds rate)
  have b: "b = a" using httplib_pool(4) assms(2) by simp
  from pool_returned [OF httplib_pool(6) [unfolded b] assms(4-6)]
  show ?thesis unfolding httplib_pool(1-3) b by (simp add: honest_count)
next
  case (httplib_waits b results f seconds rate)
  have b: "b = a" using httplib_waits(4) assms(2) by simp
  from chain_returned [OF httplib_waits(6) [unfolded b httplib_chain_def]] assms(4)
  show ?thesis unfolding httplib_waits(1-3) b by (simp add: honest_count)
qed (use assms in auto)

text \<open>
  C36: What the exit codes of the four drivers mean, for a known scenario, a count that is not negative
  and a positive concurrency. The code is 1 if some answer was bad and 0 otherwise, the row reports the
  number of bad answers, and \<open>total\<close> requests were answered, with three exceptions, all in
  \<open>bench_cofetch\<close>: with more loops than concurrency no request is made; the callback chain makes one
  request for a count of zero; the coroutine chain may end early with an error, the last answer,
  which neither code nor row count. The thread pools need that total and threads together fit into
  an \<open>int\<close>.
\<close>

theorem exit_code_means_success:
  assumes "parse argv = Some a" "scenario a \<in> {''throughput'', ''chain''}"
    and "0 \<le> total_arg a" "0 < concurrency_arg a"
  shows "(cofetch_exits env argv code oks out \<longrightarrow>
      (if scenario a = ''throughput''
       then honest a code oks out \<and> int (length oks) = (if 1 < loops env \<and> concurrency_arg a < loops env then 0 else total_arg a)
       else if cb_env env \<noteq> None
       then honest a code oks out \<and> (if 0 < total_arg a then int (length oks) = total_arg a else length oks \<le> 1)
       else honest a code oks out \<and> int (length oks) = total_arg a \<or>
         oks \<noteq> [] \<and> \<not> last oks \<and> int (length oks) \<le> total_arg a \<and> honest a code (butlast oks) out)) \<and>
    (epoll_exits argv code oks out \<longrightarrow> honest a code oks out \<and> int (length oks) = total_arg a) \<and>
    ((cpr_exits argv code oks out \<or> httplib_exits argv code oks out) \<and> total_arg a + concurrency_arg a < 2 ^ 31 \<longrightarrow>
       honest a code oks out \<and> int (length oks) = total_arg a)"
  using honest_cofetch [OF _ assms] honest_epoll [OF _ assms] honest_cpr [OF _ assms] honest_httplib [OF _ assms]
  unfolding idle_loops_def by blast

theorem exit_code_means_success_witness:
  "cofetch_exits \<lparr>poll_env = None, loops_env = None, cb_env = None\<rparr> [''bench'', ''throughput'', ''u'', ''1'', ''1''] 0 [True]
     [''cofetch,throughput,1,1,0.001,1000,0''] \<and> False \<notin> set [True]"
proof -
  let ?env = "\<lparr>poll_env = None, loops_env = None, cb_env = None\<rparr>" and ?argv = "[''bench'', ''throughput'', ''u'', ''1'', ''1'']"
  let ?a = "\<lparr>scenario = ''throughput'', base_url = ''u'', total_arg = 1, concurrency_arg = 1\<rparr>"
  let ?s = "\<lparr>driver.in_flight = 0, launched = 1, finished = 1, failed = 0\<rparr>"
  have a: "parse ?argv = Some ?a" by (simp add: parse_def atoi_def is_space_def is_digit_def)
  have "runs_on (cofetch_throughput ''u/'' 1 1) lone_client ?s"
    by (rule lone_served) (simp_all add: cofetch_throughput_def throughput_program_def get_url_def on_done_def
        refill.simps new_driver_def lone_completion_def went_well_def is_ok_def)
  then have t: "throughput_returns ?env (target ?a) 1 1 [True] 0"
    unfolding throughput_returns_def
    by (intro exI [of _ lone_client] exI [of _ ?s]) (simp add: target_def loop_left_def busy_poll_def lone_completion_def
        went_well_def is_ok_def)
  have r: "report ''cofetch'' ?a ''0.001'' ''1000'' 0 = ''cofetch,throughput,1,1,0.001,1000,0''"
    by (simp add: report_def decimal_def decimal_nat.simps) (simp add: char_of_def bit_iff_odd)
  from cofetch_loop [of ?argv ?a ?env "[True]" 0 "''0.001''" "''1000''"] a t
  have 1: "cofetch_exits ?env ?argv 0 [True] [''cofetch,throughput,1,1,0.001,1000,0'']"
    by (simp add: loops_def busy_poll_def exit_status_def r)
  from exit_code_means_success [OF a, of ?env 0 "[True]" "[''cofetch,throughput,1,1,0.001,1000,0'']"] 1
  have "honest ?a 0 [True] [''cofetch,throughput,1,1,0.001,1000,0'']" by (simp add: loops_def)
  with 1 show ?thesis by (simp add: honest_def)
qed

end
