(* ===== verification/Drivers_Alike.thy ===== *)
theory Drivers_Alike
  imports Drivers_Client Drivers_Epoll
begin

text \<open>
  The benchmarks compare like with like: the drivers of the two clients send the same requests and
  count the same failures, whatever the answers, as long as these are alike. The programs of the two
  clients run in lockstep.
\<close>

section \<open>Programs in lockstep\<close>

text \<open>
  \<open>agree\<close> relates the completions of two clients, \<open>same\<close> their requests, and \<open>rel\<close> the states of
  two programs. A program that reacts alike to completions that agree stays related.
\<close>

locale lockstep =
  fixes prog1 :: "('d1, 'r1, 'p1) program" and prog2 :: "('d2, 'r2, 'p2) program"
    and agree :: "'d1 \<Rightarrow> 'd2 \<Rightarrow> bool" and same :: "'r1 \<Rightarrow> 'r2 \<Rightarrow> bool" and rel :: "'p1 \<Rightarrow> 'p2 \<Rightarrow> bool"
  assumes first_rel: "rel (fst (first prog1)) (fst (first prog2))"
    and first_same: "list_all2 same (snd (first prog1)) (snd (first prog2))"
    and react_rel: "rel p1 p2 \<Longrightarrow> agree d1 d2 \<Longrightarrow> react prog1 d1 p1 = (q1, rs1) \<Longrightarrow> react prog2 d2 p2 = (q2, rs2) \<Longrightarrow>
      rel q1 q2 \<and> list_all2 same rs1 rs2"
begin

lemma react_all_rel:
  assumes "list_all2 agree ds1 ds2"
  shows "rel p1 p2 \<Longrightarrow> react_all prog1 ds1 p1 = (q1, rs1) \<Longrightarrow> react_all prog2 ds2 p2 = (q2, rs2) \<Longrightarrow>
    rel q1 q2 \<and> list_all2 same rs1 rs2"
  using assms
proof (induction arbitrary: p1 p2 rs1 rs2 rule: list_all2_induct)
  case (Cons d1 ds1 d2 ds2)
  obtain o1 r1 o2 r2 where r: "react prog1 d1 p1 = (o1, r1)" "react prog2 d2 p2 = (o2, r2)" by fastforce
  obtain r1' r2' where a: "react_all prog1 ds1 o1 = (q1, r1')" "rs1 = r1 @ r1'"
    "react_all prog2 ds2 o2 = (q2, r2')" "rs2 = r2 @ r2'"
    using Cons.prems(2,3) r by (auto split: prod.splits)
  from react_rel [OF Cons.prems(1) Cons.hyps(1) r] Cons.IH [OF _ a(1,3)] a(2,4) show ?case
    by (simp add: list_all2_appendI)
qed simp

lemma outcome_rel:
  assumes "list_all2 agree ds1 ds2" "outcome_after prog1 ds1 = (q1, rs1)" "outcome_after prog2 ds2 = (q2, rs2)"
  shows "rel q1 q2 \<and> list_all2 same rs1 rs2"
proof -
  obtain r1 r2 where r: "react_all prog1 ds1 (fst (first prog1)) = (q1, r1)" "rs1 = snd (first prog1) @ r1"
    "react_all prog2 ds2 (fst (first prog2)) = (q2, r2)" "rs2 = snd (first prog2) @ r2"
    using assms(2,3) by (auto simp: outcome_after_def split: prod.splits)
  from react_all_rel [OF assms(1) first_rel r(1,3)] first_same r(2,4) show ?thesis
    by (simp add: list_all2_appendI)
qed

end

text \<open>The \<open>n\<close>th request of one program against the \<open>n\<close>th of the other.\<close>

definition numbered :: "(nat \<Rightarrow> 'r1) \<Rightarrow> (nat \<Rightarrow> 'r2) \<Rightarrow> 'r1 \<Rightarrow> 'r2 \<Rightarrow> bool" where
  "numbered req1 req2 r1 r2 \<longleftrightarrow> (\<exists>n. r1 = req1 n \<and> r2 = req2 n)"

lemma numbered_map: "list_all2 (numbered req1 req2) (map req1 ns) (map req2 ns)"
  by (induction ns) (auto simp: numbered_def)

section \<open>The \<open>refill\<close> loops\<close>

interpretation thl: lockstep "throughput_program well1 req1 tot concurrency" "throughput_program well2 req2 tot concurrency"
  "\<lambda>d1 d2. well1 d1 = well2 d2" "numbered req1 req2" "(=)" for well1 well2 req1 req2 tot concurrency
  by unfold_locales
    (auto simp: throughput_program_def Let_def numbered_map on_done_def split: sum.splits)

section \<open>The chains\<close>

text \<open>
  Callbacks against a loop that waits: what the callbacks have left, \<open>remaining\<close>, is what the loop has
  yet to do.
\<close>

definition chains_alike :: "string \<Rightarrow> ('d \<Rightarrow> bool) \<Rightarrow> int \<Rightarrow> chain_state \<Rightarrow> (string, 'd, unit, nat) coro_state \<Rightarrow> bool" where
  "chains_alike url well tot s k \<longleftrightarrow> 0 \<le> remaining s \<and> chained tot s \<and> sent s = awaits k \<and> chain_failed s = shared k \<and>
     rest k = chain_loop url (\<lambda>d. None) well tot (tot - remaining s)"

lemma run_acts_loop: "run_acts (chain_loop q fails ok tot i) p = (p, chain_loop q fails ok tot i)"
  by (cases "i < tot") (simp_all add: chain_loop.simps [of q fails ok tot i])

lemma resume_loop:
  "resume key (chain_loop q fails ok tot i) p n = (if i < tot
     then (\<lparr>shared = p, rest = chain_loop q fails ok tot i, awaits = n + 1\<rparr>, [key n q])
     else (\<lparr>shared = p, rest = chain_loop q fails ok tot i, awaits = n\<rparr>, []))"
  by (cases "i < tot") (simp_all add: resume_def run_acts_loop, simp_all add: chain_loop.simps [of q fails ok tot i])

lemma resume_act: "resume key (Act f co) p n = resume key co (f p) n"
  by (simp add: resume_def)

lemma chains_first:
  assumes "0 < tot"
  shows "chains_alike url well tot (chain_next (new_chain tot)) (fst (resume key (chain_loop url (\<lambda>d. None) well tot 0) 0 0))"
    "snd (resume key (chain_loop url (\<lambda>d. None :: unit option) well tot 0) 0 0) = [key 0 url]"
  using assms by (simp_all add: resume_loop chains_alike_def chained_def chain_next_def new_chain_def)

lemma chains_react:
  assumes alike: "chains_alike url well2 tot s k" and d: "well1 d1 = well2 d2" and tot: "0 < tot"
    and r1: "react (callback_program well1 req tot) d1 s = (s', rs1)"
    and r2: "react (coro_program key co p) d2 k = (k', rs2)"
  shows "chains_alike url well2 tot s' k' \<and> list_all2 (numbered req (\<lambda>n. key n url)) rs1 rs2"
proof (cases "remaining s = 0")
  case True
  then have "links_pending tot s = 0" using alike tot by (auto simp: chains_alike_def chained_def links_pending_def)
  moreover have "rest k = Finished" using alike True by (simp add: chains_alike_def chain_loop.simps)
  ultimately show ?thesis using r1 r2 alike by (simp add: callback_program_def coro_program_def)
next
  case False
  with alike have s: "0 < remaining s" "int (sent s) = tot - remaining s + 1" "remaining s \<le> tot"
    by (auto simp: chains_alike_def chained_def)
  then have "links_pending tot s = 1" by (simp add: links_pending_def)
  with r1 have s': "s' = chain_done (well1 d1) s" "rs1 = map req [sent s..<sent s']"
    by (auto simp: callback_program_def Let_def)
  have "rest k = Await url (\<lambda>d. Act (\<lambda>failed. if well2 d then failed else failed + 1)
      (chain_loop url (\<lambda>d. None) well2 tot (tot - remaining s + 1)))"
    using alike s by (simp add: chains_alike_def chain_loop.simps [of url "\<lambda>d. None" well2 tot "tot - remaining s"])
  with r2 have k': "(k', rs2) = resume key (chain_loop url (\<lambda>d. None) well2 tot (tot - remaining s + 1))
      (if well2 d2 then shared k else shared k + 1) (awaits k)"
    by (simp add: coro_program_def resume_act)
  have i: "tot - remaining s + 1 = tot - (remaining s - 1)" by simp
  show ?thesis
  proof (cases "remaining s = 1")
    case True
    with s' k' d alike s show ?thesis
      unfolding i resume_loop by (auto simp: chains_alike_def chained_def chain_done_def Let_def)
  next
    case False
    with s' k' d alike s show ?thesis
      unfolding i resume_loop
      by (auto simp: chains_alike_def chained_def chain_done_def chain_next_def Let_def numbered_def)
  qed
qed

lemma chains_lockstep:
  assumes "0 < tot"
  shows "lockstep (callback_program well1 req tot) (coro_program key (chain_loop url (\<lambda>d. None) well2 tot 0) 0)
    (\<lambda>d1 d2. well1 d1 = well2 d2) (numbered req (\<lambda>n. key n url)) (chains_alike url well2 tot)"
proof
  show "chains_alike url well2 tot (fst (first (callback_program well1 req tot)))
      (fst (first (coro_program key (chain_loop url (\<lambda>d. None) well2 tot 0) 0)))"
    using chains_first(1) [OF assms] by (simp add: callback_program_def coro_program_def)
  have "snd (resume key (chain_loop url (\<lambda>d. None :: unit option) well2 tot 0) 0 0) = [key 0 url]"
    by (rule chains_first(2) [OF assms])
  then show "list_all2 (numbered req (\<lambda>n. key n url)) (snd (first (callback_program well1 req tot)))
      (snd (first (coro_program key (chain_loop url (\<lambda>d. None :: unit option) well2 tot 0) 0)))"
    by (auto simp: callback_program_def coro_program_def numbered_def)
qed (rule chains_react [OF _ _ assms])

section \<open>Property\<close>

text \<open>A request of the one client is alike a request of the other, and so are all that two programs made.\<close>

definition asked_alike :: "request \<times> completion_handler \<Rightarrow> string \<times> nat \<Rightarrow> bool" where
  "asked_alike r1 r2 \<longleftrightarrow> r1 = (async_get (fst r2), plain_handler (snd r2))"

abbreviation requests_alike :: "(completion, request \<times> completion_handler, 'p) program \<Rightarrow> client \<Rightarrow>
    (nat \<times> response_info, string \<times> nat, 'q) program \<Rightarrow> http \<Rightarrow> bool" where
  "requests_alike prog1 c prog2 h \<equiv>
     list_all2 asked_alike (snd (outcome_after prog1 (calls_of c))) (snd (outcome_after prog2 (called h)))"

lemma numbered_alike: "numbered (get_url url) (Pair url) = (\<lambda>r1 r2. asked_alike r1 r2 \<and> fst r2 = url)"
  by (auto simp: numbered_def asked_alike_def get_url_def fun_eq_iff)

lemma alike_requests: "list_all2 (numbered (get_url url) (Pair url)) rs1 rs2 \<Longrightarrow> list_all2 asked_alike rs1 rs2"
  by (erule list_all2_mono) (simp add: numbered_alike)

lemma refills_alike:
  assumes answers: "map went_well (calls_of c) = map epoll_well (called h)"
    and c: "runs_on (cofetch_throughput url tot n) c s" and h: "polls_on (epoll_throughput url tot n) h s'"
  shows "s = s' \<and> size (held_handlers (eng c)) = length (request_infos h) \<and>
    requests_alike (cofetch_throughput url tot n) c (epoll_throughput url tot n) h"
proof -
  obtain rs1 where 1: "outcome_after (cofetch_throughput url tot n) (calls_of c) = (s, rs1)"
    "nat (driver.in_flight s) = size (held_handlers (eng c))"
    using cth.served [OF c] by metis
  obtain rs2 where 2: "outcome_after (epoll_throughput url tot n) (called h) = (s', rs2)"
    "nat (driver.in_flight s') = length (request_infos h)"
    using eth.served [OF h] by metis
  have "list_all2 (\<lambda>d1 d2. went_well d1 = epoll_well d2) (calls_of c) (called h)"
    using answers by (simp add: list.rel_map list.rel_eq [symmetric])
  from thl.outcome_rel [OF this 1(1) [unfolded cofetch_throughput_def] 2(1) [unfolded epoll_outcome]] 1 2
  show ?thesis by (auto dest: alike_requests)
qed

lemma chains_match:
  assumes answers: "map went_well (calls_of c) = map epoll_well (called h)" and tot: "0 < tot"
    and c: "runs_on (cofetch_callbacks url tot) c s" and h: "polls_on (in_turn (epoll_chain url tot) 0) h k"
  shows "sent s = awaits k \<and> chain_failed s = shared k \<and>
    size (held_handlers (eng c)) = length (request_infos h) \<and>
    requests_alike (cofetch_callbacks url tot) c (in_turn (epoll_chain url tot) 0) h"
proof -
  obtain rs1 where 1: "outcome_after (cofetch_callbacks url tot) (calls_of c) = (s, rs1)"
    "links_pending tot s = size (held_handlers (eng c))"
    using ccb.served [OF c] by metis
  obtain rs2 where 2: "outcome_after (in_turn (epoll_chain url tot) 0) (called h) = (k, rs2)"
    "suspended k = length (request_infos h)"
    using ech.served [OF h] by metis
  have "list_all2 (\<lambda>d1 d2. went_well d1 = epoll_well d2) (calls_of c) (called h)"
    using answers by (simp add: list.rel_map list.rel_eq [symmetric])
  from lockstep.outcome_rel [OF chains_lockstep [OF tot] this 1(1) [unfolded cofetch_callbacks_def]
      2(1) [unfolded epoll_chain_def]]
  have k: "chains_alike url epoll_well tot s k" and rs: "list_all2 (numbered (get_url url) (Pair url)) rs1 rs2" by simp_all
  from k have "links_pending tot s = suspended k"
    using tot by (auto simp: chains_alike_def chained_def links_pending_def suspended_def
        chain_loop.simps [of url "\<lambda>d. None" epoll_well tot])
  with k alike_requests [OF rs] 1 2 show ?thesis by (simp add: chains_alike_def)
qed

text \<open>Chains of no links.\<close>

lemma no_links:
  assumes "tot \<le> 0"
  shows "runs_on (cofetch_callbacks url tot) c s \<Longrightarrow> sent s = 1"
    and "polls_on (in_turn (epoll_chain url tot) 0) h k \<Longrightarrow> awaits k = 0"
proof -
  show "runs_on (cofetch_callbacks url tot) c s \<Longrightarrow> sent s = 1" using assms by (rule callbacks_empty [rotated])
next
  assume h: "polls_on (in_turn (epoll_chain url tot) 0) h k"
  obtain rs where rs: "outcome_after (in_turn (epoll_chain url tot) 0) (called h) = (k, rs)" "length (called h) \<le> length rs"
    using ech.served [OF h] by metis
  from outcome_coro [OF rs] epoll_chain_served [OF h] assms show "awaits k = 0"
    by (auto simp: suspended_def split: if_splits)
qed

text \<open>
  C21: The benchmarks measure the two clients on the same work. When the answers so far are as good,
  one by one, the two throughput drivers have the same counters, requests in flight and failures, and
  have made the same requests in the same order; and so have the chain of callbacks and the loop that
  polls, for a positive total. For a total of zero or less they differ: the chain of callbacks makes
  one request all the same, the loop none.
\<close>

theorem drivers_alike:
  assumes "map went_well (calls_of c) = map epoll_well (called h)"
  shows "(runs_on (cofetch_throughput url tot n) c s \<and> polls_on (epoll_throughput url tot n) h s' \<longrightarrow>
      s = s' \<and> size (held_handlers (eng c)) = length (request_infos h) \<and>
      requests_alike (cofetch_throughput url tot n) c (epoll_throughput url tot n) h) \<and>
    (0 < tot \<and> runs_on (cofetch_callbacks url tot) c b \<and> polls_on (in_turn (epoll_chain url tot) 0) h k \<longrightarrow>
      sent b = awaits k \<and> chain_failed b = shared k \<and>
      size (held_handlers (eng c)) = length (request_infos h) \<and>
      requests_alike (cofetch_callbacks url tot) c (in_turn (epoll_chain url tot) 0) h) \<and>
    (tot \<le> 0 \<and> runs_on (cofetch_callbacks url tot) c b \<and> polls_on (in_turn (epoll_chain url tot) 0) h k \<longrightarrow>
      sent b = 1 \<and> awaits k = 0)"
  using refills_alike [OF assms] chains_match [OF assms] no_links by blast

theorem drivers_alike_witness:
  "\<exists>h s. polls_on (epoll_throughput ''u/'' 1 1) h s \<and> runs_on (cofetch_throughput ''u/'' 1 1) lone_client s \<and>
     request_infos h = []"
proof -
  let ?s = "\<lparr>driver.in_flight = 0, launched = 1, finished = 1, failed = 0\<rparr>"
  have c: "runs_on (cofetch_throughput ''u/'' 1 1) lone_client ?s"
    by (rule lone_served) (simp_all add: cofetch_throughput_def throughput_program_def get_url_def on_done_def refill.simps
        new_driver_def lone_completion_def went_well_def is_ok_def)
  have "\<exists>h. polls_on (epoll_throughput ''u/'' 1 1) h ?s \<and> request_infos h = [] \<and> map epoll_well (called h) = [True]"
    by (rule lone_polled) (simp_all add: epoll_throughput_def epoll_on_done_def epoll_refill.simps new_driver_def ri_is_ok_def)
  then obtain h where h: "polls_on (epoll_throughput ''u/'' 1 1) h ?s" "map epoll_well (called h) = [True]"
    by (elim exE conjE)
  have "map went_well (calls_of lone_client) = map epoll_well (called h)"
    by (simp add: h(2) lone_completion_def went_well_def is_ok_def)
  note drivers_alike [OF this, THEN conjunct1, THEN mp, OF conjI [OF c h(1)], THEN conjunct2, THEN conjunct1]
  then have "request_infos h = []" by simp
  with c h(1) show ?thesis by (intro exI conjI)
qed

end
