(* ===== verification/Examples.thy ===== *)
theory Examples
  imports Program_Client
begin

text \<open>
  The programs of \<open>examples/\<close> that add logic of their own to the client: the blocking facade of
  \<open>example_sync.cpp\<close>, which drives the loop once per call, and the reactors of
  \<open>example_reactors.cpp\<close>, which drive one batch of requests by \<open>run()\<close> or by \<open>poll()\<close>.
\<close>

section \<open>Futures\<close>

text \<open>
  \<open>future::get\<close> waits for the completion of its handler and throws its error code as a
  \<open>system_error\<close> (\<open>Inl\<close>), or returns the response. \<open>None\<close>: it waits for ever.
\<close>

definition settles :: "completion \<Rightarrow> error_code + response" where
  "settles d = (case d of (h, ec, res) \<Rightarrow> if ec_set ec then Inl ec else Inr res)"

definition future_get :: "completion_handler \<Rightarrow> client \<Rightarrow> (error_code + response) option" where
  "future_get h c = map_option settles (find (\<lambda>d. fst d = h) (invoked (eng c)))"

section \<open>The blocking facade\<close>

text \<open>
  \<open>io_\<close> is its stopped flag (a drained context stays stopped until \<open>restart\<close>), \<open>promises\<close> the
  number of promises made.
\<close>

record sync_client =
  sync_http :: client
  io_stopped :: bool
  promises :: nat

definition new_sync :: "nat \<Rightarrow> int \<Rightarrow> sync_client" where
  "new_sync version now = \<lparr>sync_http = new_client version kDefaultMaxPooledHandles now,
     io_stopped = False, promises = 0\<rparr>"

text \<open>What the world does during a call: the answers to \<open>start\<close>, and the events of the loop.\<close>

record sync_world =
  at_start :: start_answers
  adding :: "curl_act list"
  loop_events :: "event list"

text \<open>\<open>io_context::run\<close> of a stopped context returns at once.\<close>

definition run_context :: "event list \<Rightarrow> sync_client \<Rightarrow> sync_client outcome" where
  "run_context evs s =
     (if io_stopped s then Inr s
      else and_then (io_run evs (sync_http s)) (\<lambda>c. Inr (s\<lparr>sync_http := c, io_stopped := True\<rparr>)))"

definition sync_run :: "completion_handler \<Rightarrow> event list \<Rightarrow> sync_client \<Rightarrow>
    ((error_code + response) option \<times> sync_client) outcome" where
  "sync_run pending evs s =
     and_then (run_context evs (s\<lparr>io_stopped := False\<rparr>)) (\<lambda>s. Inr (future_get pending (sync_http s), s))"

datatype sync_method = Get string | Post string string

fun sync_request :: "sync_method \<Rightarrow> request" where
  "sync_request (Get url) = async_get url"
| "sync_request (Post url content) = async_post url content"

text \<open>
  \<open>get\<close> and \<open>post\<close>: the request is started before \<open>run\<close> is entered. Its handler fulfils a promise, and
  no handler uses the client.
\<close>

definition sync_call :: "sync_method \<times> sync_world \<Rightarrow> sync_client \<Rightarrow>
    ((error_code + response) option \<times> sync_client) outcome" where
  "sync_call k s = (case k of (call, w) \<Rightarrow>
     expect (\<forall>ev\<in>set (loop_events w). ops_of ev = [])
       (and_then (do_user (Start_request (at_start w) (sync_request call) (plain_handler (promises s)) (adding w)) (sync_http s))
         (\<lambda>c. sync_run (plain_handler (promises s)) (loop_events w) (s\<lparr>sync_http := c, promises := promises s + 1\<rparr>))))"

text \<open>A program: calls one after the other.\<close>

fun sync_calls :: "(sync_method \<times> sync_world) list \<Rightarrow> sync_client \<Rightarrow>
    ((error_code + response) option list \<times> sync_client) outcome" where
  "sync_calls [] s = Inr ([], s)"
| "sync_calls (k # ks) s = and_then (sync_call k s) (\<lambda>(r, s).
     and_then (sync_calls ks s) (\<lambda>(rs, s). Inr (r # rs, s)))"

section \<open>Calls in a row\<close>

text \<open>
  Between two calls nothing is in flight, the promises made are the handlers started and called,
  and there is at most one easy handle.
\<close>

definition sync_ok :: "engine \<Rightarrow> sync_client \<Rightarrow> bool" where
  "sync_ok e0 s \<longleftrightarrow> fresh_engine e0 \<and> idle_client e0 (sync_http s) \<and> transfers (eng (sync_http s)) = [] \<and>
     started (sync_http s) = map plain_handler [0..<promises s] \<and>
     map fst (invoked (eng (sync_http s))) = map plain_handler [0..<promises s] \<and>
     card (dom (nodes (eng (sync_http s)))) \<le> 1"

lemma new_sync_ok: "sync_ok (new_engine version kDefaultMaxPooledHandles) (new_sync version now)"
  using alive_idle [OF new_client_inv, of version kDefaultMaxPooledHandles now] new_engine_fresh
  by (simp add: sync_ok_def new_sync_def)
    (simp add: new_client_def new_timer_def new_engine_def)

lemma acquire_within:
  assumes "nodes_ok e" "transfers e = []" "card (dom (nodes e)) \<le> 1"
  obtains D where "finite D" "card D \<le> 1" "nodes_within D e" "\<And>e1. acquire ans e = Some e1 \<Longrightarrow> nodes_within D e1"
proof (cases "idle e")
  case Nil
  with assms nodes_okD(3) have "dom (nodes e) = {}" by auto
  then show ?thesis
    by (intro that [of "{node_at ans}"])
      (auto simp: nodes_within_def acquire_def Nil split: option.splits if_splits)
next
  case (Cons a rest)
  show ?thesis
    using assms nodes_okD(3) [OF assms(1)]
    by (intro that [of "dom (nodes e)"]) (auto simp: nodes_within_def acquire_def Cons)
qed

lemma started_within:
  assumes "nodes_within D (eng c)" "\<And>e1. acquire ans (eng c) = Some e1 \<Longrightarrow> nodes_within D e1"
  shows "yields (quiet_since (started c @ [h]) D) (do_user (Start_request ans r h as) c)"
proof -
  have "yields (quiet_since (started c @ [h]) D) (on_eng (engine_do (Start ans r h)) (c\<lparr>started := started c @ [h]\<rparr>))"
    using start_within [OF assms, where r = r and h = h]
    by (auto simp: on_eng_def yields_def and_then_Inr expect_Inr quiet_since_def)
  then have "yields (quiet_since (started c @ [h]) D)
      (and_then (on_eng (engine_do (Start ans r h)) (c\<lparr>started := started c @ [h]\<rparr>)) (curl_acts as))"
    by (rule pool.follows) (rule pool.run_step, simp_all add: pool.act_step)
  then show ?thesis by (simp add: yields_expect del: engine_do.simps)
qed

lemma find_last: "\<forall>d\<in>set ds. \<not> Q d \<Longrightarrow> Q d \<Longrightarrow> find Q (ds @ [d]) = Some d"
  by (induction ds) auto

lemma sync_call_ok:
  assumes s: "sync_ok e0 s" and k: "sync_call k s = Inr (r, s')"
  shows "sync_ok e0 s' \<and> promises s' = promises s + 1 \<and>
    (\<exists>d. invoked (eng (sync_http s')) = invoked (eng (sync_http s)) @ [d] \<and> r = Some (settles d))"
proof -
  let ?c = "sync_http s" and ?h = "plain_handler (promises s)"
  obtain q w where kw: "k = (q, w)" by (cases k)
  let ?start = "Start_request (at_start w) (sync_request q) ?h (adding w)"
  from k obtain c1 c' where quiet: "\<forall>ev\<in>set (loop_events w). ops_of ev = []"
    and 1: "client_do (User ?start) ?c = Inr c1" and 2: "io_run (loop_events w) c1 = Inr c'"
    and s': "sync_http s' = c'" "promises s' = promises s + 1" and r: "r = future_get ?h c'"
    by (auto simp: sync_call_def kw expect_Inr and_then_Inr sync_run_def run_context_def simp del: do_user.simps)
  have i: "idle_client e0 ?c" and tr: "transfers (eng ?c) = []" and e0: "fresh_engine e0"
    using s by (simp_all add: sync_ok_def)
  have inv: "engine_inv (eng ?c)" by (rule busy_engine_inv [OF idle_busy [OF i]])
  have i1: "idle_client e0 c1" using live_event [OF i, of "User ?start"] 1 by (simp add: safely_def)
  note loop = io_run_client [OF 2] io_run_idle [OF i1 2]
  then have calm: "\<not> destroys ev \<and> ops_of ev = []" if "ev \<in> set (loop_events w)" for ev
    using that quiet loop_event_live by blast
  from inv have "nodes_ok (eng ?c)" by (simp add: engine_inv_def engine_inv_but_def)
  then obtain D where D: "finite D" "card D \<le> 1" "nodes_within D (eng ?c)"
    "\<And>e1. acquire (at_start w) (eng ?c) = Some e1 \<Longrightarrow> nodes_within D e1"
    by (rule acquire_within [where ans = "at_start w"]) (use s in \<open>simp_all add: sync_ok_def\<close>)
  have "quiet_since (started ?c @ [?h]) D c1"
    using started_within [OF D(3,4), where h = ?h] 1 by (auto dest: yieldsD)
  then have c': "quiet_since (started ?c @ [?h]) D c'"
    using pool.events_step [of _ _ c1 "loop_events w"] calm loop by (auto dest: yieldsD)
  then have st: "started c' = map plain_handler [0..<promises s + 1]" using s by (simp add: quiet_since_def sync_ok_def)
  have "logging (invoked (eng ?c)) c1"
    using log.event_step [of _ ?c "User ?start"] inv 1 by (auto simp: logging_def dest: yieldsD)
  then have "logging (invoked (eng ?c)) c'"
    using log.events_step [of _ c1 "loop_events w"] calm loop by (auto dest: yieldsD)
  then obtain ds where ds: "invoked (eng c') = invoked (eng ?c) @ ds" by (auto simp: logging_def)
  have "held_handlers (eng c') + called_handlers (eng c') = mset (started c')"
    using engine_reached_ledger [of e0 c'] loop e0 by (simp add: idle_client_def fresh_engine_def)
  then have "called_handlers (eng c') = mset (started c')"
    using loop by (simp add: held_handlers_def waiting_def)
  then have "mset (map fst ds) = {# ?h #}"
    using s st ds by (simp add: called_handlers_def sync_ok_def flip: mset_map)
  then have "map fst ds = [?h]" by (simp only: mset_single_iff)
  then obtain d where d: "ds = [d]" "fst d = ?h" by auto
  have "fst d' \<noteq> ?h" if "d' \<in> set (invoked (eng ?c))" for d'
  proof -
    have "fst d' \<in> set (map fst (invoked (eng ?c)))" using that by simp
    also have "map fst (invoked (eng ?c)) = map plain_handler [0..<promises s]"
      using s unfolding sync_ok_def by blast
    finally show ?thesis by auto
  qed
  then have "r = Some (settles d)" using d ds find_last [of _ "\<lambda>d. fst d = ?h" d] by (simp add: r future_get_def)
  moreover have "card (dom (nodes (eng c'))) \<le> 1"
    using card_mono [OF D(1), of "dom (nodes (eng c'))"] D(2) c' by (simp add: quiet_since_def nodes_within_def)
  ultimately show ?thesis using s st ds d loop e0 by (simp add: sync_ok_def s')
qed

lemma sync_calls_ok:
  "sync_ok e0 s \<Longrightarrow> sync_calls ks s = Inr (rs, s') \<Longrightarrow>
     sync_ok e0 s' \<and> promises s' = promises s + length ks \<and>
     (\<exists>ds. invoked (eng (sync_http s')) = invoked (eng (sync_http s)) @ ds \<and> rs = map (\<lambda>d. Some (settles d)) ds)"
proof (induction ks arbitrary: s rs)
  case (Cons k ks)
  from Cons.prems(2) obtain r s1 rs1 where 1: "sync_call k s = Inr (r, s1)"
    "sync_calls ks s1 = Inr (rs1, s')" "rs = r # rs1"
    by (auto simp: and_then_Inr)
  from sync_call_ok [OF Cons.prems(1) 1(1)] obtain d where d: "sync_ok e0 s1" "promises s1 = promises s + 1"
    "invoked (eng (sync_http s1)) = invoked (eng (sync_http s)) @ [d]" "r = Some (settles d)" by blast
  from Cons.IH [OF d(1) 1(2)] d 1(3) show ?case by auto
qed simp

section \<open>Reactors\<close>

definition kRequests :: nat where
  "kRequests = 5"

definition kUrl :: string where
  "kUrl = ''https://postman-echo.com/get''"

definition launch_requests :: "(start_answers \<times> curl_act list) list \<Rightarrow> client \<Rightarrow> client outcome" where
  "launch_requests ws c = expect (length ws = kRequests)
     (user_ops (map2 (\<lambda>i (ans, as). Start_request ans (async_get kUrl) (plain_handler i) as) [0..<kRequests] ws) c)"

text \<open>Each handler increments \<open>completed\<close>, and there are no others.\<close>

definition completed :: "client \<Rightarrow> nat" where
  "completed c = length (invoked (eng c))"

text \<open>
  The busy loop: \<open>io.poll()\<close> runs what is ready, here one list of events for each call. \<open>False\<close>:
  the loop is still running when the lists end.
\<close>

fun poll_loop :: "event list list \<Rightarrow> client \<Rightarrow> (bool \<times> client) outcome" where
  "poll_loop [] c = expect (multi_waits c) (Inr (\<not> completed c < kRequests, c))"
| "poll_loop (p # ps) c = expect (multi_waits c)
     (if completed c < kRequests then and_then (run_all io_step p c) (poll_loop ps) else Inr (True, c))"

text \<open>
  The foreign loop (on Linux): an epoll set with a timer of its own, which gets readable when it
  expires, and one \<open>poll\<close> a turn. A turn is how often the timer has expired since the last, what
  \<open>epoll_wait\<close> returns (the count, the descriptor of the event), and the events of \<open>io.poll()\<close>.
  The timer is the only descriptor in the set, and is reported while it is readable. The state is
  its count of expirations, which \<open>read\<close> clears.
\<close>

type_synonym turn = "nat \<times> (int \<times> int) \<times> event list"

definition read_tick :: "int \<Rightarrow> int \<times> int \<Rightarrow> nat \<Rightarrow> nat" where
  "read_tick tick ev expirations = (case ev of (n, fd) \<Rightarrow> if n > 0 \<and> fd = tick then 0 else expirations)"

definition wait_told :: "int \<Rightarrow> int \<times> int \<Rightarrow> nat \<Rightarrow> bool" where
  "wait_told tick ev expirations \<longleftrightarrow> (case ev of (n, fd) \<Rightarrow> if 0 < expirations then n = 1 \<and> fd = tick else n \<le> 0)"

fun foreign_loop :: "int \<Rightarrow> turn list \<Rightarrow> nat \<Rightarrow> client \<Rightarrow> (bool \<times> nat \<times> client) outcome" where
  "foreign_loop tick [] expirations c = expect (multi_waits c) (Inr (\<not> completed c < kRequests, expirations, c))"
| "foreign_loop tick ((expired, ev, p) # ts) expirations c = expect (multi_waits c)
     (if completed c < kRequests
      then expect (wait_told tick ev (expirations + expired))
        (and_then (run_all io_step p c) (foreign_loop tick ts (read_tick tick ev (expirations + expired))))
      else Inr (True, expirations, c))"

text \<open>To the client the foreign loop is the polling one; and its timer is always read.\<close>

lemma foreign_polls:
  "foreign_loop tick ts expirations c = Inr (left, e, c') \<Longrightarrow>
     poll_loop (map (snd \<circ> snd) ts) c = Inr (left, c') \<and> (expirations = 0 \<longrightarrow> e = 0)"
proof (induction tick ts expirations c rule: foreign_loop.induct)
  case (2 tick expired ev p ts expirations c)
  have "read_tick tick ev (expirations + expired) = 0" if "wait_told tick ev (expirations + expired)"
    using that by (auto simp: wait_told_def read_tick_def split: prod.splits if_splits)
  with 2 show ?case by (auto simp: expect_Inr and_then_Inr split: if_splits)
qed (simp add: expect_Inr)

text \<open>
  \<open>main\<close>: the requests are launched before the mode is looked at. The exit code is \<open>None\<close> while the
  loop runs.
\<close>

definition exit_code :: "client \<Rightarrow> int" where
  "exit_code c = (if completed c = kRequests then 0 else 1)"

definition reactors_main :: "string \<Rightarrow> (start_answers \<times> curl_act list) list \<Rightarrow> event list \<Rightarrow> event list list \<Rightarrow>
    int \<Rightarrow> turn list \<Rightarrow> client \<Rightarrow> (int option \<times> client) outcome" where
  "reactors_main mode ws evs ps tick ts c =
     expect (\<forall>ev\<in>set (evs @ concat ps @ concat (map (snd \<circ> snd) ts)). ops_of ev = [])
       (and_then (launch_requests ws c) (\<lambda>c.
         if mode = ''run'' then and_then (io_run evs c) (\<lambda>c. Inr (Some (exit_code c), c))
         else if mode = ''poll''
         then and_then (poll_loop ps c) (\<lambda>(left, c). Inr (if left then Some (exit_code c) else None, c))
         else if mode = ''foreign''
         then and_then (foreign_loop tick ts 0 c) (\<lambda>(left, e, c). Inr (if left then Some (exit_code c) else None, c))
         else Inr (Some 2, c)))"

text \<open>The client between two events of such a program.\<close>

definition launched_all :: "engine \<Rightarrow> client \<Rightarrow> bool" where
  "launched_all e0 c \<longleftrightarrow> fresh_engine e0 \<and> idle_client e0 c \<and>
     started c = map plain_handler [0..<kRequests]"

lemma launched_balance:
  assumes "launched_all e0 c"
  shows "held_handlers (eng c) + mset (map fst (invoked (eng c))) = mset (map plain_handler [0..<kRequests])"
proof -
  have "held_handlers (eng c) + called_handlers (eng c) = mset (started c)"
    using assms engine_reached_ledger [of e0 c]
    by (simp add: launched_all_def idle_client_def fresh_engine_def)
  with assms show ?thesis by (simp add: launched_all_def called_handlers_def)
qed

lemma launched_counts: "launched_all e0 c \<Longrightarrow> completed c + size (held_handlers (eng c)) = kRequests"
  using arg_cong [OF launched_balance, of e0 c size] by (simp add: completed_def)

lemma user_ops_started:
  "user_ops (map2 (\<lambda>i (ans, as). Start_request ans (async_get kUrl) (plain_handler i) as) is ws) c = Inr c' \<Longrightarrow>
     length is = length ws \<Longrightarrow> started c' = started c @ map plain_handler is"
proof (induction "is" ws arbitrary: c rule: list_induct2')
  case (4 i "is" w ws)
  obtain ans as where w: "w = (ans, as)" by (cases w)
  from 4(2) obtain c1 where 1: "do_user (Start_request ans (async_get kUrl) (plain_handler i) as) c = Inr c1"
    "user_ops (map2 (\<lambda>i (ans, as). Start_request ans (async_get kUrl) (plain_handler i) as) is ws) c1 = Inr c'"
    by (auto simp: w and_then_Inr simp del: do_user.simps)
  have "yields (quiet_since (started c @ [plain_handler i]) UNIV)
      (do_user (Start_request ans (async_get kUrl) (plain_handler i) as) c)"
    by (rule started_within) (simp_all add: nodes_within_def)
  with 1(1) have "started c1 = started c @ [plain_handler i]" by (auto simp: quiet_since_def dest: yieldsD)
  with 4(1) [OF 1(2)] 4(3) show ?case by simp
qed simp_all

lemma launch_launched:
  assumes "launch_requests ws (new_client version max_pooled now) = Inr c"
  shows "launched_all (new_engine version max_pooled) c"
proof -
  let ?ops = "map2 (\<lambda>i (ans, as). Start_request ans (async_get kUrl) (plain_handler i) as) [0..<kRequests] ws"
  from assms have 1: "length ws = kRequests" "user_ops ?ops (new_client version max_pooled now) = Inr c"
    by (auto simp: launch_requests_def expect_Inr)
  have users: "client_run (map User us) d = user_ops us d" for us d
    by (induction us arbitrary: d) (simp_all add: and_then_def split: sum.split)
  have live: "idle_client e d \<Longrightarrow> safely (idle_client e) (user_ops us d)" for e d us
    unfolding users [symmetric] by (rule live_run) auto
  have "idle_client (new_engine version max_pooled) (new_client version max_pooled now)"
    by (rule alive_idle [OF new_client_inv]) (simp add: new_client_def new_timer_def)
  with live [OF this, of ?ops] 1(2) have "idle_client (new_engine version max_pooled) c"
    by (auto simp: safely_def)
  moreover have "started c = map plain_handler [0..<kRequests]"
    using user_ops_started [OF 1(2)] 1(1) by (simp add: new_client_def)
  ultimately show ?thesis by (simp add: launched_all_def new_engine_fresh)
qed

lemma launched_run:
  assumes c: "launched_all e0 c" and r: "run_all io_step evs c = Inr c'"
    and quiet: "\<forall>ev\<in>set evs. ops_of ev = []"
  shows "launched_all e0 c'"
proof -
  note run = io_steps_client [OF r]
  have calm: "\<not> destroys ev \<and> ops_of ev = []" if "ev \<in> set evs" for ev
    using that quiet run loop_event_live by blast
  have "idle_client e0 c'"
    using c live_run [of e0 c evs] run calm by (auto simp: launched_all_def safely_def)
  moreover have "quiet_since (started c) UNIV c'"
    using pool.events_step [of "started c" UNIV c evs] calm run
    by (auto simp: quiet_since_def nodes_within_def dest: yieldsD)
  ultimately show ?thesis using c by (simp add: launched_all_def quiet_since_def)
qed

lemma poll_loop_ends:
  "poll_loop ps c = Inr (left, c') \<Longrightarrow> launched_all e0 c \<Longrightarrow> \<forall>ev\<in>set (concat ps). ops_of ev = [] \<Longrightarrow>
     launched_all e0 c' \<and> multi_waits c' \<and> left = (\<not> completed c' < kRequests)"
proof (induction ps c arbitrary: left rule: poll_loop.induct)
  case (2 p ps c)
  show ?case
  proof (cases "completed c < kRequests")
    case True
    with 2(2) obtain c1 where c1: "run_all io_step p c = Inr c1" "poll_loop ps c1 = Inr (left, c')"
      by (auto simp: expect_Inr and_then_Inr)
    have "launched_all e0 c1" using launched_run [OF 2(3) c1(1)] 2(4) by simp
    with 2(1) [OF True c1(2)] 2(4) show ?thesis by simp
  next
    case False
    with 2(2,3) show ?thesis by (auto simp: expect_Inr)
  qed
qed (auto simp: expect_Inr)

lemma launched_work:
  assumes "launched_all e0 c" "multi_waits c" "completed c < kRequests"
  shows "\<not> out_of_work c"
proof
  assume w: "out_of_work c"
  with in_multi_work [of e0 c] assms(1,2) have "held_handlers (eng c) = {#}"
    by (simp add: launched_all_def held_handlers_def waiting_def out_of_work_def)
  with launched_counts [OF assms(1)] assms(3) show False by simp
qed

section \<open>Properties\<close>

text \<open>
  C25: The blocking facade: any sequence of calls of \<open>get\<close> and \<open>post\<close> returns, each with what the
  handler of its own request was called with (the response, or the transport error it throws),
  and the client underneath serves all of them with a single easy handle.
\<close>

theorem sync_calls_return:
  assumes "sync_calls ks (new_sync version now) = Inr (rs, s)"
  shows "map fst (invoked (eng (sync_http s))) = map plain_handler [0..<length ks] \<and>
    rs = map (\<lambda>d. Some (settles d)) (invoked (eng (sync_http s))) \<and>
    length (open_handles (eng (sync_http s))) \<le> 1"
proof -
  have new: "promises (new_sync version now) = 0" "invoked (eng (sync_http (new_sync version now))) = []"
    by (simp_all add: new_sync_def new_client_def new_engine_def)
  from sync_calls_ok [OF new_sync_ok assms] new
  have ok: "sync_ok (new_engine version kDefaultMaxPooledHandles) s" "promises s = length ks"
    "rs = map (\<lambda>d. Some (settles d)) (invoked (eng (sync_http s)))" by auto
  have "engine_inv (eng (sync_http s))"
    by (rule busy_engine_inv [OF idle_busy [of "new_engine version kDefaultMaxPooledHandles"]])
      (use ok(1) in \<open>simp add: sync_ok_def\<close>)
  then have n: "nodes_ok (eng (sync_http s))" by (simp add: engine_inv_def engine_inv_but_def)
  have "length (open_handles (eng (sync_http s))) = card (dom (nodes (eng (sync_http s))))"
    using distinct_card [OF nodes_okD(5) [OF n]] nodes_okD(1,2) [OF n] by (simp add: card_image)
  then show ?thesis using ok by (simp add: sync_ok_def)
qed

text \<open>A \<open>get\<close> that is answered and a \<open>post\<close> that fails.\<close>

definition sample_calls :: "(sync_method \<times> sync_world) list" where
  "sample_calls =
     [(Get ''u'', \<lparr>at_start = sample_answers 7 70, adding = [Timeout_act 0 0],
        loop_events = [Kick_event \<lparr>acts = [Header_act 7 ''H'', Body_act 7 ''xy'', Timeout_act (-1) 1],
          running_count = 0, messages = [(sample_message 7 CURLE_OK 200, [], [])]\<rparr>]\<rparr>),
      (Post ''v'' ''abc'', \<lparr>at_start = sample_answers 8 80, adding = [Timeout_act 0 2],
        loop_events = [Kick_event \<lparr>acts = [Timeout_act (-1) 3], running_count = 0,
          messages = [(sample_message 7 CURLE_OUT_OF_MEMORY 0, [], [])]\<rparr>]\<rparr>)]"

theorem sync_calls_return_witness:
  "\<exists>res s. sync_calls sample_calls (new_sync 0x080000 0) =
       Inr ([Some (Inr res), Some (Inl (make_error_code CURLE_OUT_OF_MEMORY))], s) \<and>
     data res = ''xy'' \<and> length (open_handles (eng (sync_http s))) \<le> 1"
proof -
  let ?rs = "fst (projr (sync_calls sample_calls (new_sync 0x080000 0)))"
  let ?s = "snd (projr (sync_calls sample_calls (new_sync 0x080000 0)))"
  have 1: "sync_calls sample_calls (new_sync 0x080000 0) = Inr (?rs, ?s)"
    "\<exists>res. ?rs = [Some (Inr res), Some (Inl (make_error_code CURLE_OUT_OF_MEMORY))] \<and> data res = ''xy''"
    by (simp_all add: sample_calls_def sync_call_def new_sync_def sync_run_def run_context_def future_get_def
        settles_def plain_handler_def io_run_def io_step_def out_of_work_def multi_waits_def reaction_ops_def
        make_error_code_def kDefaultMaxPooledHandles_def client_eval)
  from sync_calls_return [OF 1(1)] 1 show ?thesis by (metis prod.collapse)
qed

text \<open>How the modes end.\<close>

lemma reactors_end:
  assumes "reactors_main mode ws evs ps tick ts (new_client version max_pooled now) = Inr (r, c)"
    and "mode \<in> {''run'', ''poll'', ''foreign''}"
  shows "case r of Some code \<Rightarrow> code = 0 \<and> completed c = kRequests \<and>
        mset (map fst (invoked (eng c))) = mset (map plain_handler [0..<kRequests])
    | None \<Rightarrow> mode \<noteq> ''run'' \<and> completed c < kRequests \<and> \<not> out_of_work c"
proof -
  let ?e0 = "new_engine version max_pooled"
  from assms(1) obtain c1 where quiet: "\<forall>ev\<in>set (evs @ concat ps @ concat (map (snd \<circ> snd) ts)). ops_of ev = []"
    and 1: "launch_requests ws (new_client version max_pooled now) = Inr c1"
    by (auto simp: reactors_main_def expect_Inr and_then_Inr)
  have l: "launched_all ?e0 c1" by (rule launch_launched [OF 1])
  show ?thesis
  proof (cases "mode = ''run''")
    case True
    with assms(1) 1 have io: "io_run evs c1 = Inr c" and r: "r = Some (exit_code c)"
      by (auto simp: reactors_main_def expect_Inr and_then_Inr)
    then have "launched_all ?e0 c"
      using launched_run [OF l _, of evs c] quiet by (auto simp: io_run_def and_then_Inr expect_Inr)
    moreover have "held_handlers (eng c) = {#}"
      using io_run_idle [OF _ io, of ?e0] l by (simp add: launched_all_def held_handlers_def waiting_def)
    ultimately show ?thesis
      using launched_counts [of ?e0 c] launched_balance [of ?e0 c] by (simp add: r exit_code_def)
  next
    case False
    have "\<exists>left qs. poll_loop qs c1 = Inr (left, c) \<and> r = (if left then Some (exit_code c) else None) \<and>
        (\<forall>ev\<in>set (concat qs). ops_of ev = [])"
    proof (cases "mode = ''poll''")
      case True
      with assms(1) 1 obtain left where "poll_loop ps c1 = Inr (left, c)" "r = (if left then Some (exit_code c) else None)"
        by (auto simp: reactors_main_def expect_Inr and_then_Inr)
      with quiet show ?thesis by (intro exI [of _ left] exI [of _ ps]) simp
    next
      case False
      with assms \<open>mode \<noteq> ''run''\<close> 1 obtain left e where "foreign_loop tick ts 0 c1 = Inr (left, e, c)"
        "r = (if left then Some (exit_code c) else None)"
        by (auto simp: reactors_main_def expect_Inr and_then_Inr)
      with foreign_polls [of tick ts 0 c1] quiet show ?thesis
        by (intro exI [of _ left] exI [of _ "map (snd \<circ> snd) ts"]) simp
    qed
    then obtain left qs where p: "poll_loop qs c1 = Inr (left, c)" and q: "\<forall>ev\<in>set (concat qs). ops_of ev = []"
      and r: "r = (if left then Some (exit_code c) else None)" by blast
    from poll_loop_ends [OF p l q] have "launched_all ?e0 c" "multi_waits c" "left = (\<not> completed c < kRequests)"
      by simp_all
    moreover from this have sum: "completed c + size (held_handlers (eng c)) = kRequests" by (simp add: launched_counts)
    moreover have "held_handlers (eng c) = {#}" if "\<not> completed c < kRequests"
    proof -
      from sum that have "size (held_handlers (eng c)) = 0" by linarith
      then show ?thesis by simp
    qed
    ultimately show ?thesis
      using launched_work [of ?e0 c] launched_balance [of ?e0 c] False by (auto simp: r exit_code_def)
  qed
qed

text \<open>
  C26: The modes of \<open>example_reactors\<close> agree: \<open>run\<close> returns with all requests completed; a polling
  loop that is left has completed all of them, exactly once each, and the program exits with 0;
  while such a loop goes round there is work outstanding for the next \<open>poll\<close>.
\<close>

theorem reactors_complete:
  assumes "reactors_main mode ws evs ps tick ts (new_client version max_pooled now) = Inr (r, c)"
    and "mode \<in> {''run'', ''poll'', ''foreign''}"
  shows "case r of Some code \<Rightarrow> code = 0 \<and> completed c = kRequests \<and>
        mset (map fst (invoked (eng c))) = mset (map plain_handler [0..<kRequests])
    | None \<Rightarrow> mode \<noteq> ''run'' \<and> completed c < kRequests \<and> \<not> out_of_work c"
  using reactors_end [OF assms] .

text \<open>Five requests that cannot be started are answered by their posted completions.\<close>

definition sample_polls :: "event list list" where
  "sample_polls = [[Posted_event 0 [], Posted_event 0 []],
     [Posted_event 0 [], Posted_event 0 [], Posted_event 0 []], []]"

definition refused :: "start_answers \<times> curl_act list" where
  "refused = ((sample_answers 7 70)\<lparr>easy_init := None\<rparr>, [])"

theorem reactors_complete_witness:
  "\<exists>c. reactors_main ''poll'' [refused, refused, refused, refused, refused] [] sample_polls 0 [] (new_client 0x080000 1 0) =
     Inr (Some 0, c) \<and> completed c = 5"
proof -
  let ?m = "reactors_main ''poll'' [refused, refused, refused, refused, refused] [] sample_polls 0 [] (new_client 0x080000 1 0)"
  have "[0..<kRequests] = [0, 1, 2, 3, 4]" by (simp add: kRequests_def upt_rec)
  then have 1: "?m = Inr (fst (projr ?m), snd (projr ?m))" "fst (projr ?m) = Some 0"
    by (simp_all add: sample_polls_def refused_def reactors_main_def launch_requests_def completed_def kRequests_def
        io_step_def out_of_work_def multi_waits_def exit_code_def posted_event_def plain_handler_def
        fail_def error_response_def run_posted_def client_eval)
  then have 2: "?m = Inr (Some 0, snd (projr ?m))" by metis
  from reactors_complete [OF this] have "completed (snd (projr ?m)) = 5" by (simp add: kRequests_def)
  with 2 show ?thesis by blast
qed

end
