(* ===== verification/Completions.thy ===== *)
theory Completions
  imports Client_Props Client_Observe
begin

text \<open>
  What completion handlers are called with. Every completion the client posts or makes is well
  formed: its error code and its response tell the same story. The locale \<open>observed\<close> carries this
  from the engine to the client. The texts of errors come from libcurl (\<open>strerror\<close>) and, for
  the empty code and for cancellation, from the categories of the system (\<open>other_text\<close>); both are
  parameters.
\<close>

section \<open>Texts of errors\<close>

definition curl_category_name :: string where
  "curl_category_name = ''curl''"

definition curl_category_message :: "(curlcode \<Rightarrow> string) \<Rightarrow> int \<Rightarrow> string" where
  "curl_category_message strerror ev = strerror ev"

definition response_error :: "(curlcode \<Rightarrow> string) \<Rightarrow> response \<Rightarrow> string" where
  "response_error strerror r = strerror (curl_code r)"

text \<open>\<open>error_code::message\<close> asks the category of the code; \<open>other_text\<close> are those of the other categories.\<close>

fun ec_message :: "(curlcode \<Rightarrow> string) \<Rightarrow> (error_code \<Rightarrow> string) \<Rightarrow> error_code \<Rightarrow> string" where
  "ec_message strerror other_text (Curl_error ev) = curl_category_message strerror ev"
| "ec_message strerror other_text ec = other_text ec"

section \<open>Well-formed completions\<close>

fun agrees :: "error_code \<Rightarrow> response \<Rightarrow> bool" where
  "agrees No_error r \<longleftrightarrow> curl_code r = CURLE_OK"
| "agrees (Curl_error n) r \<longleftrightarrow> n \<noteq> CURLE_OK \<and> curl_code r = n"
| "agrees Operation_aborted r \<longleftrightarrow> r = error_response CURLE_ABORTED_BY_CALLBACK"

definition completion_ok :: "completion \<Rightarrow> bool" where
  "completion_ok d \<longleftrightarrow> (case d of (h, ec, r) \<Rightarrow> agrees ec r)"

definition log_agrees :: "engine \<Rightarrow> bool" where
  "log_agrees e \<longleftrightarrow> (\<forall>d\<in>set (posted e @ invoked e). completion_ok d)"

lemma log_agrees_frame [simp]:
  "log_agrees (e\<lparr>nodes := x1\<rparr>) = log_agrees e"
  "log_agrees (e\<lparr>transfers := x2\<rparr>) = log_agrees e"
  "log_agrees (e\<lparr>idle := x3\<rparr>) = log_agrees e"
  "log_agrees (e\<lparr>running := x4\<rparr>) = log_agrees e"
  "log_agrees (e\<lparr>next_transfer_id := x5\<rparr>) = log_agrees e"
  "log_agrees (e\<lparr>opts := x6\<rparr>) = log_agrees e"
  "log_agrees (e\<lparr>in_multi := x7\<rparr>) = log_agrees e"
  "log_agrees (e\<lparr>open_handles := x8\<rparr>) = log_agrees e"
  "log_agrees (e\<lparr>cleaned := x10\<rparr>) = log_agrees e"
  "log_agrees (e\<lparr>slots := x9\<rparr>) = log_agrees e"
  by (simp_all add: log_agrees_def)

lemma fail_agrees: "log_agrees e \<Longrightarrow> code \<noteq> CURLE_OK \<Longrightarrow> log_agrees (fail h code e)"
  by (auto simp: log_agrees_def fail_def completion_ok_def make_error_code_def error_response_def)

lemma take_handler_agrees: "log_agrees e \<Longrightarrow> yields (\<lambda>(h, e'). log_agrees e') (take_handler a e)"
  unfolding take_handler_def by (rule yields_after) (auto split: option.split)

lemma cleanup_agrees: "log_agrees e \<Longrightarrow> yields log_agrees (curl_easy_cleanup h e)"
  by (simp add: curl_easy_cleanup_def)

lemma retire_agrees: "log_agrees e \<Longrightarrow> yields log_agrees (retire a scrub e)"
  unfolding retire_def curl_easy_cleanup_def by (rule yields_after) (simp add: Let_def)

lemma take_retire_agrees:
  assumes "log_agrees e" and "\<And>h e. log_agrees e \<Longrightarrow> yields log_agrees (f h e)"
  shows "yields log_agrees (and_then (take_handler a e) (\<lambda>(h, e). and_then (retire a scrub e) (f h)))"
  by (rule yields_and_then [OF take_handler_agrees [OF assms(1)]])
    (auto intro: yields_and_then [OF retire_agrees] assms(2))

lemma complete_agrees: "log_agrees e \<Longrightarrow> yields log_agrees (complete_transfer m e)"
  unfolding complete_transfer_def Let_def
  by (rule yields_after, rule yields_after, rule take_retire_agrees)
    (auto simp: log_agrees_def completion_ok_def make_error_code_def)

lemma abort_agrees:
  "log_agrees e \<Longrightarrow> log_agrees (e\<lparr>posted := posted e @ [(h, Operation_aborted, error_response CURLE_ABORTED_BY_CALLBACK)]\<rparr>)"
  by (auto simp: log_agrees_def completion_ok_def)

lemma cancel_agrees: "log_agrees e \<Longrightarrow> yields log_agrees (cancel i e)"
  unfolding cancel_def Let_def
  by (rule yields_after, split option.split, intro conjI allI impI, simp, rule yields_after, rule take_retire_agrees)
    (simp_all add: abort_agrees)

lemma receive_agrees:
  "log_agrees e \<Longrightarrow> yields log_agrees (receive_body h bytes e)"
  "log_agrees e \<Longrightarrow> yields log_agrees (receive_header h bytes e)"
  unfolding receive_body_def receive_header_def body_write_cb_def header_cb_def
  by (auto simp: yields_def and_then_Inr deref_def split: option.splits opt_value.splits if_splits)

lemma acquire_agrees: "log_agrees e \<Longrightarrow> acquire ans e = Some e1 \<Longrightarrow> log_agrees e1"
  by (auto simp: acquire_def split: list.splits option.splits)

lemma prepare_agrees: "log_agrees e \<Longrightarrow> log_agrees (prepare ans r h a t e)"
  by (simp add: prepare_def Let_def split: option.split)

lemma start_agrees:
  assumes e: "log_agrees e"
  shows "yields log_agrees (start ans r h e)"
proof (cases "acquire ans e")
  case None
  with e show ?thesis by (simp add: start_def fail_agrees)
next
  case (Some e1)
  have e1: "log_agrees e1" by (rule acquire_agrees [OF e Some])
  have refused: "yields log_agrees (and_then (take_handler a e2) (\<lambda>(h', e). and_then (retire a True e) (\<lambda>e.
      Inr (fail h' (if add_handle ans = CURLM_OUT_OF_MEMORY then CURLE_OUT_OF_MEMORY else CURLE_FAILED_INIT) e))))"
    if "log_agrees e2" for a e2
    using that by (rule take_retire_agrees) (simp add: fail_agrees)
  show ?thesis
    unfolding start_def Some Let_def
    by (cases "transfers e1") (simp, simp only: option.case list.case, rule yields_after,
        simp add: prepare_agrees [OF e1] refused)
qed

lemma engine_agrees: "log_agrees e \<Longrightarrow> yields log_agrees (engine_do op e)"
proof (cases op)
  case (Run_posted i)
  assume "log_agrees e"
  then show ?thesis
    by (auto simp: Run_posted run_posted_def log_agrees_def dest: in_set_takeD in_set_dropD)
qed (auto simp: emit_def completion_step_def split: option.split
  intro!: yields_expect start_agrees complete_agrees cancel_agrees receive_agrees)

definition client_agrees :: "client \<Rightarrow> bool" where
  "client_agrees c \<longleftrightarrow> log_agrees (eng c)"

lemma client_agrees_started [simp]: "client_agrees (c\<lparr>started := st\<rparr>) = client_agrees c"
  by (simp add: client_agrees_def)

lemma on_eng_agrees: "client_agrees c \<Longrightarrow> yields client_agrees (on_eng (engine_do op) (c\<lparr>started := st\<rparr>))"
  using engine_agrees [of "eng c" op] by (auto simp: client_agrees_def on_eng_def yields_def and_then_Inr)

lemma on_eng_agrees': "client_agrees c \<Longrightarrow> yields client_agrees (on_eng (engine_do op) c)"
  using on_eng_agrees [of c op "started c"] by simp

lemma user_agrees: "client_agrees c \<Longrightarrow> yields client_agrees (do_user op c)"
proof -
  assume c: "client_agrees c"
  have acts: "yields client_agrees (do_act a d)" if "client_agrees d" for a d
    using that on_eng_agrees' [OF that]
    by (cases a) (auto simp: yields_def on_socks_def on_tmr_def and_then_Inr client_agrees_def simp del: engine_do.simps)
  have run: "yields client_agrees (curl_acts as d)" if "client_agrees d" for as d
    using that by (rule yields_run) (rule acts)
  show ?thesis
    using c by (cases op)
      (auto intro!: yields_expect yields_and_then [OF on_eng_agrees] yields_and_then [OF on_eng_agrees'] run
        simp del: engine_do.simps)
qed

interpretation agr: observed client_agrees "\<lambda>_. True"
  by unfold_locales (simp_all add: on_eng_agrees' user_agrees client_agrees_def del: engine_do.simps)

text \<open>Destruction makes no completions.\<close>

lemma destroy_agrees: "client_agrees c \<Longrightarrow> yields client_agrees (destroy removal cleanup c)"
proof -
  assume c: "client_agrees c"
  have part: "yields client_agrees (on_socks f d)" "yields client_agrees (on_tmr g d)" if "client_agrees d" for f g d
    using agr.part_step [OF that] .
  have quiet: "yields client_agrees (quiet_acts as d)" if "client_agrees d" for as d
    using that by (rule yields_run) (simp add: do_quiet_def yields_expect agr.act_step)
  have eng: "yields client_agrees (on_eng f d)"
    if "client_agrees d" "\<And>e. log_agrees e \<Longrightarrow> yields log_agrees (f e)" for f d
    using that(1) that(2) [of "eng d"] by (auto simp: on_eng_def client_agrees_def yields_def and_then_Inr)
  have steps: "log_agrees e \<Longrightarrow> yields log_agrees (detach a e)" "log_agrees e \<Longrightarrow> yields log_agrees (free_transfer a e)"
    "log_agrees e \<Longrightarrow> yields log_agrees (drop_nodes e)" for a e
    by (auto simp: detach_def free_transfer_def drop_nodes_def cleanup_agrees intro!: yields_after)
  have cleanup: "log_agrees e \<Longrightarrow> yields log_agrees (cleanup_all as e)" for as e
    by (induction as arbitrary: e) (auto intro!: yields_after [of _ "\<lambda>t. and_then (f t) (g t)" for f g]
        yields_and_then [OF cleanup_agrees])
  have detach: "client_agrees d \<Longrightarrow> yields client_agrees (detach_all removal as d)" for as d
  proof (induction as arbitrary: d)
    case (Cons a as)
    show ?case
      unfolding detach_all.simps
      by (rule yields_and_then [OF eng [OF Cons.prems steps(1)]], assumption,
          rule yields_and_then [OF quiet], assumption,
          rule yields_and_then [OF eng [OF _ steps(2)]], assumption+, rule Cons.IH)
  qed simp
  show ?thesis
    unfolding destroy_def drop_members_def
    by (rule yields_and_then [OF part(2) [OF c]], rule yields_and_then [OF part(1)], assumption,
        rule yields_and_then [OF detach], assumption,
        rule yields_and_then [OF eng [OF _ cleanup]], assumption+,
        rule yields_and_then [OF quiet], assumption,
        rule yields_and_then [OF eng [OF _ steps(3)]], assumption+,
        rule yields_and_then [OF part(1)], assumption, rule part(2))
qed

lemma event_agrees: "client_agrees c \<Longrightarrow> yields client_agrees (client_do ev c)"
  using agr.event_step [of c ev] destroy_agrees [of c]
  by (cases "destroys ev"; cases ev) (auto intro!: yields_expect)

lemma reachable_agrees:
  assumes "client_run evs (new_client version max_pooled now) = Inr c"
  shows "client_agrees c"
proof -
  have "client_agrees (new_client version max_pooled now)"
    by (simp add: client_agrees_def log_agrees_def new_client_def new_engine_def)
  then have "yields client_agrees (client_run evs (new_client version max_pooled now))"
    by (rule yields_run) (rule event_agrees)
  with assms show ?thesis by (auto dest: yieldsD)
qed

section \<open>Property\<close>

text \<open>
  C6: Whatever a handler is called with is well formed: no error code comes with a transfer that
  succeeded and a response that has the code's \<open>CURLcode\<close> comes with a transport error, whose text
  is that of \<open>Response::error\<close>; a cancelled request gets an empty response. So a response that
  \<open>is_ok\<close> never comes with an error.
\<close>

theorem completions_well_formed:
  assumes "client_run evs (new_client version max_pooled now) = Inr c"
    and "(h, ec, res) \<in> set (posted (eng c) @ invoked (eng c))"
  shows "agrees ec res \<and> (ec_set ec \<longleftrightarrow> curl_code res \<noteq> CURLE_OK) \<and> (is_ok res \<longrightarrow> \<not> ec_set ec) \<and>
    (ec_set ec \<and> ec \<noteq> Operation_aborted \<longrightarrow> ec_message strerror other_text ec = response_error strerror res)"
proof -
  have "client_agrees c" by (rule reachable_agrees [OF assms(1)])
  with assms(2) have "completion_ok (h, ec, res)" unfolding client_agrees_def log_agrees_def by blast
  then have "agrees ec res" by (simp add: completion_ok_def)
  then show ?thesis
    by (cases ec) (auto simp: is_ok_def error_response_def response_error_def curl_category_message_def)
qed

definition timeout_kick :: event where
  "timeout_kick = Kick_event \<lparr>acts = [], running_count = 0,
     messages = [(sample_message 7 CURLE_OPERATION_TIMEDOUT 0, [], [])]\<rparr>"

theorem completions_well_formed_witness:
  "\<exists>h res. (h, Curl_error 28, res) \<in> set (invoked (eng (sample_client [first_request, timeout_kick]))) \<and>
    \<not> is_ok res \<and> ec_message (\<lambda>n. if n = 28 then ''Timeout was reached'' else []) (\<lambda>_. []) (Curl_error 28) =
      response_error (\<lambda>n. if n = 28 then ''Timeout was reached'' else []) res"
proof -
  let ?c = "sample_client [first_request, timeout_kick]"
  have 1: "client_run [first_request, timeout_kick] (new_client 0x080000 1 0) = Inr ?c"
    by (simp add: timeout_kick_def client_eval)
  have "\<exists>h res. (h, Curl_error 28, res) \<in> set (invoked (eng ?c))"
    by (simp add: timeout_kick_def make_error_code_def client_eval)
  then obtain h res where d: "(h, Curl_error 28, res) \<in> set (invoked (eng ?c))" by blast
  then have "(h, Curl_error 28, res) \<in> set (posted (eng ?c) @ invoked (eng ?c))" by simp
  from completions_well_formed [OF 1 this] d show ?thesis
    by (intro exI [of _ h] exI [of _ res]) simp
qed

end
