(* ===== verification/Example_Programs.thy ===== *)
theory Example_Programs
  imports Drivers_Client Examples Completions
begin

text \<open>
  The programs of \<open>examples/\<close> on the model of the client. Most start a batch of requests, whose
  handlers print, and run the loop; three are coroutines; one waits for a future. What they print is
  a list of lines, of standard output and standard error. \<open>msg\<close> is \<open>error_code::message\<close>.
\<close>

section \<open>The clients of programs\<close>


section \<open>Batches\<close>

datatype line = Cout string | Cerr string

type_synonym printer = "error_code \<Rightarrow> response \<Rightarrow> line list"

type_synonym batch = "(request \<times> printer) list"

record batch_state =
  printed :: "line list"
  replies :: nat

text \<open>The \<open>n\<close>th handler is that of the \<open>n\<close>th request.\<close>

definition prints :: "batch \<Rightarrow> completion \<Rightarrow> line list" where
  "prints b d = (case d of (h, ec, res) \<Rightarrow> if hid h < length b then snd (b ! hid h) ec res else [])"

definition batch_program :: "batch \<Rightarrow> (completion, request \<times> completion_handler, batch_state) program" where
  "batch_program b =
     \<lparr>first = (\<lparr>printed = [], replies = 0\<rparr>, map (\<lambda>i. (fst (b ! i), plain_handler i)) [0..<length b]),
      react = (\<lambda>d s. (if replies s < length b then s\<lparr>printed := printed s @ prints b d, replies := replies s + 1\<rparr> else s, []))\<rparr>"




section \<open>The examples\<close>



definition compression :: "(error_code \<Rightarrow> string) \<Rightarrow> batch" where
  "compression msg = [(async_get ''https://postman-echo.com/gzip'',
     \<lambda>ec res. if ec_set ec then [Cerr (msg ec)] else [Cout (data res)])]"








text \<open>The future: its handler prints nothing; \<open>None\<close> is waiting for ever, \<open>Inl\<close> an exception.\<close>

definition future_batch :: batch where
  "future_batch = [(async_get ''https://postman-echo.com/get'', \<lambda>ec res. [])]"

definition future_output :: "client \<Rightarrow> (error_code + line list) option" where
  "future_output c = map_option (\<lambda>r. case r of Inl ec \<Rightarrow> Inl ec | Inr res \<Rightarrow> Inr [Cout (''http '' @ decimal (http_code res))])
     (future_get (plain_handler 0) c)"





section \<open>What the examples print\<close>

text \<open>After \<open>run()\<close> the future is ready.\<close>

lemma future_is_ready:
  assumes "runs_on (batch_program future_batch) c s" "out_of_work c" "multi_waits c"
  shows "future_output c \<noteq> None"
proof -
  from runs_on_result [OF assms(1)] drained [of c] assms(2,3)
  have "mset (map fst (calls_of c)) = mset (map snd (snd (outcome_after (batch_program future_batch) (calls_of c))))" by simp
  moreover obtain p rs where "react_all (batch_program future_batch) (calls_of c) \<lparr>printed = [], replies = 0\<rparr> = (p, rs)" by force
  then have "plain_handler 0 \<in> set (map snd (snd (outcome_after (batch_program future_batch) (calls_of c))))"
    by (simp add: outcome_after_def batch_program_def future_batch_def)
  ultimately have "plain_handler 0 \<in> set (map fst (calls_of c))" by (metis set_mset_mset)
  then have "plain_handler 0 \<in> fst ` set (calls_of c)" by simp
  then obtain d where "plain_handler 0 = fst d" "d \<in> set (calls_of c)" by (rule imageE)
  then have "find (\<lambda>d. fst d = plain_handler 0) (calls_of c) \<noteq> None" unfolding find_None_iff by fastforce
  then show ?thesis by (simp add: future_output_def future_get_def calls_of_def)
qed



section \<open>The mains\<close>

text \<open>
  \<open>main\<close> of the examples: an \<open>io_context\<close>, a client, the batch or the coroutine, and \<open>io.run()\<close>, which
  has returned. A relation, as the answers are the servers' choice.
\<close>

definition batch_main :: "batch \<Rightarrow> line list \<Rightarrow> bool" where
  "batch_main b out \<longleftrightarrow> (\<exists>c s. runs_on (batch_program b) c s \<and> out_of_work c \<and> multi_waits c \<and> out = printed s)"




definition compression_main :: "(error_code \<Rightarrow> string) \<Rightarrow> line list \<Rightarrow> bool" where
  "compression_main msg out \<longleftrightarrow> batch_main (compression msg) out"






definition future_main :: "error_code + line list \<Rightarrow> bool" where
  "future_main r \<longleftrightarrow> (\<exists>c s. runs_on (batch_program future_batch) c s \<and> out_of_work c \<and> multi_waits c \<and>
     future_output c = Some r)"





























section \<open>\<open>example_reactors\<close>\<close>

text \<open>
  What its handlers print, as a batch; the rest of its \<open>main\<close> is \<open>reactors_main\<close>. \<open>r\<close> is the exit
  code: 2 is for an unknown mode, \<open>None\<close> for a loop that runs.
\<close>

definition reactors_batch :: "(error_code \<Rightarrow> string) \<Rightarrow> batch" where
  "reactors_batch msg = map (\<lambda>i. (async_get kUrl,
     \<lambda>ec res. [Cout (''  #'' @ decimal (int i) @ '' -> '' @ (if ec_set ec then msg ec else decimal (http_code res)))])) [0..<kRequests]"

definition reactors_mode :: "string list \<Rightarrow> string" where
  "reactors_mode argv = (if length argv > 1 then argv ! 1 else ''run'')"

definition reactors_usage :: "string list \<Rightarrow> line" where
  "reactors_usage argv = Cerr (''usage: '' @ argv ! 0 @ '' [run|poll|foreign]'')"

definition reactors_done :: "string \<Rightarrow> client \<Rightarrow> line" where
  "reactors_done mode c = Cout (''done: '' @ decimal (int (completed c)) @ ''/'' @ decimal (int kRequests) @
     '' ('' @ mode @ '' mode)'')"

definition reactors_output :: "(error_code \<Rightarrow> string) \<Rightarrow> string list \<Rightarrow> int option \<Rightarrow> client \<Rightarrow> line list" where
  "reactors_output msg argv r c = concat (map (prints (reactors_batch msg)) (calls_of c)) @
     (case r of None \<Rightarrow> [] | Some code \<Rightarrow>
        [if code = 2 then reactors_usage argv else reactors_done (reactors_mode argv) c])"

text \<open>Every mode that ends prints a line for each request, and then that all five are done.\<close>

lemma reactors_prints:
  assumes "reactors_main (reactors_mode argv) ws evs ps tick ts (new_client version max_pooled now) = Inr (Some code, c)"
    and "reactors_mode argv \<in> {''run'', ''poll'', ''foreign''}"
  shows "length (reactors_output msg argv (Some code) c) = 6 \<and>
    last (reactors_output msg argv (Some code) c) = Cout (''done: 5/5 ('' @ reactors_mode argv @ '' mode)'')"
proof -
  let ?b = "reactors_batch msg"
  from reactors_end [OF assms] have e: "code = 0" "completed c = kRequests"
    "mset (map fst (invoked (eng c))) = mset (map plain_handler [0..<kRequests])" by simp_all
  have hids: "hid (fst d) < length ?b" if "d \<in> set (calls_of c)" for d
    using that arg_cong [OF e(3), of set_mset] by (force simp: calls_of_def reactors_batch_def)
  have "length (prints ?b d) = 1" if "d \<in> set (calls_of c)" for d
    using hids [OF that] by (cases d) (simp add: prints_def reactors_batch_def)
  then have "length (concat (map (prints ?b) ds)) = length ds" if "set ds \<subseteq> set (calls_of c)" for ds
    using that by (induction ds) auto
  then have "length (concat (map (prints ?b) (calls_of c))) = 5" using e(2) by (simp add: calls_of_def completed_def kRequests_def)
  moreover have "reactors_done (reactors_mode argv) c = Cout (''done: 5/5 ('' @ reactors_mode argv @ '' mode)'')"
    using e(2) by (simp add: reactors_done_def kRequests_def decimal_def decimal_nat.simps) (simp add: char_of_def bit_iff_odd)
  ultimately show ?thesis by (simp add: reactors_output_def e(1))
qed

section \<open>The blocking example\<close>

text \<open>\<open>main\<close> of \<open>example_sync.cpp\<close>: an exception that leaves it ends the program.\<close>

datatype ending = Returned | Uncaught error_code | Hung

definition first_call :: sync_method where
  "first_call = Get ''https://postman-echo.com/get''"

definition second_call :: sync_method where
  "second_call = Post ''https://postman-echo.com/post'' ''{\"qty\": 1}''"

definition sync_main :: "sync_world \<Rightarrow> sync_world \<Rightarrow> sync_client \<Rightarrow> ((line list \<times> ending) \<times> sync_client) outcome" where
  "sync_main w1 w2 s = and_then (sync_call (first_call, w1) s) (\<lambda>(r, s).
     case r of None \<Rightarrow> Inr (([], Hung), s)
     | Some (Inl ec) \<Rightarrow> Inr (([], Uncaught ec), s)
     | Some (Inr a) \<Rightarrow> (let out = [Cout (''get  http '' @ decimal (http_code a))]
         in and_then (sync_call (second_call, w2) s) (\<lambda>(r, s).
           Inr (case r of None \<Rightarrow> (out, Hung)
             | Some (Inl ec) \<Rightarrow> (out, Uncaught ec)
             | Some (Inr b) \<Rightarrow> (out @ [Cout (''post http '' @ decimal (http_code b))], Returned), s))))"

lemma sync_main_ends:
  assumes "sync_main w1 w2 (new_sync version now) = Inr ((out, e), s)"
  shows "e \<noteq> Hung \<and> (e = Returned \<longleftrightarrow> length out = 2)"
proof -
  obtain r1 s1 where 1: "sync_call (first_call, w1) (new_sync version now) = Inr (r1, s1)"
    using assms by (auto simp: sync_main_def and_then_Inr)
  from sync_call_ok [OF new_sync_ok 1] obtain d1 where r1: "r1 = Some (settles d1)"
    and s1: "sync_ok (new_engine version kDefaultMaxPooledHandles) s1" by blast
  show ?thesis
  proof (cases "settles d1")
    case (Inl ec)
    with assms 1 r1 show ?thesis by (auto simp: sync_main_def)
  next
    case (Inr a)
    with assms 1 r1 obtain r2 where 2: "sync_call (second_call, w2) s1 = Inr (r2, s)"
      by (auto simp: sync_main_def Let_def and_then_Inr)
    from sync_call_ok [OF s1 2] obtain d2 where "r2 = Some (settles d2)" by blast
    with assms 1 r1 Inr 2 show ?thesis by (cases "settles d2") (auto simp: sync_main_def)
  qed
qed

end
