(* ===== verification/Completion_Tokens.thy ===== *)
theory Completion_Tokens
  imports Program_Client
begin

text \<open>
  \<open>async_perform\<close> and \<open>Initiation\<close>: how a completion token becomes a handler. \<open>async_initiate\<close> is a
  template of ASIO and a parameter here; the locale \<open>tokens\<close> states what it is documented to do for
  tokens that start at once: it calls the initiation with the handler the token stands for.
\<close>

section \<open>Initiation\<close>

type_synonym initiation = "completion_handler \<Rightarrow> request \<Rightarrow> client \<Rightarrow> client outcome"

text \<open>The call operator; the answers of libcurl to \<open>start\<close> are arguments, as everywhere.\<close>

definition Initiation :: "start_answers \<Rightarrow> curl_act list \<Rightarrow> initiation" where
  "Initiation ans as h r = do_user (Start_request ans r h as)"

definition async_perform :: "(initiation \<Rightarrow> 't \<Rightarrow> request \<Rightarrow> client \<Rightarrow> client outcome) \<Rightarrow>
    start_answers \<Rightarrow> curl_act list \<Rightarrow> request \<Rightarrow> 't \<Rightarrow> client \<Rightarrow> client outcome" where
  "async_perform async_initiate ans as r token = async_initiate (Initiation ans as) token r"

text \<open>What starting a request does to the client's books: it takes the handler, and calls none.\<close>

definition books :: "completion_handler list \<Rightarrow> completion list \<Rightarrow> client \<Rightarrow> bool" where
  "books hs ds c \<longleftrightarrow> started c = hs \<and> invoked (eng c) = ds"

lemma act_books: "books hs ds c \<Longrightarrow> yields (books hs ds) (do_act a c)"
  by (cases a) (auto simp: books_def yields_def on_eng_def on_socks_def on_tmr_def and_then_Inr expect_Inr
      receive_body_def receive_header_def body_write_cb_def header_cb_def deref_def
      split: option.splits opt_value.splits if_splits)

lemma user_start_books:
  assumes "engine_inv (eng c)"
  shows "yields (books (started c @ [h]) (invoked (eng c))) (do_user (Start_request ans r h as) c)"
proof -
  have "invoked e' = invoked (eng c)" if "engine_do (Start ans r h) (eng c) = Inr e'" for e'
    using start_ledger(2) [OF assms] that by (auto simp: expect_Inr)
  then have "yields (books (started c @ [h]) (invoked (eng c)))
      (on_eng (engine_do (Start ans r h)) (c\<lparr>started := started c @ [h]\<rparr>))"
    by (auto simp: yields_def books_def on_eng_def and_then_Inr simp del: engine_do.simps)
  then show ?thesis
    unfolding do_user.simps by (intro yields_expect, rule yields_and_then) (auto intro: yields_run act_books)
qed

section \<open>Tokens\<close>

locale tokens =
  fixes async_initiate :: "initiation \<Rightarrow> 't \<Rightarrow> request \<Rightarrow> client \<Rightarrow> client outcome"
    and handler_for :: "'t \<Rightarrow> completion_handler"
  assumes initiates: "async_initiate ini token r c = ini (handler_for token) r c"
begin

lemma perform_starts: "async_perform async_initiate ans as r token c = do_user (Start_request ans r (handler_for token) as) c"
  by (simp add: async_perform_def Initiation_def initiates)

lemma perform_books:
  "engine_inv (eng c) \<Longrightarrow>
     yields (books (started c @ [handler_for token]) (invoked (eng c))) (async_perform async_initiate ans as r token c)"
  by (simp add: perform_starts user_start_books del: do_user.simps)

end

text \<open>The tokens of the repository: callables, plain or with a cancellation slot bound to them.\<close>

datatype token = Callback nat | Cancellable nat slot_ref

fun handler_of_token :: "token \<Rightarrow> completion_handler" where
  "handler_of_token (Callback n) = plain_handler n"
| "handler_of_token (Cancellable n s) = \<lparr>hid = n, cancel_slot = Some s\<rparr>"

definition initiate_now :: "initiation \<Rightarrow> token \<Rightarrow> request \<Rightarrow> client \<Rightarrow> client outcome" where
  "initiate_now ini token r c = ini (handler_of_token token) r c"

interpretation tok: tokens initiate_now handler_of_token
  by unfold_locales (simp add: initiate_now_def)

text \<open>
  Every way of asking for a request comes down to starting it once: the client takes the token's
  handler, holds it, and has called no handler on the way.
\<close>

theorem tokens_start_requests:
  assumes "client_run evs (new_client version max_pooled now) = Inr c"
    and "async_perform initiate_now ans as r token c = Inr c'"
  shows "alive (tmr c) \<and> started c' = started c @ [handler_of_token token] \<and> calls_of c' = calls_of c \<and>
    held_handlers (eng c') = held_handlers (eng c) + {# handler_of_token token #}"
proof -
  let ?op = "Start_request ans r (handler_of_token token) as"
  have op: "do_user ?op c = Inr c'" using assms(2) unfolding tok.perform_starts .
  then have al: "alive (tmr c)" by (auto simp: expect_Inr)
  have i: "idle_client (new_engine version max_pooled) c"
    by (rule alive_idle [OF reachable_client [OF assms(1)] al])
  then have "engine_inv (eng c)" using busy_engine_inv [OF idle_busy] by blast
  from yieldsD [OF user_start_books [OF this] op]
  have b: "started c' = started c @ [handler_of_token token]" "calls_of c' = calls_of c"
    by (simp_all add: books_def calls_of_def)
  have d: "client_do (User ?op) c = Inr c'" using op by (simp del: do_user.simps)
  with live_event [OF i, of "User ?op"] have "alive (tmr c')" by (simp add: safely_def idle_client_def del: do_user.simps)
  moreover have "client_run (evs @ [User ?op]) (new_client version max_pooled now) = Inr c'"
    using assms(1) d by (simp add: run_all_append del: do_user.simps)
  ultimately have "held_handlers (eng c') + called_handlers (eng c') = mset (started c')" by (simp only: client_ledger)
  with b have "held_handlers (eng c') + called_handlers (eng c) = held_handlers (eng c) + {# handler_of_token token #} + called_handlers (eng c)"
    by (simp add: called_handlers_def calls_of_def flip: client_ledger [OF assms(1) al])
  then have "held_handlers (eng c') = held_handlers (eng c) + {# handler_of_token token #}" by (simp only: add_right_cancel)
  with b al show ?thesis by simp
qed

end
