(* ===== verification/Client_Parts.thy ===== *)
theory Client_Parts
  imports Client_Props
begin

text \<open>
  The client is its components, and nothing besides: a run of the whole client, seen from the
  transfer engine, from the sockets or from the timer, is the run of that component on the
  operations that the events prescribe for it. What an event prescribes is read off the event and the
  queues of ASIO alone, not off the code of the handlers.
\<close>

section \<open>What the events prescribe\<close>

text \<open>The callbacks of libcurl go to the component they belong to.\<close>

fun act_ops :: "curl_act \<Rightarrow> engine_op list" where
  "act_ops (Body_act h bytes) = [Body_bytes h bytes]"
| "act_ops (Header_act h bytes) = [Header_bytes h bytes]"
| "act_ops a = []"

fun act_calls :: "curl_act \<Rightarrow> socket_call list" where
  "act_calls (Socket_act k) = [k]"
| "act_calls a = []"

fun act_times :: "curl_act \<Rightarrow> (int \<times> int) list" where
  "act_times (Timeout_act timeout_ms now) = [(timeout_ms, now)]"
| "act_times a = []"

fun user_ops_of :: "user_op \<Rightarrow> engine_op list" where
  "user_ops_of (Start_request ans r h as) = Start ans r h # concat (map act_ops as)"
| "user_ops_of (Emit_cancel s as) = Emit s # concat (map act_ops as)"

fun user_acts_of :: "user_op \<Rightarrow> curl_act list" where
  "user_acts_of (Start_request ans r h as) = as"
| "user_acts_of (Emit_cancel s as) = as"

text \<open>Every message is delivered; one that is done has its callbacks, and its handler acts.\<close>

fun iteration_ops :: "iteration \<Rightarrow> engine_op list" where
  "iteration_ops (m, as, us) = Deliver m #
     (if msg_done m then concat (map act_ops as) @ concat (map user_ops_of us) else [])"

fun iteration_acts :: "iteration \<Rightarrow> curl_act list" where
  "iteration_acts (m, as, us) = (if msg_done m then as @ concat (map user_acts_of us) else [])"

definition all_ops :: "reaction \<Rightarrow> engine_op list" where
  "all_ops r = concat (map act_ops (acts r)) @ Count (running_count r) # concat (map iteration_ops (messages r))"

definition all_acts :: "reaction \<Rightarrow> curl_act list" where
  "all_acts r = acts r @ concat (map iteration_acts (messages r))"

fun event_ops :: "event \<Rightarrow> engine_op list" where
  "event_ops (User u) = user_ops_of u"
| "event_ops (Socket_event i r) = all_ops r"
| "event_ops (Tick_event i r) = all_ops r"
| "event_ops (Kick_event r) = all_ops r"
| "event_ops (Posted_event i us) = Run_posted i # concat (map user_ops_of us)"
| "event_ops ev = []"

fun event_acts :: "event \<Rightarrow> curl_act list" where
  "event_acts (User u) = user_acts_of u"
| "event_acts (Socket_event i r) = all_acts r"
| "event_acts (Tick_event i r) = all_acts r"
| "event_acts (Kick_event r) = all_acts r"
| "event_acts (Posted_event i us) = concat (map user_acts_of us)"
| "event_acts ev = []"

text \<open>
  Whether something happens at all: a queued wait of a socket that still exists and was not aborted, a
  wait of the timer that completed, a posted kick, a posted completion.
\<close>

fun happens :: "client \<Rightarrow> event \<Rightarrow> bool" where
  "happens c (Socket_event i r) \<longleftrightarrow> i < length (queued_waits (socks c)) \<and>
     (case queued_waits (socks c) ! i of (x, flag, ec) \<Rightarrow> objects (socks c) x \<noteq> None \<and> ec \<noteq> Wait_aborted)"
| "happens c (Tick_event i r) \<longleftrightarrow> i < length (queued_ticks (tmr c)) \<and> queued_ticks (tmr c) ! i"
| "happens c (Kick_event r) \<longleftrightarrow> 0 < posted_kicks (tmr c)"
| "happens c (Posted_event i us) \<longleftrightarrow> i < length (posted (eng c))"
| "happens c ev \<longleftrightarrow> True"

definition engine_part :: "client \<Rightarrow> event \<Rightarrow> engine_op list" where
  "engine_part c ev = (if happens c ev then event_ops ev else [])"

definition calls_in :: "curl_act list \<Rightarrow> socket_call list" where
  "calls_in as = concat (map act_calls as)"

definition times_in :: "curl_act list \<Rightarrow> (int \<times> int) list" where
  "times_in as = concat (map act_times as)"

definition acts_part :: "client \<Rightarrow> event \<Rightarrow> curl_act list" where
  "acts_part c ev = (if happens c ev then event_acts ev else [])"

definition socket_part :: "client \<Rightarrow> event \<Rightarrow> socket_op list" where
  "socket_part c ev = (case ev of
       Wait_completes i ok \<Rightarrow> [Wait_done i ok]
     | Socket_event i r \<Rightarrow> [Fire i (calls_in (acts_part c ev))]
     | _ \<Rightarrow> map Call (calls_in (acts_part c ev)))"

definition timer_part :: "client \<Rightarrow> event \<Rightarrow> timer_op list" where
  "timer_part c ev = (case ev of
       Time_passes t \<Rightarrow> [Pass t]
     | Timer_expires \<Rightarrow> [Expire]
     | Tick_event i r \<Rightarrow> [Run_tick i (times_in (acts_part c ev))]
     | Kick_event r \<Rightarrow> [Run_kick (times_in (acts_part c ev))]
     | _ \<Rightarrow> map (\<lambda>(timeout_ms, now). Timer_call timeout_ms now) (times_in (acts_part c ev)))"

text \<open>Over a run, each event in the state it meets.\<close>

fun along :: "(client \<Rightarrow> event \<Rightarrow> 'o list) \<Rightarrow> event list \<Rightarrow> client \<Rightarrow> 'o list" where
  "along part [] c = []"
| "along part (ev # evs) c = part c ev @ along part evs (projr (client_do ev c))"

fun started_by :: "engine_op \<Rightarrow> completion_handler list" where
  "started_by (Start ans r h) = [h]"
| "started_by op = []"

section \<open>Inside an event\<close>

definition parts :: "engine_op list \<Rightarrow> curl_act list \<Rightarrow> client \<Rightarrow> client \<Rightarrow> bool" where
  "parts ops as c c' \<longleftrightarrow> engine_run ops (eng c) = Inr (eng c') \<and>
     do_calls (calls_in as) (socks c) = Inr (socks c') \<and> timer_calls (times_in as) (tmr c) = Inr (tmr c') \<and>
     started c' = started c @ concat (map started_by ops)"

lemma parts_nil [simp]: "parts [] [] c c"
  by (simp add: parts_def calls_in_def times_in_def)

lemma parts_append: "parts ops as c d \<Longrightarrow> parts ops' as' d e \<Longrightarrow> parts (ops @ ops') (as @ as') c e"
  by (simp add: parts_def calls_in_def times_in_def run_all_append)

lemma parts_alive: "parts ops as c d \<Longrightarrow> alive (tmr d) = alive (tmr c)"
  using timer_calls_frame by (auto simp: parts_def)

lemma act_parts: "do_act a c = Inr d \<Longrightarrow> parts (act_ops a) [a] c d"
  by (cases a) (auto simp: parts_def calls_in_def times_in_def on_eng_def on_socks_def on_tmr_def and_then_Inr
      simp del: engine_do.simps do_call.simps)

lemma engine_parts: "on_eng (engine_do op) c = Inr d \<Longrightarrow> started_by op = [] \<Longrightarrow> parts [op] [] c d"
  by (auto simp: parts_def calls_in_def times_in_def on_eng_def and_then_Inr simp del: engine_do.simps)

lemma run_parts:
  assumes "run_all act ls c = Inr d" "alive (tmr c)"
    and "\<And>l c d. act l c = Inr d \<Longrightarrow> alive (tmr c) \<Longrightarrow> parts (ops l) (as l) c d"
  shows "parts (concat (map ops ls)) (concat (map as ls)) c d"
  using assms(1,2)
proof (induction ls arbitrary: c)
  case (Cons l ls)
  then obtain c1 where c1: "act l c = Inr c1" "run_all act ls c1 = Inr d" by (auto simp: and_then_Inr)
  from assms(3) [OF c1(1) Cons.prems(2)] have p: "parts (ops l) (as l) c c1" .
  from Cons.IH [OF c1(2)] parts_alive [OF p] Cons.prems(2) show ?case by (simp add: parts_append [OF p])
qed simp

lemma acts_parts:
  assumes "curl_acts as c = Inr d" "alive (tmr c)"
  shows "parts (concat (map act_ops as)) as c d"
  using run_parts [OF assms, of act_ops "\<lambda>a. [a]"] act_parts by simp

lemma user_parts:
  assumes u: "do_user u c = Inr d" and al: "alive (tmr c)"
  shows "parts (user_ops_of u) (user_acts_of u) c d"
proof (cases u)
  case (Start_request ans r h as)
  from u obtain c1 where c1: "on_eng (engine_do (Start ans r h)) (c\<lparr>started := started c @ [h]\<rparr>) = Inr c1" "curl_acts as c1 = Inr d"
    by (auto simp: Start_request expect_Inr and_then_Inr simp del: engine_do.simps)
  then have p: "parts [Start ans r h] [] c c1"
    by (auto simp: parts_def calls_in_def times_in_def on_eng_def and_then_Inr simp del: engine_do.simps)
  from parts_append [OF p acts_parts [OF c1(2)]] parts_alive [OF p] al show ?thesis by (simp add: Start_request)
next
  case (Emit_cancel s as)
  from u al obtain c1 where c1: "on_eng (engine_do (Emit s)) c = Inr c1" "curl_acts as c1 = Inr d"
    by (auto simp: Emit_cancel and_then_Inr simp del: engine_do.simps)
  then have p: "parts [Emit s] [] c c1" by (intro engine_parts) simp_all
  from parts_append [OF p acts_parts [OF c1(2)]] parts_alive [OF p] al show ?thesis by (simp add: Emit_cancel)
qed

lemmas users_parts = run_parts [OF _ _ user_parts]

lemma iteration_parts:
  assumes it: "completion it c = Inr d" and al: "alive (tmr c)"
  shows "parts (iteration_ops it) (iteration_acts it) c d"
proof -
  obtain m as us where m: "it = (m, as, us)" by (cases it)
  from it obtain c1 where c1: "on_eng (engine_do (Deliver m)) c = Inr c1"
    "(if \<not> msg_done m then Inr c1 else and_then (curl_acts as c1) (user_ops us)) = Inr d"
    by (auto simp: m completion_def and_then_Inr simp del: engine_do.simps)
  from c1(1) have p: "parts [Deliver m] [] c c1" by (rule engine_parts) simp
  show ?thesis
  proof (cases "msg_done m")
    case True
    with c1(2) obtain c2 where c2: "curl_acts as c1 = Inr c2" "user_ops us c2 = Inr d" by (auto simp: and_then_Inr)
    have q: "parts (concat (map act_ops as)) as c1 c2" using acts_parts [OF c2(1)] parts_alive [OF p] al by simp
    with users_parts [OF c2(2)] parts_alive [OF p] parts_alive [OF q] al
    have "parts (concat (map user_ops_of us)) (concat (map user_acts_of us)) c2 d" by simp
    from parts_append [OF p parts_append [OF q this]] True show ?thesis by (simp add: m)
  qed (use p c1(2) in \<open>simp add: m\<close>)
qed

lemma reaction_parts:
  assumes r: "act_and_check r c = Inr d" and al: "alive (tmr c)"
  shows "parts (all_ops r) (all_acts r) c d"
proof -
  from r obtain c1 c2 where c1: "curl_acts (acts r) c = Inr c1"
    "on_eng (engine_do (Count (running_count r))) c1 = Inr c2" "check_completions (messages r) c2 = Inr d"
    by (auto simp: act_and_check_def socket_action_def and_then_Inr simp del: engine_do.simps)
  have p: "parts (concat (map act_ops (acts r))) (acts r) c c1" by (rule acts_parts [OF c1(1) al])
  have q: "parts [Count (running_count r)] [] c1 c2" by (rule engine_parts [OF c1(2)]) simp
  have "parts (concat (map iteration_ops (messages r))) (concat (map iteration_acts (messages r))) c2 d"
    by (rule run_parts [OF c1(3) _ iteration_parts]) (use parts_alive [OF p] parts_alive [OF q] al in simp_all)
  from parts_append [OF p parts_append [OF q this]] show ?thesis by (simp add: all_ops_def all_acts_def)
qed

section \<open>An event, a run\<close>

definition event_parts :: "event \<Rightarrow> client \<Rightarrow> client \<Rightarrow> bool" where
  "event_parts ev c c' \<longleftrightarrow> engine_run (engine_part c ev) (eng c) = Inr (eng c') \<and>
     socket_run (socket_part c ev) (socks c) = Inr (socks c') \<and> timer_run (timer_part c ev) (tmr c) = Inr (tmr c') \<and>
     started c' = started c @ concat (map started_by (engine_part c ev))"

lemma run_calls: "socket_run (map Call ks) s = do_calls ks s"
  by (induction ks arbitrary: s) (simp_all add: and_then_def split: sum.split)

lemma run_times: "timer_run (map (\<lambda>(timeout_ms, now). Timer_call timeout_ms now) ts) t = timer_calls ts t"
  by (induction ts arbitrary: t) (simp_all add: split_def and_then_def split: sum.split)

lemmas part_defs = event_parts_def engine_part_def socket_part_def timer_part_def acts_part_def run_calls run_times

lemma begin_event_go: "begin_event x flag ec s = Inr (go, s') \<Longrightarrow> go \<longleftrightarrow> ec \<noteq> Wait_aborted"
  by (auto simp: begin_event_def and_then_Inr Let_def split: if_splits)

lemma socket_event_parts:
  assumes ev: "socket_event i r c = Inr d" and al: "alive (tmr c)"
  shows "event_parts (Socket_event i r) c d"
proof (cases "i < length (queued_waits (socks c))")
  case False
  with ev show ?thesis
    by (simp add: socket_event_def part_defs calls_in_def times_in_def fire_wait_def)
next
  case True
  obtain x flag ec where q: "queued_waits (socks c) ! i = (x, flag, ec)" by (cases "queued_waits (socks c) ! i")
  let ?s = "(socks c)\<lparr>queued_waits := take i (queued_waits (socks c)) @ drop (i + 1) (queued_waits (socks c))\<rparr>"
  show ?thesis
  proof (cases "objects (socks c) x")
    case None
    with ev True q show ?thesis
      by (auto simp: socket_event_def part_defs calls_in_def times_in_def fire_wait_def Let_def)
  next
    case (Some st)
    with ev True q obtain go s1 where b1: "begin_event x flag ec ?s = Inr (go, s1)"
      and rest: "(if go then and_then (act_and_check r (c\<lparr>socks := s1\<rparr>)) (\<lambda>c.
          and_then (on_socks (rearm x) c) (on_socks (drop_event x)))
        else on_socks (drop_event x) (c\<lparr>socks := s1\<rparr>)) = Inr d"
      by (auto simp: socket_event_def Let_def and_then_Inr)
    note b = b1 begin_event_go [OF b1]
    show ?thesis
    proof (cases go)
      case False
      with rest b True q Some show ?thesis
        by (auto simp: part_defs calls_in_def times_in_def fire_wait_def on_event_def Let_def on_socks_def and_then_Inr)
    next
      case go: True
      with rest obtain c1 where c1: "act_and_check r (c\<lparr>socks := s1\<rparr>) = Inr c1"
        "and_then (on_socks (rearm x) c1) (on_socks (drop_event x)) = Inr d" by (auto simp: and_then_Inr)
      from reaction_parts [OF c1(1)] al have p: "parts (all_ops r) (all_acts r) (c\<lparr>socks := s1\<rparr>) c1" by simp
      from c1(2) obtain s2 s3 where s: "rearm x (socks c1) = Inr s2" "drop_event x s2 = Inr s3" "d = c1\<lparr>socks := s3\<rparr>"
        by (auto simp: on_socks_def and_then_Inr)
      with p go b True q Some show ?thesis
        by (simp add: parts_def part_defs fire_wait_def on_event_def Let_def)
    qed
  qed
qed

lemma timer_event_parts:
  assumes ev: "timer_event begin r c = Inr d" and al: "alive (tmr c)"
    and go: "\<And>g t. begin (tmr c) = Inr (g, t) \<Longrightarrow> g \<longleftrightarrow> b" and al': "\<And>g t. begin (tmr c) = Inr (g, t) \<Longrightarrow> alive t"
  shows "engine_run (if b then all_ops r else []) (eng c) = Inr (eng d)"
    "do_calls (calls_in (if b then all_acts r else [])) (socks c) = Inr (socks d)"
    "with_calls (times_in (if b then all_acts r else [])) (begin (tmr c)) = Inr (tmr d)"
    "started d = started c @ concat (map started_by (if b then all_ops r else []))"
proof -
  from ev obtain g t where g: "begin (tmr c) = Inr (g, t)"
      "(if g then act_and_check r (c\<lparr>tmr := t\<rparr>) else Inr (c\<lparr>tmr := t\<rparr>)) = Inr d"
    by (auto simp: timer_event_def and_then_Inr Let_def)
  have "g = b" by (rule go [OF g(1)])
  note t = g [unfolded this]
  have "parts (if b then all_ops r else []) (if b then all_acts r else []) (c\<lparr>tmr := t\<rparr>) d"
  proof (cases b)
    case True
    with t al' [OF t(1)] reaction_parts [of r "c\<lparr>tmr := t\<rparr>" d] show ?thesis by simp
  qed (use t in simp)
  then show "engine_run (if b then all_ops r else []) (eng c) = Inr (eng d)"
    "do_calls (calls_in (if b then all_acts r else [])) (socks c) = Inr (socks d)"
    "with_calls (times_in (if b then all_acts r else [])) (begin (tmr c)) = Inr (tmr d)"
    "started d = started c @ concat (map started_by (if b then all_ops r else []))"
    using t(1) by (auto simp: parts_def with_calls_def times_in_def split: if_splits)
qed

lemma begin_go:
  "alive s \<Longrightarrow> begin_tick i s = Inr (g, t) \<Longrightarrow> alive t \<and> (g \<longleftrightarrow> i < length (queued_ticks s) \<and> queued_ticks s ! i)"
  "alive s \<Longrightarrow> begin_posted s = Inr (g, t) \<Longrightarrow> alive t \<and> (g \<longleftrightarrow> 0 < posted_kicks s)"
  by (auto simp: begin_tick_def tick_handler_def begin_posted_def kick_handler_def begin_kick_def and_then_Inr
      split: if_splits)

lemma client_event_parts:
  assumes ev: "client_do ev c = Inr d" and al: "alive (tmr c)" and live: "\<not> destroys ev"
  shows "event_parts ev c d"
proof (cases ev)
  case (User u)
  with ev user_parts [of u c d] al show ?thesis by (simp add: part_defs parts_def)
next
  case (Socket_event i r)
  with ev al show ?thesis by (simp add: socket_event_parts)
next
  case (Tick_event i r)
  with ev timer_event_parts [of "begin_tick i" r c d "happens c ev"] begin_go(1) [OF al] al show ?thesis
    by (cases "happens c ev") (auto simp: part_defs run_tick_def and_then_Inr)
next
  case (Kick_event r)
  with ev timer_event_parts [of begin_posted r c d "happens c ev"] begin_go(2) [OF al] al show ?thesis
    by (cases "happens c ev") (auto simp: part_defs run_kick_def and_then_Inr)
next
  case (Posted_event i us)
  show ?thesis
  proof (cases "i < length (posted (eng c))")
    case True
    with ev Posted_event obtain c1 where c1: "on_eng (engine_do (Run_posted i)) c = Inr c1" "user_ops us c1 = Inr d"
      by (auto simp: posted_event_def and_then_Inr simp del: engine_do.simps)
    from c1(1) have p: "parts [Run_posted i] [] c c1" by (rule engine_parts) simp
    have "parts (concat (map user_ops_of us)) (concat (map user_acts_of us)) c1 d"
      using users_parts [OF c1(2)] parts_alive [OF p] al by simp
    from parts_append [OF p this] True Posted_event show ?thesis by (simp add: part_defs parts_def)
  qed (use ev Posted_event in \<open>simp add: posted_event_def part_defs calls_in_def times_in_def\<close>)
qed (use ev live in \<open>auto simp: part_defs calls_in_def times_in_def on_tmr_def and_then_Inr\<close>)

text \<open>A client that lives at the end of a run has not been destroyed on the way.\<close>

lemma lived_through:
  assumes "client_run evs c = Inr d" "alive (tmr d)" "client_inv (new_engine version max_pooled) c"
  shows "alive (tmr c) \<and> (\<forall>ev\<in>set evs. \<not> destroys ev)"
  using assms(1,3)
proof (induction evs arbitrary: c)
  case Nil
  with assms(2) show ?case by simp
next
  case (Cons ev evs)
  then obtain c1 where c1: "client_do ev c = Inr c1" "client_run evs c1 = Inr d" by (auto simp: and_then_Inr)
  from client_do_inv [OF new_engine_fresh Cons.prems(2), of ev] c1(1)
  have "client_inv (new_engine version max_pooled) c1" by (simp add: safely_def)
  from Cons.IH [OF c1(2) this] have later: "alive (tmr c1)" "\<forall>ev\<in>set evs. \<not> destroys ev" by auto
  have now: "alive (tmr c)"
  proof (rule ccontr)
    assume "\<not> alive (tmr c)"
    with Cons.prems(2) obtain K where "dead_client K c" by (auto simp: client_inv_def idle_client_def)
    from dead_event [OF this, of ev] c1(1) later(1) show False by (simp add: safely_def dead_client_def)
  qed
  moreover have "\<not> destroys ev"
  proof
    assume "destroys ev"
    then obtain removal cleanup where "ev = Destroy removal cleanup" by (cases ev) simp_all
    with c1(1) have "destroy removal cleanup c = Inr c1" by (simp add: expect_Inr)
    moreover have "idle_client (new_engine version max_pooled) c" using Cons.prems(2) now by (rule alive_idle)
    ultimately show False
      using destroy_dead [of "new_engine version max_pooled" c removal cleanup] later(1)
      by (simp add: safely_def released_def dead_client_def)
  qed
  ultimately show ?case using later(2) by simp
qed

text \<open>
  C7: The event loop adds nothing to the three components, and keeps nothing from them. While a
  client lives, its engine, its sockets and its timer are each where the operations prescribed by the
  events have brought them: every callback of libcurl has gone to its component, every message in
  libcurl's queue has been delivered, and every request of a handler started, all in order, for each
  completion that ASIO has run; and waits that were aborted, or of sockets that are gone, have done
  nothing.
\<close>

theorem client_refines_components:
  assumes "client_run evs (new_client version max_pooled now) = Inr c" "alive (tmr c)"
  shows "engine_run (along engine_part evs (new_client version max_pooled now)) (new_engine version max_pooled) = Inr (eng c) \<and>
    socket_run (along socket_part evs (new_client version max_pooled now)) new_sockets = Inr (socks c) \<and>
    timer_run (along timer_part evs (new_client version max_pooled now)) (new_timer now) = Inr (tmr c) \<and>
    started c = concat (map started_by (along engine_part evs (new_client version max_pooled now)))"
proof -
  have step: "client_run evs b = Inr c \<Longrightarrow> client_inv (new_engine version max_pooled) b \<Longrightarrow>
    engine_run (along engine_part evs b) (eng b) = Inr (eng c) \<and>
    socket_run (along socket_part evs b) (socks b) = Inr (socks c) \<and>
    timer_run (along timer_part evs b) (tmr b) = Inr (tmr c) \<and>
    started c = started b @ concat (map started_by (along engine_part evs b))" for b
  proof (induction evs arbitrary: b)
    case (Cons ev evs)
    from lived_through [OF Cons.prems(1) assms(2) Cons.prems(2)]
    have live: "alive (tmr b)" "\<not> destroys ev" by simp_all
    from Cons.prems(1) obtain b1 where b1: "client_do ev b = Inr b1" "client_run evs b1 = Inr c" by (auto simp: and_then_Inr)
    from client_do_inv [OF new_engine_fresh Cons.prems(2), of ev] b1(1)
    have "client_inv (new_engine version max_pooled) b1" by (simp add: safely_def)
    from Cons.IH [OF b1(2) this] client_event_parts [OF b1(1) live] b1(1) show ?case
      by (simp add: event_parts_def run_all_append)
  qed simp
  have new: "eng (new_client version max_pooled now) = new_engine version max_pooled"
    "socks (new_client version max_pooled now) = new_sockets" "tmr (new_client version max_pooled now) = new_timer now"
    "started (new_client version max_pooled now) = []"
    by (simp_all add: new_client_def)
  from step [OF assms(1) new_client_inv] show ?thesis by (simp add: new)
qed

theorem client_refines_components_witness:
  "\<exists>ops. along engine_part sample_session (new_client 0x080000 1 0) =
     [Start (sample_answers 7 70) (async_get ''u'') (sample_handler 1), Count 1, Header_bytes 7 ''H'', Body_bytes 7 ''xy'',
      Count 0, Deliver (sample_message 7 CURLE_OK 200), Start (sample_answers 8 80) (async_get ''v'') (sample_handler 2)] \<and>
   along socket_part sample_session (new_client 0x080000 1 0) = ops \<and>
   socket_run ops new_sockets = Inr (socks (sample_client sample_session))"
proof -
  have "along engine_part sample_session (new_client 0x080000 1 0) =
     [Start (sample_answers 7 70) (async_get ''u'') (sample_handler 1), Count 1, Header_bytes 7 ''H'', Body_bytes 7 ''xy'',
      Count 0, Deliver (sample_message 7 CURLE_OK 200), Start (sample_answers 8 80) (async_get ''v'') (sample_handler 2)]"
    by (simp add: engine_part_def all_ops_def client_eval)
  with client_refines_components [OF session_runs] show ?thesis by simp
qed

end
