(* ===== verification/Test_Cases.thy ===== *)
theory Test_Cases
  imports Completions Response_Props
begin

text \<open>
  The checks of \<open>test/cofetch_tests.cpp\<close> that need no server of their own, replayed on the model:
  the tests of the response parser as they stand, and those of cancellation, destruction and
  failed starts as sessions of the client in which libcurl answers as the test arranges it. They
  pin the definitions to what the authors expect of the code.
\<close>

section \<open>The response parser\<close>

definition ok_with :: "string \<Rightarrow> response" where
  "ok_with block = \<lparr>curl_code = CURLE_OK, http_code = 200, data = [], header_data = block\<rparr>"

text \<open>\<open>header_parsing\<close>: the fields are read off once, and the lookups from them.\<close>

definition plain_block :: string where
  "plain_block = ''HTTP/1.1 200 OK'' @ CRLF @ ''Content-Type: text/html; charset=utf-8'' @ CRLF @
     ''Set-Cookie: a=1'' @ CRLF @ ''set-cookie: b=2'' @ CRLF @ ''X-Empty:'' @ CRLF @ CRLF"

lemma plain_fields:
  "final_fields (ok_with plain_block) =
     [(''Content-Type'', ''text/html; charset=utf-8''), (''Set-Cookie'', ''a=1''),
      (''set-cookie'', ''b=2''), (''X-Empty'', '''')]"
  by code_simp

lemmas read_fields = header_combined headers_def for_each_field_reference
  combined_value_def comma_combine_def ci_eval

lemma test_header_parsing:
  "length (headers (ok_with plain_block)) = 3"
  "header (ok_with plain_block) ''CONTENT-TYPE'' = Some ''text/html; charset=utf-8''"
  "header (ok_with plain_block) ''Set-Cookie'' = Some ''a=1, b=2''"
  "header (ok_with plain_block) ''x-empty'' = Some ''''"
  "header (ok_with plain_block) ''nonexistent'' = None"
  by (simp_all add: plain_fields read_fields)

text \<open>\<open>header_parsing_uses_final_block_only\<close>: hops and interim responses leave no field behind.\<close>

definition redirected_blocks :: string where
  "redirected_blocks = ''HTTP/1.1 302 Found'' @ CRLF @ ''Location: /next'' @ CRLF @
     ''Content-Length: 0'' @ CRLF @ ''Set-Cookie: hop=1'' @ CRLF @ CRLF @
     ''HTTP/1.1 100 Continue'' @ CRLF @ CRLF @
     ''HTTP/2 200 '' @ CRLF @ ''content-type: application/json'' @ CRLF @
     ''content-length: 42'' @ CRLF @ CRLF"

lemma redirected_fields:
  "final_fields (ok_with redirected_blocks) =
     [(''content-type'', ''application/json''), (''content-length'', ''42'')]"
  by code_simp

lemma test_final_block_only:
  "length (headers (ok_with redirected_blocks)) = 2"
  "header (ok_with redirected_blocks) ''Content-Length'' = Some ''42''"
  "header (ok_with redirected_blocks) ''Content-Type'' = Some ''application/json''"
  "header (ok_with redirected_blocks) ''Location'' = None"
  "header (ok_with redirected_blocks) ''set-cookie'' = None"
  by (simp_all add: redirected_fields read_fields)

text \<open>No status line, a bare LF, a blank line, no final newline.\<close>

lemma bare_fields:
  "final_fields (ok_with (''X-One: 1'' @ [LF, LF] @ ''X-Two: 2'')) = [(''X-One'', ''1''), (''X-Two'', ''2'')]"
  by code_simp

lemma test_bare_block:
  "length (headers (ok_with (''X-One: 1'' @ [LF, LF] @ ''X-Two: 2''))) = 2"
  "header (ok_with (''X-One: 1'' @ [LF, LF] @ ''X-Two: 2'')) ''x-one'' = Some ''1''"
  "header (ok_with (''X-One: 1'' @ [LF, LF] @ ''X-Two: 2'')) ''x-two'' = Some ''2''"
  by (simp_all add: bare_fields read_fields del: append.simps)

text \<open>\<open>response_defaults_and_error_text\<close>: the text is libcurl's for \<open>CURLE_OK\<close>.\<close>

lemma test_response_defaults:
  "\<not> is_ok default_response" "response_error strerror default_response = strerror CURLE_OK"
  by (simp_all add: is_ok_def default_response_def response_error_def)

section \<open>The verbs\<close>

text \<open>\<open>put_patch_del_verbs\<close>: what reaches the wire, and the body's size.\<close>

lemma test_verbs:
  "wire_verb (start_opts a (builder_put (builder_body ''v=1'' (request_builder u))) []) = ''PUT''"
  "wire_verb (start_opts a (builder_patch (builder_body ''v=2'' (request_builder u))) []) = ''PATCH''"
  "wire_verb (start_opts a (builder_del (request_builder u)) []) = ''DELETE''"
  "last_set (start_opts a (builder_put (builder_body ''v=1'' (request_builder u))) []) CURLOPT_POSTFIELDSIZE
     = Some (Long 3)"
  "last_set (start_opts a (builder_del (request_builder u)) []) CURLOPT_POSTFIELDSIZE = Some (Long 0)"
  by (simp_all add: wire_verb_def start_opts_def set_body_def last_set_def request_setters request_entry_points)

section \<open>Cancellation, destruction, failed starts\<close>

abbreviation called_with :: "client \<Rightarrow> completion list" where
  "called_with c \<equiv> invoked (eng c)"

text \<open>
  \<open>cancel_before_transfer_starts\<close>: the signal is emitted at once; the handler is not called inside
  \<open>emit\<close>, and the event loop then delivers \<open>operation_aborted\<close>.
\<close>

definition emitted :: event where
  "emitted = User (Emit_cancel 1 [])"

definition aborted_call :: completion where
  "aborted_call = (sample_handler 1, Operation_aborted, error_response CURLE_ABORTED_BY_CALLBACK)"

lemma test_cancel_before_start:
  "called_with (sample_client [first_request, emitted]) = []"
  "called_with (sample_client [first_request, emitted, Posted_event 0 []]) = [aborted_call]"
  by (simp_all add: emitted_def aborted_call_def posted_event_def run_posted_def error_response_def client_eval)

text \<open>
  \<open>cancel_after_completion_is_noop\<close>: the slot is emitted after the completion, and again after the
  client is gone.
\<close>

definition served :: event where
  "served = Kick_event \<lparr>acts = [], running_count = 0, messages = [(sample_message 7 CURLE_OK 200, [], [])]\<rparr>"

definition gone_client :: event where
  "gone_client = Destroy (\<lambda>_. []) []"

lemmas destroy_eval = destroy_def do_quiet_def begin_teardown_def detach_def free_transfer_def
  drop_members_def drop_nodes_def end_teardown_def

lemma test_cancel_after_completion:
  "map fst (called_with (sample_client [first_request, served])) = [sample_handler 1]"
  "sample_client [first_request, served, emitted] = sample_client [first_request, served]"
  "client_run [first_request, served, emitted, gone_client, emitted] (new_client 0x080000 1 0) =
     client_run [first_request, served, gone_client] (new_client 0x080000 1 0)"
  "map fst (called_with (sample_client [first_request, served, gone_client])) = [sample_handler 1]"
  by (simp_all add: emitted_def served_def gone_client_def destroy_eval client_eval)

text \<open>\<open>inflight_dropped_on_destruction\<close>: what is left for the event loop calls nothing.\<close>

lemma test_inflight_dropped:
  "\<exists>c. client_run [first_request, gone_client, Kick_event quiet] (new_client 0x080000 1 0) = Inr c \<and>
     called_with c = []"
  by (simp add: gone_client_def destroy_eval client_eval)

text \<open>
  \<open>add_handle_failure_completes_with_error\<close>: a hook has put the handle into another multi handle,
  so \<open>curl_multi_add_handle\<close> refuses it (its answer here is \<open>CURLM_ADDED_ALREADY\<close>).
\<close>

definition refused_get :: event where
  "refused_get = User (Start_request ((sample_answers 7 70)\<lparr>add_handle := 7\<rparr>)
     (builder_get (builder_curl (Some []) (request_builder ''u''))) (sample_handler 1) [])"

lemma test_add_handle_failure:
  "called_with (sample_client [refused_get]) = []"
  "called_with (sample_client [refused_get, Posted_event 0 []]) =
     [(sample_handler 1, Curl_error CURLE_FAILED_INIT, error_response CURLE_FAILED_INIT)]"
  "\<not> is_ok (error_response CURLE_FAILED_INIT)"
  "in_multi (eng (sample_client [refused_get])) = []"
  by (simp_all add: refused_get_def posted_event_def run_posted_def fail_def error_response_def make_error_code_def
      is_ok_def request_setters request_entry_points client_eval)

section \<open>Timeouts, redirects, the escape hatch\<close>

text \<open>
  \<open>sub_second_timeout\<close>, \<open>redirects_not_followed_by_default\<close>, \<open>follow_redirects_lands_on_target\<close>,
  \<open>too_many_redirects_is_transport_error\<close>: what the handle is told.
\<close>

lemma test_options:
  "last_set (start_opts a (builder_get (builder_timeout 200 (request_builder u))) []) CURLOPT_TIMEOUT_MS
     = Some (Long 200)"
  "last_set (start_opts a (async_get u) []) CURLOPT_FOLLOWLOCATION = Some (Long 0)"
  "last_set (start_opts a (builder_get (builder_follow_redirects 1 (request_builder u))) []) CURLOPT_FOLLOWLOCATION
     = Some (Long 1)"
  "last_set (start_opts a (builder_get (builder_follow_redirects 1 (request_builder u))) []) CURLOPT_MAXREDIRS
     = Some (Long 1)"
  "last_set (start_opts a (follow_redirects_default (async_get u)) []) CURLOPT_MAXREDIRS = Some (Long 30)"
  by (simp_all add: start_opts_def last_set_def request_setters request_entry_points)

text \<open>The transport errors those tests see, as libcurl reports them (28 and 47).\<close>

lemma test_transport_errors:
  "called_with (sample_client [first_request, Kick_event \<lparr>acts = [], running_count = 0,
       messages = [(sample_message 7 n 0, [], [])]\<rparr>]) =
     [(sample_handler 1, if n = CURLE_OK then No_error else Curl_error n, error_response n)]"
  by (simp add: make_error_code_def error_response_def client_eval)

text \<open>
  \<open>curl_escape_hatch_and_pool_scrub\<close>: \<open>CURLOPT_OTHER 18\<close> stands for \<open>CURLOPT_USERAGENT\<close>. The
  second request is served by the same handle, and the option is gone.
\<close>

definition hooked_request :: event where
  "hooked_request = User (Start_request (sample_answers 7 70)
     (builder_get (builder_curl (Some [(CURLOPT_OTHER 18, Str ''cofetch-hook/1'')]) (request_builder ''u'')))
     (sample_handler 1) [Timeout_act 0 0])"

definition plain_request :: event where
  "plain_request = User (Start_request (sample_answers 8 80) (async_get ''v'') (sample_handler 2) [])"

lemma test_pool_scrub:
  "last_set (opts (eng (sample_client [hooked_request])) 7) (CURLOPT_OTHER 18) = Some (Str ''cofetch-hook/1'')"
  "in_multi (eng (sample_client [hooked_request, served, plain_request])) = [7]"
  "last_set (opts (eng (sample_client [hooked_request, served, plain_request])) 7) (CURLOPT_OTHER 18) = None"
  by (simp_all add: hooked_request_def plain_request_def served_def request_setters request_entry_points client_eval)

text \<open>
  \<open>foreign_socket_is_borrowed_and_closed\<close>: descriptor 9 comes from the hook, is watched through
  the duplicate 6, and is closed when libcurl asks; nothing stays open.
\<close>

definition foreign_kick :: event where
  "foreign_kick = Kick_event \<lparr>acts = [Socket_act (Notify 9 1 (sample_borrow 6 1))],
     running_count = 1, messages = []\<rparr>"

definition foreign_answer :: event where
  "foreign_answer = Socket_event 0 \<lparr>acts = [Socket_act (Notify 9 4 (sample_borrow (-1) 2)), Socket_act (Close_socket 9)],
     running_count = 0, messages = [(sample_message 7 CURLE_OK 200, [], [])]\<rparr>"

lemma test_foreign_socket:
  "let c = sample_client [first_request, foreign_kick, Wait_completes 0 True, foreign_answer] in
     map fst (called_with c) = [sample_handler 1] \<and> closed_for_curl (socks c) = [9] \<and>
     opened (socks c) = [6] \<and> closed (socks c) = [6] \<and> table (socks c) = []"
  by (simp add: foreign_kick_def foreign_answer_def close_native_def client_eval)

end
