(* ===== verification/Spec2Isabelle.thy ===== *)
theory Spec2Isabelle
  imports Response_Props Global_Setup Driver_Mains Drivers_Alike Example_Programs Completion_Tokens
    Client_Parts Test_Cases
begin

text \<open>
  A model of \<open>cofetch\<close>, an asynchronous HTTP client over libcurl and ASIO, with the properties
  that make it correct.

  \<^bold>\<open>The program.\<close> \<open>include/cofetch.h\<close> is a header-only library. A \<open>Client\<close> gives requests to a
  libcurl multi handle and drives it from an ASIO \<open>io_context\<close>: libcurl asks for sockets, for
  interest in them and for a timer through callbacks (\<open>open_socket_cb\<close>, \<open>close_socket_cb\<close>,
  \<open>socket_cb\<close>, \<open>timer_cb\<close>); completed waits (\<open>on_event\<close>, \<open>kick\<close>) call libcurl back, and
  \<open>check_completions\<close> delivers finished transfers to their handlers. Transfers are list nodes that
  move between \<open>transfers_\<close> (in flight) and \<open>idle_\<close> (a pool of warm handles). \<open>bench/\<close> compares it
  with the epoll client it grew out of (\<open>bench/baseline/http_epoll.h\<close>) and with two
  synchronous libraries under thread pools.

  \<^bold>\<open>Theories.\<close>
  \<^item> \<open>Prelude\<close>: names for pointers and result codes, lists, the type \<open>outcome\<close> (\<open>Undefined\<close> is C++
    undefined behaviour, \<open>Breach\<close> a broken contract of code outside the repository), runs, and the
    locale \<open>component\<close>: operations that keep an invariant and are free of undefined behaviour.
  \<^item> \<open>Field_Names\<close>: \<open>CiHash\<close> and \<open>CiEqual\<close>, and hashed lookup as a locale.
  \<^item> \<open>Response_Model\<close>, \<open>Response_Props\<close>: \<open>Response\<close> and its header parsing (\<open>for_each_field\<close>,
    \<open>headers\<close>, \<open>header\<close>, \<open>trim\<close>); the position-based loop against a line-by-line specification,
    the single lookup against the map, round trip with the wire format.
  \<^item> \<open>Requests\<close>, \<open>Easy_Options\<close>: \<open>Request\<close>, \<open>RequestBuilder\<close>, and the options set on an easy
    handle, as the log of \<open>curl_easy_setopt\<close> calls. The locale \<open>easy_handle\<close> states the documented
    laws of libcurl that pooling rests on; reading the log satisfies them.
  \<^item> \<open>Transfers\<close>: \<open>start\<close>, \<open>fail\<close>, \<open>cancel\<close>, \<open>retire\<close>, the data callbacks and the body of
    \<open>check_completions\<close>, over nodes at addresses. \<open>Transfers_Inv\<close>: the invariant (each node on one
    list, handles and pointers in the logs consistent, ids distinct) and that each operation keeps
    it. \<open>Transfers_System\<close>, \<open>Transfers_Facts\<close>: the engine as a component with libcurl's contracts.
    \<open>Ledger\<close>: a locale for things issued, held and settled, used for completion handlers.
    \<open>Transfers_Isolation\<close>: what an operation leaves alone of other transfers. \<open>Transfers_Props\<close>,
    \<open>Request_Props\<close>: the properties.
  \<^item> \<open>Sockets\<close>, \<open>Sockets_Inv\<close>, \<open>Sockets_Props\<close>: \<open>SocketState\<close>, the table of descriptors, \<open>arm\<close>,
    \<open>borrow\<close>, \<open>on_event\<close> and the reactor's waits; descriptors are a ledger again.
  \<^item> \<open>Timer\<close>: \<open>timer_cb\<close>, the posted kick, the timer's completion, the \<open>alive_\<close> flag.
  \<^item> \<open>Client_Loop\<close>, \<open>Client_Props\<close>: the three components behind one event loop, with re-entrant
    handlers and \<open>~Client\<close> statement by statement. \<open>Client_Observe\<close>: the locale \<open>observed\<close>, which
    carries facts of the engine over whole events. \<open>Client_Parts\<close>: the operations that an event
    prescribes to each of the three, and that the loop carries out these and no others. \<open>Io_Context\<close>: \<open>io_context::run\<close>, which does not
    run dry before every request is answered.
  \<^item> \<open>Global_Setup\<close>: \<open>global_mutex\<close> around the set-up of libcurl, with clients on several threads.
  \<^item> \<open>Examples\<close>: the blocking facade of \<open>examples/example_sync.cpp\<close> and the loops of
    \<open>examples/example_reactors.cpp\<close>, over the client.
  \<^item> \<open>Epoll_Baseline\<close>, \<open>Epoll_Inv\<close>, \<open>Epoll_Props\<close>: the epoll client: its builder, its pool of handles, its
    interest list, \<open>process_events\<close>, \<open>submit\<close> and \<open>multi_info_read\<close>. The locale \<open>accounted\<close> adds up
    what steps change over a run, for steps that end no request and for those that do.
    \<open>Epoll_Ledger\<close>: the epoll client is a ledger too, of its callbacks.
  \<^item> \<open>Completions\<close>: the texts of errors, and that what handlers are called with is well formed.
    \<open>Completion_Tokens\<close>: \<open>async_perform\<close> and \<open>Initiation\<close>, with ASIO's \<open>async_initiate\<close> as a parameter.
  \<^item> \<open>Programs\<close>: programs over an asynchronous client, as a state with a reaction to each
    completion. The locale \<open>host\<close> is what a client provides, \<open>program_contract\<close> what a program keeps,
    \<open>hosted\<close> both. \<open>Coroutines\<close>: linear code that waits, as a datatype of what it does next, and as a
    program. \<open>Program_Client\<close>, \<open>Drivers_Epoll\<close>: the two clients are hosts.
  \<^item> \<open>Bench_Drivers\<close>: the \<open>refill\<close> loop, the split over loops, the chains and the command line of the
    drivers. \<open>Driver_Programs\<close>: these as programs, for any client (the \<open>refill\<close> loop of
    \<open>bench_epoll\<close> is its own, in \<open>Drivers_Epoll\<close>). \<open>Bench_Client\<close>, \<open>Drivers_Client\<close>:
    on the client of the library; \<open>Drivers_Epoll\<close>: on the epoll client. \<open>Bench_Workers\<close>: threads
    drawing from an atomic counter, as a step relation. \<open>Driver_Mains\<close>: \<open>main\<close> of the four drivers.
    \<open>Drivers_Alike\<close>: the locale \<open>lockstep\<close>, programs that react alike to answers that are alike, and
    that the drivers of the two clients do.
  \<^item> \<open>Example_Programs\<close>: the other programs of \<open>examples/\<close>, as batches of requests with printing
    handlers, coroutines and a future, the lines they print, and each \<open>main\<close> as the relation of
    what it may print by the time it returns.
  \<^item> \<open>Test_Cases\<close>: the tests of \<open>test/cofetch_tests.cpp\<close> that fix the answers of libcurl, replayed on
    the model: the parser's, and sessions with cancellation, destruction, hooks and failed starts.

  \<^bold>\<open>How the code is rendered.\<close> A method is a function from state to \<open>outcome\<close> of state; each early
  return, failed call and guard of the code is a branch. Pointers are addresses into a map of
  objects, and following one to nothing is \<open>Undefined\<close>; this covers list iterators, \<open>weak_ptr\<close>s,
  and the pointers that libcurl hands back (\<open>PRIVATE\<close>, \<open>WRITEDATA\<close>, \<open>HEADERDATA\<close>, \<open>socketp\<close>), which
  are read from the option log or from what \<open>curl_multi_assign\<close> stored. The answers of libcurl,
  ASIO, the kernel and the allocator are arguments of the operations: results, addresses of new
  objects, and the lists of callbacks a call makes. Contracts that these keep by their
  documentation are checked where the call is made and end in \<open>Breach\<close> when broken; the safety
  theorems hold with no other assumption on them. Completion handlers may start and cancel
  requests; a handler is a list of such operations. Transfer ids, epoll event masks and the shared
  counter are words of their width; \<open>long\<close> and \<open>int\<close> values on which the code does no arithmetic
  that can overflow are integers.

  \<^bold>\<open>Properties.\<close> For the client: memory safety with destruction between any two events, handlers
  called exactly once, progress (watched sockets are armed and deadlines covered), the event loop
  as exactly the operations of engine, sockets and timer that its events prescribe, and that
  destruction releases everything once; for the engine:
  isolation of responses, cancellation of the right transfer, a pool that leaks nothing and carries
  nothing over, requests independent of the history of their handle but for one option; for sockets and timer their
  invariants; for responses the equivalences of the parsers. For the epoll client: memory safety
  when handles can be allocated, callbacks exactly once, the size of the pool, the kernel's list
  mirroring libcurl's interest, and responses with their own bytes, body and headers. For the drivers:
  bounds on requests in flight, exact work, termination, when exit codes tell the truth and when they
  do not, and the same work for both clients. For the programs on top: any program is served,
  coroutines come to an end, the examples print what they should; calls that return, modes that agree,
  and the mutex. Some theorems show where the code differs from its documentation.

  \<^bold>\<open>Bounds.\<close> No fuel is used: loops over lists are structural, \<open>refill\<close> and the chains terminate by
  measures, and the event loops are runs over arbitrary lists of events. Transfer ids are 64-bit
  words; the invariant needs that fewer than \<open>2 ^ 64\<close> requests are started, which is a contract of
  \<open>Start\<close>. The thread pools need that the total plus the number of threads fits into an \<open>int\<close>.

  \<^bold>\<open>Not modelled.\<close> The Windows branch of \<open>borrow\<close> and \<open>close_native\<close>; capacity reservations;
  exceptions from allocation; destruction of a client from inside one of its own handlers; callbacks
  of the epoll client that call \<open>poll\<close>; the clock; messages on standard error of the drivers; the
  tests that need the echo server, threads or a network; scripts. Of libcurl, ASIO, cpr and
  cpp-httplib only what their documentation promises is used:
  the texts of errors, \<open>async_initiate\<close>, what a blocking request returns and all answers to calls
  are parameters or arguments. \<open>use_awaitable\<close>, \<open>use_future\<close> and \<open>detached\<close> are rendered as
  documented: an error code is thrown where the result is waited for, and a detached coroutine's
  exception is dropped.
\<close>

end
